(* ===== verification/Prelude.thy ===== *)
theory Prelude
  imports Main "HOL-Library.Word" "HOL-Library.AList" "HOL-Library.Multiset"
begin

text \<open>
  Shared vocabulary of the development: the machine integers of the C++ code, the standard
  containers it uses (\<open>std::queue\<close>, \<open>std::unordered_map\<close>, \<open>std::map\<close>), the interfaces the
  components rely on (a FIFO queue, a keyed store, an inductive invariant) stated as locales,
  and the reachable states of a step relation.

  Containers. A \<open>std::queue\<close> is the list of its elements, front first. A \<open>std::unordered_map\<close> is
  an association list with distinct keys whose list order is the container's current iteration
  order; the C++ standard leaves that order open, so a result about an operation holds for every
  list of entries, and step relations contain an explicit step that reorders the entries. A
  \<open>std::map\<close> is an association list sorted by key.
\<close>

section \<open>Machine integers\<close>

type_synonym u8 = "8 word"
type_synonym u16 = "16 word"
type_synonym u32 = "32 word"
type_synonym u64 = "64 word"

text \<open>Facts that unfold the definitions of one component, and facts about the containers.\<close>

named_theorems store_simps
named_theorems server_defs
named_theorems session_defs

lemma unat_Suc_no_wrap:
  fixes w :: "'a::len word"
  assumes "unat w < 2 ^ LENGTH('a) - 1"
  shows "unat (w + 1) = Suc (unat w)"
proof -
  have "unat w + 1 < 2 ^ LENGTH('a)" using assms by linarith
  then have "unat (w + 1) = (unat w + 1) mod 2 ^ LENGTH('a)"
    by (simp add: unat_word_ariths)
  then show ?thesis using \<open>unat w + 1 < 2 ^ LENGTH('a)\<close> by simp
qed

section \<open>Standard containers\<close>

subsection \<open>std::unordered\_map\<close>

type_synonym ('k, 'v) umap = "('k \<times> 'v) list"

definition umap_ok :: "('k, 'v) umap \<Rightarrow> bool" where
  "umap_ok m \<longleftrightarrow> distinct (map fst m)"

definition umap_find :: "('k, 'v) umap \<Rightarrow> 'k \<Rightarrow> 'v option" where
  "umap_find m k = map_of m k"

text \<open>\<open>insert\<close> and \<open>emplace\<close> leave an existing entry as it is; \<open>operator[]\<close> overwrites it.\<close>

definition umap_emplace :: "'k \<Rightarrow> 'v \<Rightarrow> ('k, 'v) umap \<Rightarrow> ('k, 'v) umap" where
  "umap_emplace k v m = (case umap_find m k of None \<Rightarrow> m @ [(k, v)] | Some _ \<Rightarrow> m)"

definition umap_assign :: "'k \<Rightarrow> 'v \<Rightarrow> ('k, 'v) umap \<Rightarrow> ('k, 'v) umap" where
  "umap_assign k v m = AList.update k v m"

definition umap_erase :: "'k \<Rightarrow> ('k, 'v) umap \<Rightarrow> ('k, 'v) umap" where
  "umap_erase k m = AList.delete k m"

lemma umap_ok_Nil [simp, intro]: "umap_ok []"
  by (simp add: umap_ok_def)

lemma umap_find_Nil [simp]: "umap_find [] k = None"
  by (simp add: umap_find_def)

lemma umap_find_assign [store_simps]:
  "umap_find (umap_assign k v m) k' = (if k' = k then Some v else umap_find m k')"
  by (simp add: umap_find_def umap_assign_def update_conv')

lemma umap_find_erase [store_simps]:
  "umap_find (umap_erase k m) k' = (if k' = k then None else umap_find m k')"
  by (simp add: umap_find_def umap_erase_def delete_conv')

lemma umap_find_emplace [store_simps]:
  "umap_find (umap_emplace k v m) k' =
     (if k' = k \<and> umap_find m k = None then Some v else umap_find m k')"
  by (auto simp: umap_find_def umap_emplace_def map_add_def split: option.splits)

lemma umap_ok_assign [simp, intro]: "umap_ok m \<Longrightarrow> umap_ok (umap_assign k v m)"
  by (simp add: umap_ok_def umap_assign_def distinct_update)

lemma umap_ok_erase [simp, intro]: "umap_ok m \<Longrightarrow> umap_ok (umap_erase k m)"
  by (simp add: umap_ok_def umap_erase_def distinct_delete)

lemma umap_find_None_iff: "umap_find m k = None \<longleftrightarrow> k \<notin> fst ` set m"
  by (simp add: umap_find_def map_of_eq_None_iff)

lemma umap_ok_emplace [simp, intro]: "umap_ok m \<Longrightarrow> umap_ok (umap_emplace k v m)"
  by (auto simp: umap_ok_def umap_emplace_def umap_find_None_iff split: option.splits)

lemma umap_find_Some_iff: "umap_ok m \<Longrightarrow> umap_find m k = Some v \<longleftrightarrow> (k, v) \<in> set m"
  by (simp add: umap_ok_def umap_find_def map_of_eq_Some_iff)

lemma umap_find_in_set: "umap_find m k = Some v \<Longrightarrow> (k, v) \<in> set m"
  by (simp add: umap_find_def map_of_SomeD)

lemma set_umap_emplace: "set (umap_emplace k v m) \<subseteq> insert (k, v) (set m)"
  by (auto simp: umap_emplace_def split: option.splits)

lemma set_umap_erase: "set (umap_erase k m) = {e \<in> set m. fst e \<noteq> k}"
  by (auto simp: umap_erase_def AList.delete_eq)

lemma set_umap_assign:
  "umap_ok m \<Longrightarrow> set (umap_assign k v m) = insert (k, v) {e \<in> set m. fst e \<noteq> k}"
  by (auto simp: umap_find_Some_iff [symmetric] umap_find_assign split: if_splits)

lemma umap_erase_filter: "umap_erase k m = filter (\<lambda>e. fst e \<noteq> k) m"
  unfolding umap_erase_def AList.delete_eq by (rule filter_cong) auto

text \<open>
  The number of entries: \<open>emplace\<close> of a new key adds one, \<open>erase\<close> of a present key removes one.
\<close>

lemma length_umap_emplace:
  "length (umap_emplace k v m) = (if umap_find m k = None then Suc (length m) else length m)"
  by (auto simp: umap_emplace_def split: option.splits)

lemma length_umap_erase:
  "umap_ok m \<Longrightarrow>
   length (umap_erase k m) = (if umap_find m k = None then length m else length m - 1)"
proof (induction m)
  case Nil
  then show ?case by (simp add: umap_erase_def)
next
  case (Cons e m)
  then have IH: "length (umap_erase k m) = (if umap_find m k = None then length m else length m - 1)"
    and d: "fst e \<notin> fst ` set m" by (auto simp: umap_ok_def)
  have ne: "umap_find m k \<noteq> None \<Longrightarrow> m \<noteq> []" by auto
  show ?case
    using IH d ne
    by (cases e) (auto simp: umap_erase_def umap_find_def map_of_eq_None_iff AList.delete_eq
        filter_id_conv)
qed

lemma umap_find_perm:
  assumes "umap_ok m" and "mset m' = mset m"
  shows "umap_ok m'" and "umap_find m' = umap_find m"
proof -
  have "mset (map fst m') = mset (map fst m)" using assms(2) by simp
  then show ok: "umap_ok m'"
    using assms(1) unfolding umap_ok_def by (metis mset_eq_imp_distinct_iff)
  have "set m' = set m" using assms(2) by (metis mset_eq_setD)
  then show "umap_find m' = umap_find m"
    using ok assms(1) by (auto simp: fun_eq_iff) (metis not_Some_eq umap_find_Some_iff)
qed

subsection \<open>std::map\<close>

fun omap_emplace :: "'k::linorder \<Rightarrow> 'v \<Rightarrow> ('k \<times> 'v) list \<Rightarrow> ('k \<times> 'v) list" where
  "omap_emplace k v [] = [(k, v)]"
| "omap_emplace k v ((k', v') # m) =
     (if k < k' then (k, v) # (k', v') # m
      else if k = k' then (k', v') # m
      else (k', v') # omap_emplace k v m)"

definition omap_ok :: "('k::linorder \<times> 'v) list \<Rightarrow> bool" where
  "omap_ok m \<longleftrightarrow> sorted_wrt (<) (map fst m)"

lemma omap_ok_Nil [simp]: "omap_ok []"
  by (simp add: omap_ok_def)

lemma omap_ok_Cons:
  "omap_ok (e # m) \<longleftrightarrow> omap_ok m \<and> (\<forall>x \<in> set m. fst e < fst x)"
  by (auto simp: omap_ok_def)

lemma omap_ok_imp_umap_ok: "omap_ok m \<Longrightarrow> umap_ok m"
  unfolding omap_ok_def umap_ok_def using strict_sorted_iff by blast

lemma set_omap_emplace: "set (omap_emplace k v m) \<subseteq> insert (k, v) (set m)"
  by (induction k v m rule: omap_emplace.induct) auto

lemma omap_ok_emplace [simp, intro]: "omap_ok m \<Longrightarrow> omap_ok (omap_emplace k v m)"
proof (induction k v m rule: omap_emplace.induct)
  case (1 k v)
  then show ?case by (simp add: omap_ok_def)
next
  case (2 k v k' v' m)
  then show ?case
    using set_omap_emplace [of k v m] by (fastforce simp: omap_ok_Cons)
qed

lemma umap_find_omap_emplace [store_simps]:
  "omap_ok m \<Longrightarrow> umap_find (omap_emplace k v m) k' =
     (if k' = k \<and> umap_find m k = None then Some v else umap_find m k')"
proof (induction k v m rule: omap_emplace.induct)
  case (1 k v)
  then show ?case by (simp add: umap_find_def)
next
  case (2 k v a b m)
  have "k < a \<Longrightarrow> map_of m k = None"
    using "2.prems" by (fastforce simp: omap_ok_Cons map_of_eq_None_iff)
  then show ?case
    using 2 by (auto simp: umap_find_def omap_ok_Cons)
qed

lemma omap_ok_erase [simp, intro]: "omap_ok m \<Longrightarrow> omap_ok (umap_erase k m)"
  by (induction m) (auto simp: omap_ok_Cons umap_erase_def AList.delete_eq)

section \<open>Interfaces\<close>

subsection \<open>A FIFO queue\<close>

text \<open>
  What the code relies on wherever one thread pushes and another drains: pushing appends, popping
  takes the front, and nothing else changes the contents.
\<close>

locale fifo_queue =
  fixes push :: "'a \<Rightarrow> 'q \<Rightarrow> 'q"
    and pop :: "'q \<Rightarrow> ('a \<times> 'q) option"
    and contents :: "'q \<Rightarrow> 'a list"
    and valid :: "'q \<Rightarrow> bool"
  assumes contents_push: "valid q \<Longrightarrow> contents (push x q) = contents q @ [x]"
    and valid_push: "valid q \<Longrightarrow> valid (push x q)"
    and pop_None: "valid q \<Longrightarrow> pop q = None \<longleftrightarrow> contents q = []"
    and pop_Some: "valid q \<Longrightarrow> pop q = Some (x, q') \<Longrightarrow> contents q = x # contents q' \<and> valid q'"
begin

lemma push_all:
  "valid q \<Longrightarrow> valid (fold push xs q) \<and> contents (fold push xs q) = contents q @ xs"
  by (induction xs arbitrary: q) (auto simp: contents_push valid_push)

lemma pop_front:
  assumes "valid q" and "contents q = x # xs"
  shows "\<exists>q'. pop q = Some (x, q') \<and> contents q' = xs \<and> valid q'"
  using assms pop_None [of q] pop_Some [of q] by (cases "pop q") auto

text \<open>Popping \<open>n\<close> times delivers the first \<open>n\<close> elements in the order they were pushed.\<close>

fun pops :: "nat \<Rightarrow> 'q \<Rightarrow> 'a list \<times> 'q" where
  "pops 0 q = ([], q)"
| "pops (Suc n) q =
     (case pop q of None \<Rightarrow> ([], q)
      | Some (x, q') \<Rightarrow> (let (ys, q'') = pops n q' in (x # ys, q'')))"

lemma pops_contents:
  "valid q \<Longrightarrow> fst (pops n q) = take n (contents q) \<and>
     contents (snd (pops n q)) = drop n (contents q) \<and> valid (snd (pops n q))"
proof (induction n arbitrary: q)
  case 0
  then show ?case by simp
next
  case (Suc n)
  show ?case
  proof (cases "contents q")
    case Nil
    with Suc.prems show ?thesis by (simp add: pop_None [THEN iffD2])
  next
    case (Cons x xs)
    from pop_front [OF Suc.prems Cons] obtain q'
      where "pop q = Some (x, q')" "contents q' = xs" "valid q'" by blast
    with Suc.IH [of q'] Cons show ?thesis by (simp add: case_prod_beta Let_def)
  qed
qed

lemma push_then_pops:
  assumes "valid q" and "contents q = []"
  shows "fst (pops (length xs) (fold push xs q)) = xs"
  using push_all [OF assms(1), of xs] pops_contents [of "fold push xs q" "length xs"] assms(2)
  by simp

end

definition queue_push :: "'a \<Rightarrow> 'a list \<Rightarrow> 'a list" where
  "queue_push x q = q @ [x]"

definition queue_pop :: "'a list \<Rightarrow> ('a \<times> 'a list) option" where
  "queue_pop q = (case q of [] \<Rightarrow> None | x # q' \<Rightarrow> Some (x, q'))"

interpretation stdq: fifo_queue queue_push queue_pop "\<lambda>q. q" "\<lambda>_. True"
  by unfold_locales (auto simp: queue_push_def queue_pop_def split: list.splits)

lemma fold_queue_push: "fold queue_push xs q = q @ xs"
  using stdq.push_all by blast

subsection \<open>A keyed store\<close>

locale keyed_store =
  fixes lookup :: "'s \<Rightarrow> 'k \<Rightarrow> 'v option"
    and erase :: "'k \<Rightarrow> 's \<Rightarrow> 's"
    and valid :: "'s \<Rightarrow> bool"
  assumes lookup_erase: "valid s \<Longrightarrow> lookup (erase k s) k' = (if k' = k then None else lookup s k')"
    and valid_erase: "valid s \<Longrightarrow> valid (erase k s)"
begin

lemma erase_removes: "valid s \<Longrightarrow> lookup (erase k s) k = None"
  by (simp add: lookup_erase)

lemma erase_twice: "valid s \<Longrightarrow> lookup (erase k (erase k s)) = lookup (erase k s)"
  by (auto simp: fun_eq_iff lookup_erase valid_erase)

end

text \<open>A store whose insertion keeps the entry that is there (\<open>insert\<close>, \<open>emplace\<close>).\<close>

locale emplace_store = keyed_store +
  fixes emplace :: "'k \<Rightarrow> 'v \<Rightarrow> 's \<Rightarrow> 's"
  assumes lookup_emplace: "valid s \<Longrightarrow> lookup (emplace k v s) k' =
      (if k' = k \<and> lookup s k = None then Some v else lookup s k')"
    and valid_emplace: "valid s \<Longrightarrow> valid (emplace k v s)"
begin

lemma emplace_new: "valid s \<Longrightarrow> lookup s k = None \<Longrightarrow> lookup (emplace k v s) k = Some v"
  by (simp add: lookup_emplace)

lemma emplace_keeps: "valid s \<Longrightarrow> lookup s k = Some w \<Longrightarrow> lookup (emplace k v s) = lookup s"
  by (auto simp: fun_eq_iff lookup_emplace)

lemma emplace_other: "valid s \<Longrightarrow> k' \<noteq> k \<Longrightarrow> lookup (emplace k v s) k' = lookup s k'"
  by (simp add: lookup_emplace)

lemma emplace_erase:
  "valid s \<Longrightarrow> lookup s k = None \<Longrightarrow> lookup (erase k (emplace k v s)) = lookup s"
  by (auto simp: fun_eq_iff lookup_erase lookup_emplace valid_emplace)

lemma erase_emplace:
  "valid s \<Longrightarrow> lookup (emplace k v (erase k s)) = (lookup s)(k \<mapsto> v)"
  by (auto simp: fun_eq_iff lookup_erase lookup_emplace valid_erase)

end

text \<open>A store whose insertion overwrites (\<open>operator[]\<close> followed by an assignment).\<close>

locale assign_store = keyed_store +
  fixes assign :: "'k \<Rightarrow> 'v \<Rightarrow> 's \<Rightarrow> 's"
  assumes lookup_assign: "valid s \<Longrightarrow> lookup (assign k v s) = (lookup s)(k \<mapsto> v)"
    and valid_assign: "valid s \<Longrightarrow> valid (assign k v s)"
begin

lemma assign_erase:
  "valid s \<Longrightarrow> lookup (erase k (assign k v s)) = (lookup s)(k := None)"
  by (auto simp: fun_eq_iff lookup_erase lookup_assign valid_assign)

lemma assign_all:
  "valid s \<Longrightarrow> valid (fold (\<lambda>(k, v). assign k v) kvs s) \<and>
     lookup (fold (\<lambda>(k, v). assign k v) kvs s) = lookup s ++ map_of (rev kvs)"
  by (induction kvs arbitrary: s)
     (auto simp: lookup_assign valid_assign map_add_def fun_eq_iff split: option.splits)

end

interpretation umap_emplace: emplace_store umap_find umap_erase umap_ok umap_emplace
  by unfold_locales (auto simp: store_simps)

interpretation umap_assign: assign_store umap_find umap_erase umap_ok umap_assign
  by unfold_locales (auto simp: store_simps fun_eq_iff)

interpretation omap_emplace: emplace_store umap_find umap_erase omap_ok omap_emplace
  by unfold_locales (auto simp: store_simps)

section \<open>Reachable states\<close>

inductive reach :: "('s \<Rightarrow> bool) \<Rightarrow> ('s \<Rightarrow> 's \<Rightarrow> bool) \<Rightarrow> 's \<Rightarrow> bool"
  for init :: "'s \<Rightarrow> bool" and step :: "'s \<Rightarrow> 's \<Rightarrow> bool" where
  reach_init: "init s \<Longrightarrow> reach init step s"
| reach_step: "reach init step s \<Longrightarrow> step s t \<Longrightarrow> reach init step t"

locale inductive_invariant =
  fixes init :: "'s \<Rightarrow> bool" and step :: "'s \<Rightarrow> 's \<Rightarrow> bool" and inv :: "'s \<Rightarrow> bool"
  assumes init_inv: "init s \<Longrightarrow> inv s"
    and step_inv: "step s t \<Longrightarrow> inv s \<Longrightarrow> inv t"
begin

lemma reach_inv: "reach init step s \<Longrightarrow> inv s"
  by (induction rule: reach.induct) (auto intro: init_inv step_inv)

lemma steps_inv: "step\<^sup>*\<^sup>* s t \<Longrightarrow> inv s \<Longrightarrow> inv t"
  by (induction rule: rtranclp_induct) (auto intro: step_inv)

end

lemma reach_rtranclp: "reach init step s \<Longrightarrow> step\<^sup>*\<^sup>* s t \<Longrightarrow> reach init step t"
  by (rotate_tac, induction rule: rtranclp_induct) (auto intro: reach_step)

lemma reach_from: "step\<^sup>*\<^sup>* s t \<Longrightarrow> reach (\<lambda>x. x = s) step t"
  by (rule reach_rtranclp [OF reach_init]) simp_all

end
