(* ===== verification/Deserializer.thy ===== *)
theory Deserializer
  imports Prelude
begin

text \<open>
  The namespace \<open>Deserializer\<close> of \<open>ActorModelServer/Actor.h\<close>: the arguments of a packet handler
  are read from the received bytes in the order of the handler's signature.

  A buffer is a byte list (memory), a cursor is the pair \<open>(data, remaining)\<close> the C++ functions pass
  by reference, and \<open>memcpy\<close> or the \<open>std::string\<close> constructor outside the memory is the result
  \<open>Fault\<close>, so that memory safety is a theorem and not an assumption. \<open>Nullopt\<close> is \<open>std::nullopt\<close>.
  Primitive types are the integer types of 1, 2, 4 and 8 bytes in the little-endian layout of the
  x64 target; other trivially copyable types would be read by the same copy. The class \<open>NetBuffer\<close>
  is not part of the repository: the operations of it that are used are the fields of a record the
  definitions take as an argument.
\<close>

section \<open>Types and values of handler arguments\<close>

datatype prim_type = U8 | I8 | U16 | I16 | U32 | I32 | U64 | I64

datatype arg_type = Prim prim_type | Str

datatype arg_value = VInt int | VStr "u8 list"

datatype 'a read = Fault | Nullopt | Value 'a

fun sizeof_prim :: "prim_type \<Rightarrow> nat" where
  "sizeof_prim U8 = 1" | "sizeof_prim I8 = 1"
| "sizeof_prim U16 = 2" | "sizeof_prim I16 = 2"
| "sizeof_prim U32 = 4" | "sizeof_prim I32 = 4"
| "sizeof_prim U64 = 8" | "sizeof_prim I64 = 8"

fun is_signed :: "prim_type \<Rightarrow> bool" where
  "is_signed I8 = True" | "is_signed I16 = True" | "is_signed I32 = True" | "is_signed I64 = True"
| "is_signed _ = False"

lemma sizeof_prim_pos [simp]: "0 < sizeof_prim t"
  by (cases t) auto

text \<open>Little-endian bytes of a number, and the number some bytes hold.\<close>

fun le_nat :: "u8 list \<Rightarrow> nat" where
  "le_nat [] = 0"
| "le_nat (b # bs) = unat b + 256 * le_nat bs"

fun le_bytes :: "nat \<Rightarrow> nat \<Rightarrow> u8 list" where
  "le_bytes 0 v = []"
| "le_bytes (Suc n) v = of_nat (v mod 256) # le_bytes n (v div 256)"

lemma le_bytes_numeral [simp]:
  "le_bytes (numeral k) v = of_nat (v mod 256) # le_bytes (pred_numeral k) (v div 256)"
  by (subst numeral_eq_Suc) (rule le_bytes.simps(2))

lemma length_le_bytes [simp]: "length (le_bytes n v) = n"
  by (induction n arbitrary: v) auto

lemma unat_of_nat_byte [simp]: "unat (of_nat (v mod 256) :: u8) = v mod 256"
  by (simp add: unat_of_nat)

lemma le_nat_le_bytes: "le_nat (le_bytes n v) = v mod 256 ^ n"
proof (induction n arbitrary: v)
  case 0
  then show ?case by simp
next
  case (Suc n)
  have "v mod (256 * 256 ^ n) = 256 * (v div 256 mod 256 ^ n) + v mod 256"
    by (rule mod_mult2_eq)
  then show ?case by (simp add: Suc.IH)
qed

lemma le_nat_less: "le_nat bs < 256 ^ length bs"
proof (induction bs)
  case Nil
  then show ?case by simp
next
  case (Cons b bs)
  have "unat b < 256" using unsigned_less [of b] by simp
  with Cons show ?case by simp
qed

lemma le_bytes_le_nat: "le_bytes (length bs) (le_nat bs) = bs"
proof (induction bs)
  case Nil
  then show ?case by simp
next
  case (Cons b bs)
  have "unat b < 256" using unsigned_less [of b] by simp
  then have "(unat b + 256 * le_nat bs) mod 256 = unat b"
    and "(unat b + 256 * le_nat bs) div 256 = le_nat bs" by simp_all
  with Cons show ?case by simp
qed

text \<open>
  The value a \<open>T value; memcpy(&value, data, sizeof(T))\<close> yields, and the bytes an object of the
  type has: two's complement for the signed types.
\<close>

definition prim_value :: "prim_type \<Rightarrow> u8 list \<Rightarrow> int" where
  "prim_value t bs =
     (if is_signed t then signed_take_bit (8 * sizeof_prim t - 1) (int (le_nat bs))
      else int (le_nat bs))"

definition prim_bytes :: "prim_type \<Rightarrow> int \<Rightarrow> u8 list" where
  "prim_bytes t x = le_bytes (sizeof_prim t) (nat (take_bit (8 * sizeof_prim t) x))"

definition prim_ok :: "prim_type \<Rightarrow> int \<Rightarrow> bool" where
  "prim_ok t x \<longleftrightarrow>
     (if is_signed t then - (2 ^ (8 * sizeof_prim t - 1)) \<le> x \<and> x < 2 ^ (8 * sizeof_prim t - 1)
      else 0 \<le> x \<and> x < 2 ^ (8 * sizeof_prim t))"

lemma length_prim_bytes [simp]: "length (prim_bytes t x) = sizeof_prim t"
  by (simp add: prim_bytes_def)

lemma prim_value_bytes:
  assumes "prim_ok t x"
  shows "prim_value t (prim_bytes t x) = x"
proof -
  let ?n = "8 * sizeof_prim t"
  have n: "\<not> ?n \<le> ?n - Suc 0" using sizeof_prim_pos [of t] by linarith
  have p: "(256::nat) ^ sizeof_prim t = 2 ^ ?n" by (simp add: power_mult)
  have "nat (take_bit ?n x) < 2 ^ ?n"
    by (simp add: nat_less_iff)
  then have "int (le_nat (prim_bytes t x)) = take_bit ?n x"
    by (simp add: prim_bytes_def le_nat_le_bytes p)
  then show ?thesis
    using assms n
    by (auto simp: prim_value_def prim_ok_def signed_take_bit_take_bit
        signed_take_bit_int_eq_self_iff take_bit_int_eq_self_iff)
qed

lemma prim_bytes_value:
  assumes "length bs = sizeof_prim t"
  shows "prim_bytes t (prim_value t bs) = bs" and "prim_ok t (prim_value t bs)"
proof -
  let ?n = "8 * sizeof_prim t"
  have n: "0 < ?n" by simp
  have p: "(256::nat) ^ sizeof_prim t = 2 ^ ?n" by (simp add: power_mult)
  have lt: "int (le_nat bs) < 2 ^ ?n"
    using le_nat_less [of bs] assms p by (metis of_nat_less_iff of_nat_numeral of_nat_power)
  have "take_bit ?n (prim_value t bs) = int (le_nat bs)"
    using n lt by (auto simp: prim_value_def take_bit_signed_take_bit take_bit_int_eq_self_iff)
  then show "prim_bytes t (prim_value t bs) = bs"
    using le_bytes_le_nat [of bs] assms by (simp add: prim_bytes_def)
  show "prim_ok t (prim_value t bs)"
    using lt by (auto simp: prim_ok_def prim_value_def signed_take_bit_int_greater_eq_minus_exp
        signed_take_bit_int_less_exp)
qed

section \<open>The wire format\<close>

text \<open>
  The layout the deserializer expects of the sender: the object representation of a primitive,
  and for a string its length as \<open>uint16_t\<close> followed by its characters.
\<close>

fun arg_bytes :: "arg_type \<Rightarrow> arg_value \<Rightarrow> u8 list" where
  "arg_bytes (Prim t) (VInt x) = prim_bytes t x"
| "arg_bytes Str (VStr s) = prim_bytes U16 (int (length s)) @ s"
| "arg_bytes _ _ = []"

fun arg_ok :: "arg_type \<Rightarrow> arg_value \<Rightarrow> bool" where
  "arg_ok (Prim t) (VInt x) = prim_ok t x"
| "arg_ok Str (VStr s) = (length s < 65536)"
| "arg_ok _ _ = False"

definition args_ok :: "arg_type list \<Rightarrow> arg_value list \<Rightarrow> bool" where
  "args_ok ts vs \<longleftrightarrow> list_all2 arg_ok ts vs"

definition args_bytes :: "arg_type list \<Rightarrow> arg_value list \<Rightarrow> u8 list" where
  "args_bytes ts vs = concat (map2 arg_bytes ts vs)"

lemma args_ok_simps [simp]:
  "args_ok [] vs \<longleftrightarrow> vs = []"
  "args_ok (t # ts) (v # vs) \<longleftrightarrow> arg_ok t v \<and> args_ok ts vs"
  by (auto simp: args_ok_def)

lemma args_ok_Cons: "args_ok (t # ts) vs \<longleftrightarrow> (\<exists>v ws. vs = v # ws \<and> arg_ok t v \<and> args_ok ts ws)"
  by (auto simp: args_ok_def list_all2_Cons1)

lemma args_bytes_simps [simp]:
  "args_bytes [] vs = []"
  "args_bytes (t # ts) (v # vs) = arg_bytes t v @ args_bytes ts vs"
  by (simp_all add: args_bytes_def)

section \<open>The operations\<close>

record cursor =
  data :: nat
  remaining :: nat

definition mem_copy :: "u8 list \<Rightarrow> nat \<Rightarrow> nat \<Rightarrow> u8 list option" where
  "mem_copy mem p n = (if p + n \<le> length mem then Some (take n (drop p mem)) else None)"

definition advance :: "nat \<Rightarrow> cursor \<Rightarrow> cursor" where
  "advance n c = c\<lparr>data := data c + n, remaining := remaining c - n\<rparr>"

definition ReadPrimitive :: "prim_type \<Rightarrow> u8 list \<Rightarrow> cursor \<Rightarrow> int read \<times> cursor" where
  "ReadPrimitive t mem c =
     (if remaining c < sizeof_prim t then (Nullopt, c)
      else (case mem_copy mem (data c) (sizeof_prim t) of
              None \<Rightarrow> (Fault, c)
            | Some bs \<Rightarrow> (Value (prim_value t bs), advance (sizeof_prim t) c)))"

definition ReadString :: "u8 list \<Rightarrow> cursor \<Rightarrow> u8 list read \<times> cursor" where
  "ReadString mem c =
     (case ReadPrimitive U16 mem c of
        (Fault, c') \<Rightarrow> (Fault, c')
      | (Nullopt, c') \<Rightarrow> (Nullopt, c')
      | (Value n, c') \<Rightarrow>
          (if remaining c' < nat n then (Nullopt, c')
           else (case mem_copy mem (data c') (nat n) of
                   None \<Rightarrow> (Fault, c')
                 | Some bs \<Rightarrow> (Value bs, advance (nat n) c'))))"

fun DeserializeOne :: "arg_type \<Rightarrow> u8 list \<Rightarrow> cursor \<Rightarrow> arg_value read \<times> cursor" where
  "DeserializeOne Str mem c =
     (case ReadString mem c of
        (Fault, c') \<Rightarrow> (Fault, c') | (Nullopt, c') \<Rightarrow> (Nullopt, c')
      | (Value s, c') \<Rightarrow> (Value (VStr s), c'))"
| "DeserializeOne (Prim t) mem c =
     (case ReadPrimitive t mem c of
        (Fault, c') \<Rightarrow> (Fault, c') | (Nullopt, c') \<Rightarrow> (Nullopt, c')
      | (Value x, c') \<Rightarrow> (Value (VInt x), c'))"

text \<open>The three branches of \<open>if constexpr\<close>: no argument, one argument, more.\<close>

fun DeserializeImpl :: "arg_type list \<Rightarrow> u8 list \<Rightarrow> cursor \<Rightarrow> arg_value list read \<times> cursor" where
  "DeserializeImpl [] mem c = (Value [], c)"
| "DeserializeImpl [t] mem c =
     (case DeserializeOne t mem c of
        (Fault, c') \<Rightarrow> (Fault, c') | (Nullopt, c') \<Rightarrow> (Nullopt, c')
      | (Value v, c') \<Rightarrow> (Value [v], c'))"
| "DeserializeImpl (t # t2 # ts) mem c =
     (case DeserializeOne t mem c of
        (Fault, c') \<Rightarrow> (Fault, c') | (Nullopt, c') \<Rightarrow> (Nullopt, c')
      | (Value v, c') \<Rightarrow>
          (case DeserializeImpl (t2 # ts) mem c' of
             (Fault, c'') \<Rightarrow> (Fault, c'') | (Nullopt, c'') \<Rightarrow> (Nullopt, c'')
           | (Value vs, c'') \<Rightarrow> (Value (v # vs), c'')))"

text \<open>
  What is used of \<open>NetBuffer\<close> here. \<open>GetUseSize\<close> returns an \<open>int\<close>, which \<open>Deserialize\<close> converts to
  \<open>size_t\<close>.
\<close>

record 'b NetBuffer_ops =
  nb_memory :: "'b \<Rightarrow> u8 list"
  nb_GetReadBufferPtr :: "'b \<Rightarrow> nat"
  nb_GetUseSize :: "'b \<Rightarrow> int"
  nb_read_u32 :: "'b \<Rightarrow> u32 \<times> 'b"

definition Deserialize :: "('b, 'z) NetBuffer_ops_scheme \<Rightarrow> arg_type list \<Rightarrow> 'b \<Rightarrow> arg_value list read" where
  "Deserialize nb ts b =
     fst (DeserializeImpl ts (nb_memory nb b)
            \<lparr>data = nb_GetReadBufferPtr nb b,
             remaining = unat (word_of_int (nb_GetUseSize nb b) :: u64)\<rparr>)"

section \<open>Correctness\<close>

text \<open>The bytes the cursor may still read; in bounds means that they lie in the memory.\<close>

definition window :: "u8 list \<Rightarrow> cursor \<Rightarrow> u8 list" where
  "window mem c = take (remaining c) (drop (data c) mem)"

definition in_bounds :: "u8 list \<Rightarrow> cursor \<Rightarrow> bool" where
  "in_bounds mem c \<longleftrightarrow> data c + remaining c \<le> length mem"

lemma length_window: "in_bounds mem c \<Longrightarrow> length (window mem c) = remaining c"
  by (simp add: window_def in_bounds_def)

lemma remaining_advance [simp]: "remaining (advance n c) = remaining c - n"
  by (simp add: advance_def)

lemma advance_advance: "n + m \<le> remaining c \<Longrightarrow> advance m (advance n c) = advance (n + m) c"
  by (simp add: advance_def)

lemma in_bounds_advance: "in_bounds mem c \<Longrightarrow> n \<le> remaining c \<Longrightarrow> in_bounds mem (advance n c)"
  by (simp add: in_bounds_def advance_def)

lemma window_advance:
  "in_bounds mem c \<Longrightarrow> n \<le> remaining c \<Longrightarrow> window mem (advance n c) = drop n (window mem c)"
  by (simp add: window_def advance_def in_bounds_def drop_take add.commute)

lemma mem_copy_window:
  "in_bounds mem c \<Longrightarrow> n \<le> remaining c \<Longrightarrow> mem_copy mem (data c) n = Some (take n (window mem c))"
  by (simp add: mem_copy_def in_bounds_def window_def min_def)

lemmas cursor_simps = length_window in_bounds_advance window_advance mem_copy_window advance_advance

lemma ReadPrimitive_in_bounds:
  "in_bounds mem c \<Longrightarrow> ReadPrimitive t mem c =
     (if remaining c < sizeof_prim t then (Nullopt, c)
      else (Value (prim_value t (take (sizeof_prim t) (window mem c))), advance (sizeof_prim t) c))"
  by (simp add: ReadPrimitive_def mem_copy_window)

lemma ReadString_in_bounds:
  "in_bounds mem c \<Longrightarrow> ReadString mem c =
     (let n = le_nat (take 2 (window mem c)) in
      if remaining c < 2 then (Nullopt, c)
      else if remaining c < 2 + n then (Nullopt, advance 2 c)
      else (Value (take n (drop 2 (window mem c))), advance (2 + n) c))"
  by (auto simp: ReadString_def ReadPrimitive_in_bounds prim_value_def cursor_simps Let_def)

text \<open>One argument: it is read exactly when the window starts with its encoding.\<close>

lemma DeserializeOne_Value:
  assumes ib: "in_bounds mem c"
  shows "DeserializeOne t mem c = (Value v, c') \<longleftrightarrow>
     arg_ok t v \<and> (\<exists>rest. window mem c = arg_bytes t v @ rest) \<and>
     c' = advance (length (arg_bytes t v)) c"
proof (cases t)
  case (Prim p)
  let ?w = "window mem c"
  have len: "length ?w = remaining c" using ib by (rule length_window)
  show ?thesis
  proof
    assume "DeserializeOne t mem c = (Value v, c')"
    then have "\<not> remaining c < sizeof_prim p"
      and v: "v = VInt (prim_value p (take (sizeof_prim p) ?w))" and "c' = advance (sizeof_prim p) c"
      using ib Prim by (auto simp: ReadPrimitive_in_bounds split: if_splits)
    with len have l: "length (take (sizeof_prim p) ?w) = sizeof_prim p" by simp
    have "min (length ?w) (sizeof_prim p) = sizeof_prim p" using l by simp
    with prim_bytes_value [OF l] v \<open>c' = _\<close> Prim
    show "arg_ok t v \<and> (\<exists>rest. ?w = arg_bytes t v @ rest) \<and> c' = advance (length (arg_bytes t v)) c"
      by (auto intro: exI [of _ "drop (sizeof_prim p) ?w"])
  next
    assume "arg_ok t v \<and> (\<exists>rest. ?w = arg_bytes t v @ rest) \<and> c' = advance (length (arg_bytes t v)) c"
    then obtain x rest where "v = VInt x" "prim_ok p x" "?w = prim_bytes p x @ rest"
      "c' = advance (sizeof_prim p) c"
      using Prim by (cases v) auto
    then show "DeserializeOne t mem c = (Value v, c')"
      using ib Prim len by (auto simp: ReadPrimitive_in_bounds prim_value_bytes)
  qed
next
  case Str
  let ?w = "window mem c" and ?n = "le_nat (take 2 (window mem c))"
  have len: "length ?w = remaining c" using ib by (rule length_window)
  show ?thesis
  proof
    assume "DeserializeOne t mem c = (Value v, c')"
    then have ge: "2 + ?n \<le> remaining c" and v: "v = VStr (take ?n (drop 2 ?w))"
      and c': "c' = advance (2 + ?n) c"
      using ib Str by (auto simp: ReadString_in_bounds Let_def split: if_splits)
    from ge len have l2: "length (take 2 ?w) = sizeof_prim U16" by simp
    have "prim_bytes U16 (int ?n) = take 2 ?w"
      using prim_bytes_value(1) [OF l2] by (simp add: prim_value_def)
    moreover have "?n < 65536" using le_nat_less [of "take 2 ?w"] l2 by simp
    moreover have "?w = take 2 ?w @ take ?n (drop 2 ?w) @ drop (2 + ?n) ?w"
      by (metis append_take_drop_id drop_drop add.commute)
    moreover have "length (take ?n (drop 2 ?w)) = ?n" using ge len by simp
    ultimately have "arg_ok t v" and "arg_bytes t v = take 2 ?w @ take ?n (drop 2 ?w)"
      and "length (arg_bytes t v) = 2 + ?n" and "?w = arg_bytes t v @ drop (2 + ?n) ?w"
      using v Str l2 by (simp_all del: length_take)
    with c' show "arg_ok t v \<and> (\<exists>rest. ?w = arg_bytes t v @ rest) \<and>
        c' = advance (length (arg_bytes t v)) c" by metis
  next
    assume "arg_ok t v \<and> (\<exists>rest. ?w = arg_bytes t v @ rest) \<and> c' = advance (length (arg_bytes t v)) c"
    then obtain s rest where v: "v = VStr s" and s: "length s < 65536"
      and w: "?w = prim_bytes U16 (int (length s)) @ s @ rest" and c': "c' = advance (2 + length s) c"
      using Str by (cases v) auto
    have "int ?n = prim_value U16 (prim_bytes U16 (int (length s)))"
      using w by (simp add: prim_value_def)
    also have "\<dots> = int (length s)" using s by (intro prim_value_bytes) (simp add: prim_ok_def)
    finally have "?n = length s" by simp
    with ib Str v w c' len show "DeserializeOne t mem c = (Value v, c')"
      by (auto simp: ReadString_in_bounds)
  qed
qed

lemma DeserializeOne_no_Fault:
  "in_bounds mem c \<Longrightarrow> fst (DeserializeOne t mem c) \<noteq> Fault"
  by (cases t) (auto simp: ReadPrimitive_in_bounds ReadString_in_bounds Let_def)

lemma arg_bytes_le_remaining:
  "in_bounds mem c \<Longrightarrow> window mem c = arg_bytes t v @ rest \<Longrightarrow> length (arg_bytes t v) \<le> remaining c"
  by (metis length_append length_window le_add1)

lemma DeserializeImpl_Cons:
  "DeserializeImpl (t # ts) mem c =
     (case DeserializeOne t mem c of
        (Fault, c') \<Rightarrow> (Fault, c') | (Nullopt, c') \<Rightarrow> (Nullopt, c')
      | (Value v, c') \<Rightarrow>
          (case DeserializeImpl ts mem c' of
             (Fault, c'') \<Rightarrow> (Fault, c'') | (Nullopt, c'') \<Rightarrow> (Nullopt, c'')
           | (Value vs, c'') \<Rightarrow> (Value (v # vs), c'')))"
  by (cases ts) (auto split: read.splits prod.splits)

lemma DeserializeOne_cursor:
  assumes "in_bounds mem c" and "DeserializeOne t mem c = (Value v, c')"
  shows "in_bounds mem c' \<and> (\<exists>n \<le> remaining c. c' = advance n c)"
  using assms DeserializeOne_Value [OF assms(1), of t v c'] arg_bytes_le_remaining
  by (metis in_bounds_advance)

lemma DeserializeImpl_no_Fault:
  "in_bounds mem c \<Longrightarrow> fst (DeserializeImpl ts mem c) \<noteq> Fault"
proof (induction ts arbitrary: c)
  case Nil
  then show ?case by simp
next
  case (Cons t ts)
  then show ?case
    using DeserializeOne_no_Fault [of mem c t] DeserializeOne_cursor [of mem c t]
    by (fastforce simp: DeserializeImpl_Cons split: read.splits prod.splits)
qed

lemma DeserializeImpl_Value:
  "in_bounds mem c \<Longrightarrow> DeserializeImpl ts mem c = (Value vs, c') \<longleftrightarrow>
     args_ok ts vs \<and> (\<exists>rest. window mem c = args_bytes ts vs @ rest) \<and>
     c' = advance (length (args_bytes ts vs)) c"
proof (induction ts arbitrary: c vs)
  case Nil
  have "advance 0 c = c" by (simp add: advance_def)
  then show ?case by auto
next
  case (Cons t ts)
  show ?case
  proof
    assume "DeserializeImpl (t # ts) mem c = (Value vs, c')"
    then obtain v c1 ws where one: "DeserializeOne t mem c = (Value v, c1)"
      and rest: "DeserializeImpl ts mem c1 = (Value ws, c')" and vs: "vs = v # ws"
      by (auto simp: DeserializeImpl_Cons split: read.splits prod.splits)
    from one Cons.prems obtain r where v: "arg_ok t v" and w: "window mem c = arg_bytes t v @ r"
      and c1: "c1 = advance (length (arg_bytes t v)) c"
      by (auto simp: DeserializeOne_Value)
    from w Cons.prems have le: "length (arg_bytes t v) \<le> remaining c"
      by (rule arg_bytes_le_remaining [rotated])
    then have ib1: "in_bounds mem c1" and w1: "window mem c1 = r"
      using Cons.prems c1 w by (simp_all add: cursor_simps)
    from Cons.IH [OF ib1, of ws] rest w1 obtain r2 where
      "args_ok ts ws" and r2: "r = args_bytes ts ws @ r2"
      and "c' = advance (length (args_bytes ts ws)) c1" by auto
    moreover have "length (arg_bytes t v) + length (args_bytes ts ws) \<le> remaining c"
      using length_window [OF Cons.prems] w r2 by simp
    ultimately show "args_ok (t # ts) vs \<and> (\<exists>rest. window mem c = args_bytes (t # ts) vs @ rest) \<and>
        c' = advance (length (args_bytes (t # ts) vs)) c"
      using vs v w c1 by (simp add: advance_advance)
  next
    assume "args_ok (t # ts) vs \<and> (\<exists>rest. window mem c = args_bytes (t # ts) vs @ rest) \<and>
        c' = advance (length (args_bytes (t # ts) vs)) c"
    then obtain v ws rest where vs: "vs = v # ws" and v: "arg_ok t v" and ws: "args_ok ts ws"
      and w: "window mem c = arg_bytes t v @ args_bytes ts ws @ rest"
      and c': "c' = advance (length (arg_bytes t v) + length (args_bytes ts ws)) c"
      by (auto simp: args_ok_Cons)
    define c1 where "c1 = advance (length (arg_bytes t v)) c"
    have le: "length (arg_bytes t v) + length (args_bytes ts ws) \<le> remaining c"
      using length_window [OF Cons.prems] w by simp
    have one: "DeserializeOne t mem c = (Value v, c1)"
      using Cons.prems v w by (auto simp: DeserializeOne_Value c1_def)
    from le have ib1: "in_bounds mem c1" and w1: "window mem c1 = args_bytes ts ws @ rest"
      using Cons.prems w by (simp_all add: cursor_simps c1_def)
    have "DeserializeImpl ts mem c1 = (Value ws, c')"
      using Cons.IH [OF ib1, of ws] ws w1 c' le by (auto simp: c1_def advance_advance)
    with one vs show "DeserializeImpl (t # ts) mem c = (Value vs, c')"
      by (simp add: DeserializeImpl_Cons)
  qed
qed

text \<open>Whatever the outcome, the cursor only moves forward inside the window.\<close>

lemma advance_0 [simp]: "advance 0 c = c"
  by (simp add: advance_def)

lemma DeserializeOne_advance:
  assumes "in_bounds mem c"
  shows "\<exists>n \<le> remaining c. snd (DeserializeOne t mem c) = advance n c"
proof (cases t)
  case (Prim p)
  with assms show ?thesis
    by (cases "remaining c < sizeof_prim p")
      (auto simp: ReadPrimitive_in_bounds intro: exI [of _ 0] exI [of _ "sizeof_prim p"])
next
  case Str
  let ?n = "le_nat (take 2 (window mem c))"
  consider "remaining c < 2" | "2 \<le> remaining c" "remaining c < 2 + ?n" | "2 + ?n \<le> remaining c"
    by linarith
  then show ?thesis
    using Str assms
    by cases (auto simp: ReadString_in_bounds Let_def
        intro: exI [of _ 0] exI [of _ 2] exI [of _ "2 + ?n"])
qed

lemma DeserializeImpl_advance:
  "in_bounds mem c \<Longrightarrow> \<exists>n \<le> remaining c. snd (DeserializeImpl ts mem c) = advance n c"
proof (induction ts arbitrary: c)
  case Nil
  then show ?case by (auto intro: exI [of _ 0])
next
  case (Cons t ts)
  obtain r c1 where one: "DeserializeOne t mem c = (r, c1)" by fastforce
  then obtain n where n: "n \<le> remaining c" "c1 = advance n c"
    using DeserializeOne_advance [OF Cons.prems, of t] by auto
  then have ib: "in_bounds mem c1" using Cons.prems by (simp add: in_bounds_advance)
  from Cons.IH [OF ib] obtain m
    where m: "m \<le> remaining c1" "snd (DeserializeImpl ts mem c1) = advance m c1" by blast
  then have "n + m \<le> remaining c" and "advance m c1 = advance (n + m) c"
    using n by (simp_all add: advance_advance)
  moreover obtain r2 c2 where two: "DeserializeImpl ts mem c1 = (r2, c2)" by fastforce
  ultimately have c2: "c2 = advance (n + m) c" and le: "n + m \<le> remaining c"
    using n m by simp_all
  show ?case
  proof (cases r)
    case (Value v)
    then have "snd (DeserializeImpl (t # ts) mem c) = c2"
      using one two by (cases r2) (auto simp: DeserializeImpl_Cons)
    with c2 le show ?thesis by blast
  qed (use n one in \<open>auto simp: DeserializeImpl_Cons\<close>)
qed

section \<open>Properties\<close>

text \<open>
  C8. Deserialization is exact: on a cursor inside its memory, \<open>DeserializeImpl\<close> returns the argument
  tuple \<open>vs\<close> if and only if every value fits its parameter type and the unread bytes start with the
  wire encoding of \<open>vs\<close>, and then the cursor has moved past exactly that encoding. So the tuple is
  determined by the bytes, trailing bytes are ignored, and every malformed packet is refused.
\<close>

theorem DeserializeImpl_exact:
  assumes "in_bounds mem c"
  shows "DeserializeImpl ts mem c = (Value vs, c') \<longleftrightarrow>
     args_ok ts vs \<and> (\<exists>rest. window mem c = args_bytes ts vs @ rest) \<and>
     c' = advance (length (args_bytes ts vs)) c"
  by (rule DeserializeImpl_Value [OF assms])

theorem DeserializeImpl_exact_witness:
  "DeserializeImpl [Prim I8, Str] [255, 2, 0, 104, 105, 9] \<lparr>data = 0, remaining = 6\<rparr> =
     (Value [VInt (- 1), VStr [104, 105]], \<lparr>data = 5, remaining = 1\<rparr>)"
proof -
  have b: "args_bytes [Prim I8, Str] [VInt (- 1), VStr [104, 105]] = [255, 2, 0, 104, 105]"
    by code_simp
  let ?mem = "[255, 2, 0, 104, 105, 9] :: u8 list" and ?c = "\<lparr>data = 0, remaining = 6\<rparr>"
  have ib: "in_bounds ?mem ?c" by (simp add: in_bounds_def)
  have "args_ok [Prim I8, Str] [VInt (- 1), VStr [104, 105]]" by (simp add: prim_ok_def)
  moreover have "window ?mem ?c = args_bytes [Prim I8, Str] [VInt (- 1), VStr [104, 105]] @ [9]"
    unfolding b by (simp add: window_def)
  moreover have "\<lparr>data = 5, remaining = 1\<rparr> =
      advance (length (args_bytes [Prim I8, Str] [VInt (- 1), VStr [104, 105]])) ?c"
    unfolding b by (simp add: advance_def)
  ultimately show ?thesis by (intro DeserializeImpl_exact [OF ib, THEN iffD2] conjI exI)
qed

text \<open>
  C10. Memory safety: whatever the bytes and whatever the signature, deserialization never reads
  outside the buffer, and the cursor it leaves still covers only bytes of the window it started
  with, also when it gives up half way.
\<close>

theorem DeserializeImpl_memory_safe:
  assumes "in_bounds mem c"
  shows "fst (DeserializeImpl ts mem c) \<noteq> Fault \<and> in_bounds mem (snd (DeserializeImpl ts mem c)) \<and>
     data (snd (DeserializeImpl ts mem c)) + remaining (snd (DeserializeImpl ts mem c)) =
       data c + remaining c"
proof -
  obtain n where "n \<le> remaining c" "snd (DeserializeImpl ts mem c) = advance n c"
    using DeserializeImpl_advance [OF assms] by blast
  then show ?thesis
    using assms DeserializeImpl_no_Fault [OF assms, of ts]
    by (simp add: in_bounds_advance) (simp add: advance_def)
qed

theorem DeserializeImpl_memory_safe_witness:
  "fst (DeserializeImpl [Str] [200, 0, 1] \<lparr>data = 0, remaining = 3\<rparr>) \<noteq> Fault"
proof -
  have "in_bounds [200, 0, 1] \<lparr>data = 0, remaining = 3\<rparr>" by (simp add: in_bounds_def)
  from DeserializeImpl_memory_safe [OF this, of "[Str]"] show ?thesis by blast
qed

end
