(* ===== verification/ActorCore.thy ===== *)
theory ActorCore
  imports Deserializer
begin

text \<open>
  The class \<open>Actor\<close> (\<open>ActorModelServer/Actor.h\<close>, \<open>Actor.cpp\<close>): identity and owning logic thread,
  the two message queues, the packet handler table, and the message loop.

  A message is a \<open>std::function<void()>\<close>. It is represented by what it was built from: an empty
  function object, the empty lambda a factory returns when deserialization fails, or a function
  bound to its arguments. What running a bound function does is a parameter \<open>exec\<close> of the message
  loop: it maps the actor and the rest of the world to a new actor and world, or it throws. Only the
  message loop touches the protected member \<open>consumerQueue\<close>; this is the hypothesis
  \<open>consumer_private\<close> of the results about the loop.
\<close>

section \<open>State\<close>

datatype 'h message = NullMessage | EmptyLambda | Bound 'h "arg_value list"

type_synonym 'h message_factory = "'h \<times> arg_type list"

record 'h actor =
  actorId :: u64
  threadId :: u8
  isStop :: bool
  consumerQueue :: "'h message list"
  storeQueue :: "'h message list"
  messageFactories :: "(u32, 'h message_factory) umap"

datatype actor_error = PacketIdAlreadyRegistered

datatype 's outcome = is_Done: Done (final: 's) | Threw (final: 's)

section \<open>Identity\<close>

text \<open>
  \<open>++actorIdGenerator\<close> on an atomic 64-bit counter; \<open>actorId % numOfLogicThread\<close> narrowed to
  \<open>unsigned char\<close>, undefined (\<open>None\<close>) when the number of logic threads is 0.
\<close>

definition GenerateActorId :: "u64 \<Rightarrow> u64 \<times> u64" where
  "GenerateActorId g = (let g' = g + 1 in (g', g'))"

definition GetTargetThreadId :: "u8 \<Rightarrow> u64 \<Rightarrow> u8 option" where
  "GetTargetThreadId numOfLogicThread i =
     (if numOfLogicThread = 0 then None else Some (ucast (i mod ucast numOfLogicThread)))"

definition new_actor :: "u64 \<Rightarrow> u8 \<Rightarrow> 'h actor" where
  "new_actor i t = \<lparr>actorId = i, threadId = t, isStop = False, consumerQueue = [],
     storeQueue = [], messageFactories = []\<rparr>"

definition Actor_ctor :: "u8 \<Rightarrow> u64 \<Rightarrow> ('h actor \<times> u64) option" where
  "Actor_ctor numOfLogicThread g =
     (let (i, g') = GenerateActorId g in
      case GetTargetThreadId numOfLogicThread i of
        None \<Rightarrow> None
      | Some t \<Rightarrow> Some (new_actor i t, g'))"

section \<open>Sending\<close>

definition push_store :: "'h message \<Rightarrow> ('h, 'z) actor_scheme \<Rightarrow> ('h, 'z) actor_scheme" where
  "push_store m a = a\<lparr>storeQueue := queue_push m (storeQueue a)\<rparr>"

definition SendMessage :: "'h message \<Rightarrow> ('h, 'z) actor_scheme \<Rightarrow> bool \<times> ('h, 'z) actor_scheme" where
  "SendMessage m a = (if isStop a then (False, a) else (True, push_store m a))"

definition SendMessage_bind ::
  "'h \<Rightarrow> arg_value list \<Rightarrow> ('h, 'z) actor_scheme \<Rightarrow> bool \<times> ('h, 'z) actor_scheme" where
  "SendMessage_bind f args a =
     (if isStop a then (False, a) else (True, push_store (Bound f args) a))"

text \<open>
  The overload with a target: the function is bound to the target and sent to the target's queue.
  The objects are a store from actor ids to actors; the caller plays no part but for being the
  object the member function is called on. A null or dangling target is \<open>None\<close>.
\<close>

definition SendMessage_to ::
  "u64 \<Rightarrow> 'h \<Rightarrow> u64 \<Rightarrow> arg_value list \<Rightarrow> (u64 \<rightharpoonup> ('h, 'z) actor_scheme)
     \<Rightarrow> (bool \<times> (u64 \<rightharpoonup> ('h, 'z) actor_scheme)) option" where
  "SendMessage_to caller f target args objs =
     (case objs target of
        None \<Rightarrow> None
      | Some a \<Rightarrow> (let (ok, a') = SendMessage (Bound f args) a in Some (ok, objs(target \<mapsto> a'))))"

definition Stop :: "('h, 'z) actor_scheme \<Rightarrow> ('h, 'z) actor_scheme" where
  "Stop a = a\<lparr>isStop := True\<rparr>"

section \<open>The message loop\<close>

definition swap_queues :: "('h, 'z) actor_scheme \<Rightarrow> ('h, 'z) actor_scheme" where
  "swap_queues a = a\<lparr>consumerQueue := storeQueue a, storeQueue := consumerQueue a\<rparr>"

definition pop_consumer :: "('h, 'z) actor_scheme \<Rightarrow> ('h, 'z) actor_scheme" where
  "pop_consumer a = a\<lparr>consumerQueue := tl (consumerQueue a)\<rparr>"

type_synonym ('h, 'w) executor =
  "'h \<Rightarrow> arg_value list \<Rightarrow> 'h actor \<times> 'w \<Rightarrow> ('h actor \<times> 'w) outcome"

text \<open>Calling an empty \<open>std::function\<close> throws \<open>std::bad_function_call\<close>.\<close>

fun run_message :: "('h, 'w) executor \<Rightarrow> 'h message \<Rightarrow> 'h actor \<times> 'w \<Rightarrow> ('h actor \<times> 'w) outcome" where
  "run_message exec NullMessage s = Threw s"
| "run_message exec EmptyLambda s = Done s"
| "run_message exec (Bound f args) s = exec f args s"

text \<open>
  The \<open>while\<close> loop of \<open>ProcessMessage\<close>. \<open>None\<close> is a loop that does not end; an exception leaves the
  loop with the running message still at the front of \<open>consumerQueue\<close>.
\<close>

partial_function (option) ProcessLoop ::
  "('h, 'w) executor \<Rightarrow> 'h actor \<times> 'w \<Rightarrow> ('h actor \<times> 'w) outcome option" where
  "ProcessLoop exec s =
     (if consumerQueue (fst s) = [] then Some (Done s)
      else if hd (consumerQueue (fst s)) = NullMessage
      then ProcessLoop exec (apfst pop_consumer s)
      else (let r = run_message exec (hd (consumerQueue (fst s))) s in
            if is_Done r then ProcessLoop exec (apfst pop_consumer (final r)) else Some r))"

definition ProcessMessage ::
  "('h, 'w) executor \<Rightarrow> 'h actor \<times> 'w \<Rightarrow> ('h actor \<times> 'w) outcome option" where
  "ProcessMessage exec s =
     (if isStop (fst s) then Some (Done s) else ProcessLoop exec (apfst swap_queues s))"

section \<open>Packet handlers\<close>

definition RegisterPacketHandler ::
  "u32 \<Rightarrow> 'h \<Rightarrow> arg_type list \<Rightarrow> ('h, 'z) actor_scheme \<Rightarrow> actor_error + ('h, 'z) actor_scheme" where
  "RegisterPacketHandler packetId f ts a =
     (if umap_find (messageFactories a) packetId \<noteq> None then Inl PacketIdAlreadyRegistered
      else Inr (a\<lparr>messageFactories := umap_assign packetId (f, ts) (messageFactories a)\<rparr>))"

text \<open>The lambda \<open>RegisterPacketHandler\<close> stores, and the lookup that calls it.\<close>

definition message_factory ::
  "('b, 'y) NetBuffer_ops_scheme \<Rightarrow> 'h message_factory \<Rightarrow> 'b \<Rightarrow> 'h message read" where
  "message_factory nb fac packet =
     (case Deserialize nb (snd fac) packet of
        Fault \<Rightarrow> Fault
      | Nullopt \<Rightarrow> Value EmptyLambda
      | Value args \<Rightarrow> Value (Bound (fst fac) args))"

definition FindFunctionObject ::
  "('b, 'y) NetBuffer_ops_scheme \<Rightarrow> ('h, 'z) actor_scheme \<Rightarrow> u32 \<Rightarrow> 'b \<Rightarrow> 'h message read" where
  "FindFunctionObject nb a packetId buffer =
     (case umap_find (messageFactories a) packetId of
        None \<Rightarrow> Nullopt
      | Some fac \<Rightarrow> message_factory nb fac buffer)"

definition CreateMessageFromPacket ::
  "('b, 'y) NetBuffer_ops_scheme \<Rightarrow> ('h, 'z) actor_scheme \<Rightarrow> 'b \<Rightarrow> 'h message read \<times> 'b" where
  "CreateMessageFromPacket nb a buffer =
     (if nb_GetUseSize nb buffer < 4 then (Nullopt, buffer)
      else (let (packetId, buffer') = nb_read_u32 nb buffer in
            (FindFunctionObject nb a packetId buffer', buffer')))"

section \<open>Facts about sending\<close>

lemmas send_defs = SendMessage_def SendMessage_bind_def push_store_def queue_push_def

lemma SendMessage_bind_eq: "SendMessage_bind f args = SendMessage (Bound f args)"
  by (auto simp: fun_eq_iff send_defs)

lemma SendMessage_fields [simp]:
  "actorId (snd (SendMessage m a)) = actorId a"
  "threadId (snd (SendMessage m a)) = threadId a"
  "isStop (snd (SendMessage m a)) = isStop a"
  "consumerQueue (snd (SendMessage m a)) = consumerQueue a"
  "messageFactories (snd (SendMessage m a)) = messageFactories a"
  by (auto simp: send_defs)

lemma SendMessage_store:
  "storeQueue (snd (SendMessage m a)) = (if fst (SendMessage m a) then storeQueue a @ [m] else storeQueue a)"
  "fst (SendMessage m a) = (\<not> isStop a)"
  by (auto simp: send_defs)

text \<open>
  The two queues together are one FIFO queue: sending appends to it, and taking a message (from
  \<open>consumerQueue\<close>, swapping first when that is empty) removes its front.
\<close>

definition mailbox_take :: "('h, 'z) actor_scheme \<Rightarrow> ('h message \<times> ('h, 'z) actor_scheme) option" where
  "mailbox_take a =
     (let a' = (if consumerQueue a = [] then swap_queues a else a) in
      case consumerQueue a' of [] \<Rightarrow> None | m # _ \<Rightarrow> Some (m, pop_consumer a'))"

definition mailbox_contents :: "('h, 'z) actor_scheme \<Rightarrow> 'h message list" where
  "mailbox_contents a = consumerQueue a @ storeQueue a"

interpretation mailbox: fifo_queue
  "\<lambda>m a. snd (SendMessage m a)" mailbox_take mailbox_contents "\<lambda>a. \<not> isStop a"
  by unfold_locales
     (auto simp: send_defs mailbox_take_def mailbox_contents_def swap_queues_def pop_consumer_def
        Let_def split: list.splits if_splits)

section \<open>Facts about the message loop\<close>

text \<open>
  A reference for one batch of messages: run them in order, skip the null ones, stop at the first
  exception and return the messages that are left, the throwing one first.
\<close>

fun run_batch ::
  "('h, 'w) executor \<Rightarrow> 'h message list \<Rightarrow> 'h actor \<times> 'w
     \<Rightarrow> ('h actor \<times> 'w) outcome \<times> 'h message list" where
  "run_batch exec [] s = (Done s, [])"
| "run_batch exec (m # ms) s =
     (if m = NullMessage then run_batch exec ms s
      else (let r = run_message exec m s in
            if is_Done r then run_batch exec ms (final r) else (r, m # ms)))"

definition set_consumer :: "'h message list \<Rightarrow> 'h actor \<Rightarrow> 'h actor" where
  "set_consumer q a = a\<lparr>consumerQueue := q\<rparr>"

definition consumer_private :: "('h, 'w) executor \<Rightarrow> bool" where
  "consumer_private exec \<longleftrightarrow>
     (\<forall>f args a w q. exec f args (set_consumer q a, w) =
        map_outcome (apfst (set_consumer q)) (exec f args (a, w)))"

lemma set_consumer_simps [simp]:
  "consumerQueue (set_consumer q a) = q"
  "set_consumer q (set_consumer r a) = set_consumer q a"
  "set_consumer (consumerQueue a) a = a"
  "isStop (set_consumer q a) = isStop a"
  "storeQueue (set_consumer q a) = storeQueue a"
  "pop_consumer (set_consumer q a) = set_consumer (tl q) a"
  by (simp_all add: set_consumer_def pop_consumer_def)

lemma run_message_set_consumer:
  "consumer_private exec \<Longrightarrow> m \<noteq> NullMessage \<Longrightarrow>
   run_message exec m (set_consumer q a, w) =
     map_outcome (apfst (set_consumer q)) (run_message exec m (a, w))"
  by (cases m) (auto simp: consumer_private_def)

lemma is_Done_map [simp]: "is_Done (map_outcome f r) = is_Done r"
  by (cases r) auto

lemma final_map [simp]: "final (map_outcome f r) = f (final r)"
  by (cases r) auto

lemma ProcessLoop_run_batch:
  assumes priv: "consumer_private exec"
  shows "ProcessLoop exec (set_consumer q a, w) =
     (let (r, rest) = run_batch exec q (a, w) in
      Some (map_outcome (apfst (set_consumer rest)) r))"
proof (induction q arbitrary: a w)
  case Nil
  show ?case by (subst ProcessLoop.simps) simp
next
  case (Cons m q)
  show ?case
  proof (cases "m = NullMessage")
    case True
    with Cons.IH show ?thesis by (subst ProcessLoop.simps) simp
  next
    case False
    obtain a' w' where f: "final (run_message exec m (a, w)) = (a', w')" by fastforce
    show ?thesis
      using False Cons.IH [of a' w'] f
      by (subst ProcessLoop.simps) (simp add: run_message_set_consumer [OF priv] Let_def)
  qed
qed

lemma ProcessMessage_run_batch:
  assumes "consumer_private exec" and "\<not> isStop a" and "consumerQueue a = []"
  shows "ProcessMessage exec (a, w) =
     (let (r, rest) = run_batch exec (storeQueue a) (a\<lparr>storeQueue := []\<rparr>, w) in
      Some (map_outcome (apfst (set_consumer rest)) r))"
proof -
  have "swap_queues a = set_consumer (storeQueue a) (a\<lparr>storeQueue := []\<rparr>)"
    using assms(3) by (simp add: swap_queues_def set_consumer_def)
  with ProcessLoop_run_batch [OF assms(1), of "storeQueue a" "a\<lparr>storeQueue := []\<rparr>" w] assms(2)
  show ?thesis by (simp add: ProcessMessage_def)
qed

lemma run_batch_Done_rest: "run_batch exec ms s = (r, rest) \<Longrightarrow> is_Done r \<Longrightarrow> rest = []"
  by (induction exec ms s rule: run_batch.induct) (auto simp: Let_def split: if_splits)

lemma run_batch_suffix:
  "run_batch exec ms s = (r, rest) \<Longrightarrow> \<exists>done. ms = done @ rest"
proof (induction exec ms s rule: run_batch.induct)
  case (2 exec m ms s)
  then show ?case
    by (auto simp: Let_def split: if_splits)
qed auto

section \<open>Facts about packet dispatch\<close>

text \<open>
  What the code relies on of a \<open>NetBuffer\<close>: the unread part lies in its memory, its size fits an
  \<open>int\<close>, and \<open>operator>>\<close> into a 4-byte variable takes the next four bytes.
\<close>

definition nb_contract :: "('b, 'y) NetBuffer_ops_scheme \<Rightarrow> 'b \<Rightarrow> bool" where
  "nb_contract nb b \<longleftrightarrow>
     0 \<le> nb_GetUseSize nb b \<and> nb_GetUseSize nb b < 2 ^ 31 \<and>
     nb_GetReadBufferPtr nb b + nat (nb_GetUseSize nb b) \<le> length (nb_memory nb b) \<and>
     (4 \<le> nb_GetUseSize nb b \<longrightarrow>
        (let (v, b') = nb_read_u32 nb b in
           v = of_nat (le_nat (take 4 (drop (nb_GetReadBufferPtr nb b) (nb_memory nb b)))) \<and>
           nb_memory nb b' = nb_memory nb b \<and>
           nb_GetReadBufferPtr nb b' = nb_GetReadBufferPtr nb b + 4 \<and>
           nb_GetUseSize nb b' = nb_GetUseSize nb b - 4))"

definition nb_payload :: "('b, 'y) NetBuffer_ops_scheme \<Rightarrow> 'b \<Rightarrow> u8 list" where
  "nb_payload nb b = take (nat (nb_GetUseSize nb b)) (drop (nb_GetReadBufferPtr nb b) (nb_memory nb b))"

text \<open>The cursor \<open>Deserialize\<close> starts from covers the payload and lies in the memory.\<close>

lemma Deserialize_cursor:
  assumes "0 \<le> nb_GetUseSize nb b" and "nb_GetUseSize nb b < 2 ^ 31"
    and "nb_GetReadBufferPtr nb b + nat (nb_GetUseSize nb b) \<le> length (nb_memory nb b)"
  defines "c \<equiv> \<lparr>data = nb_GetReadBufferPtr nb b,
                  remaining = unat (word_of_int (nb_GetUseSize nb b) :: u64)\<rparr>"
  shows "in_bounds (nb_memory nb b) c" and "window (nb_memory nb b) c = nb_payload nb b"
    and "Deserialize nb ts b = fst (DeserializeImpl ts (nb_memory nb b) c)"
proof -
  have "unat (word_of_int (nb_GetUseSize nb b) :: u64) = nat (nb_GetUseSize nb b)"
    using assms(1,2) by (simp add: unat_eq_nat_uint uint_word_of_int)
  then show "in_bounds (nb_memory nb b) c" and "window (nb_memory nb b) c = nb_payload nb b"
    using assms by (simp_all add: in_bounds_def window_def nb_payload_def)
  show "Deserialize nb ts b = fst (DeserializeImpl ts (nb_memory nb b) c)"
    by (simp add: Deserialize_def c_def)
qed

lemma Deserialize_Value:
  assumes "0 \<le> nb_GetUseSize nb b" and "nb_GetUseSize nb b < 2 ^ 31"
    and "nb_GetReadBufferPtr nb b + nat (nb_GetUseSize nb b) \<le> length (nb_memory nb b)"
  shows "Deserialize nb ts b = Value vs \<longleftrightarrow>
     args_ok ts vs \<and> (\<exists>rest. nb_payload nb b = args_bytes ts vs @ rest)"
    and "Deserialize nb ts b \<noteq> Fault"
proof -
  note c = Deserialize_cursor [OF assms]
  show "Deserialize nb ts b \<noteq> Fault"
    using DeserializeImpl_no_Fault [OF c(1)] c(3) by metis
  show "Deserialize nb ts b = Value vs \<longleftrightarrow>
     args_ok ts vs \<and> (\<exists>rest. nb_payload nb b = args_bytes ts vs @ rest)"
    using DeserializeImpl_Value [OF c(1), of ts vs] c(2,3) by (metis prod.collapse fst_conv)
qed

lemma nb_contract_read:
  assumes "nb_contract nb b" and "4 \<le> nb_GetUseSize nb b" and "nb_read_u32 nb b = (v, b')"
  shows "v = of_nat (le_nat (take 4 (nb_payload nb b)))"
    and "nb_payload nb b' = drop 4 (nb_payload nb b)"
    and "0 \<le> nb_GetUseSize nb b'" and "nb_GetUseSize nb b' < 2 ^ 31"
    and "nb_GetReadBufferPtr nb b' + nat (nb_GetUseSize nb b') \<le> length (nb_memory nb b')"
proof -
  have n: "nat (nb_GetUseSize nb b) = 4 + nat (nb_GetUseSize nb b - 4)" using assms(2) by simp
  from assms show "v = of_nat (le_nat (take 4 (nb_payload nb b)))"
    by (auto simp: nb_contract_def nb_payload_def min_def)
  from assms n show "nb_payload nb b' = drop 4 (nb_payload nb b)"
    by (auto simp: nb_contract_def nb_payload_def drop_take add.commute)
  from assms n show "0 \<le> nb_GetUseSize nb b'" and "nb_GetUseSize nb b' < 2 ^ 31"
    and "nb_GetReadBufferPtr nb b' + nat (nb_GetUseSize nb b') \<le> length (nb_memory nb b')"
    by (auto simp: nb_contract_def)
qed

lemma length_nb_payload:
  "nb_contract nb b \<Longrightarrow> int (length (nb_payload nb b)) = nb_GetUseSize nb b"
  by (auto simp: nb_contract_def nb_payload_def)

text \<open>The message a packet turns into, from its bytes: the three outcomes.\<close>

lemma CreateMessageFromPacket_cases:
  assumes "nb_contract nb b" and "4 \<le> length (nb_payload nb b)"
  defines "pid \<equiv> of_nat (le_nat (take 4 (nb_payload nb b)))"
  shows "umap_find (messageFactories a) pid = None \<Longrightarrow>
           fst (CreateMessageFromPacket nb a b) = Nullopt"
    and "umap_find (messageFactories a) pid = Some (f, ts) \<Longrightarrow> args_ok ts vs \<Longrightarrow>
           drop 4 (nb_payload nb b) = args_bytes ts vs @ rest \<Longrightarrow>
           fst (CreateMessageFromPacket nb a b) = Value (Bound f vs)"
    and "umap_find (messageFactories a) pid = Some (f, ts) \<Longrightarrow>
           \<nexists>vs rest. args_ok ts vs \<and> drop 4 (nb_payload nb b) = args_bytes ts vs @ rest \<Longrightarrow>
           fst (CreateMessageFromPacket nb a b) = Value EmptyLambda"
proof -
  obtain v b' where r: "nb_read_u32 nb b = (v, b')" by fastforce
  have four: "4 \<le> nb_GetUseSize nb b" using assms(2) length_nb_payload [OF assms(1)] by linarith
  note d = nb_contract_read [OF assms(1) four r]
  have create: "fst (CreateMessageFromPacket nb a b) = FindFunctionObject nb a pid b'"
    using four r d(1) by (simp add: CreateMessageFromPacket_def pid_def)
  note des = Deserialize_Value [OF d(3-5)]
  show "umap_find (messageFactories a) pid = None \<Longrightarrow> fst (CreateMessageFromPacket nb a b) = Nullopt"
    by (simp add: create FindFunctionObject_def)
  show "fst (CreateMessageFromPacket nb a b) = Value (Bound f vs)"
    if "umap_find (messageFactories a) pid = Some (f, ts)" "args_ok ts vs"
      "drop 4 (nb_payload nb b) = args_bytes ts vs @ rest"
  proof -
    have "Deserialize nb ts b' = Value vs" using that d(2) by (auto simp: des)
    with that show ?thesis by (simp add: create FindFunctionObject_def message_factory_def)
  qed
  show "fst (CreateMessageFromPacket nb a b) = Value EmptyLambda"
    if "umap_find (messageFactories a) pid = Some (f, ts)"
      "\<nexists>vs rest. args_ok ts vs \<and> drop 4 (nb_payload nb b) = args_bytes ts vs @ rest"
  proof -
    have "Deserialize nb ts b' \<noteq> Value vs" for vs using that(2) d(2) by (auto simp: des)
    then have "Deserialize nb ts b' = Nullopt"
      using des(2) [of ts] by (cases "Deserialize nb ts b'") auto
    with that(1) show ?thesis by (simp add: create FindFunctionObject_def message_factory_def)
  qed
qed

text \<open>A concrete buffer for examples: a byte list and a read position.\<close>

definition list_nb :: "(u8 list \<times> nat) NetBuffer_ops" where
  "list_nb = \<lparr>nb_memory = fst, nb_GetReadBufferPtr = snd,
     nb_GetUseSize = (\<lambda>b. int (length (fst b)) - int (snd b)),
     nb_read_u32 = (\<lambda>b. (of_nat (le_nat (take 4 (drop (snd b) (fst b)))), (fst b, snd b + 4)))\<rparr>"

section \<open>Properties\<close>

text \<open>
  What the IO thread turns a packet into: for a buffer whose unread part is \<open>nb_payload\<close>, the
  result is the handler bound to arguments exactly when the first four bytes are a registered packet
  id and the rest starts with the encoding of well-typed arguments for that handler; it is
  \<open>nullopt\<close> exactly when there are fewer than four bytes or the id is not registered; no
  out-of-bounds read happens. A registered packet with a malformed body is the empty lambda.
\<close>

theorem CreateMessageFromPacket_exact:
  assumes "nb_contract nb b"
  shows "let pid = of_nat (le_nat (take 4 (nb_payload nb b))) in
      (fst (CreateMessageFromPacket nb a b) = Value (Bound f vs) \<longleftrightarrow>
         4 \<le> length (nb_payload nb b) \<and>
         (\<exists>ts rest. umap_find (messageFactories a) pid = Some (f, ts) \<and> args_ok ts vs \<and>
            drop 4 (nb_payload nb b) = args_bytes ts vs @ rest)) \<and>
      (fst (CreateMessageFromPacket nb a b) = Nullopt \<longleftrightarrow>
         length (nb_payload nb b) < 4 \<or> umap_find (messageFactories a) pid = None) \<and>
      fst (CreateMessageFromPacket nb a b) \<noteq> Fault" (is "let pid = ?pid in ?P pid")
proof -
  define pid :: u32 where "pid = ?pid"
  have short: "fst (CreateMessageFromPacket nb a b) = Nullopt" if "length (nb_payload nb b) < 4"
    using that length_nb_payload [OF assms(1)] by (simp add: CreateMessageFromPacket_def)
  have "?P pid"
  proof (cases "4 \<le> length (nb_payload nb b)")
    case False
    with short show ?thesis by simp
  next
    case long: True
    note cs = CreateMessageFromPacket_cases [OF assms(1) long, of a, folded pid_def]
    show ?thesis
    proof (cases "umap_find (messageFactories a) pid")
      case None
      with cs(1) long show ?thesis by simp
    next
      case (Some fac)
      obtain g ts where fac: "fac = (g, ts)" by (cases fac)
      show ?thesis
      proof (cases "\<exists>ws rest. args_ok ts ws \<and> drop 4 (nb_payload nb b) = args_bytes ts ws @ rest")
        case True
        then obtain ws rest where ws: "args_ok ts ws" "drop 4 (nb_payload nb b) = args_bytes ts ws @ rest"
          by blast
        have "fst (CreateMessageFromPacket nb a b) = Value (Bound g ws)"
          using cs(2) Some fac ws by blast
        moreover have "ws = vs" if "args_ok ts vs" "drop 4 (nb_payload nb b) = args_bytes ts vs @ rest'" for rest'
        proof -
          have "fst (CreateMessageFromPacket nb a b) = Value (Bound g vs)"
            using cs(2) Some fac that by blast
          with \<open>fst (CreateMessageFromPacket nb a b) = Value (Bound g ws)\<close> show ?thesis by simp
        qed
        ultimately show ?thesis using Some fac ws long by auto
      next
        case False
        with cs(3) [of g ts] Some fac long show ?thesis by auto
      qed
    qed
  qed
  then show ?thesis by (simp add: Let_def pid_def)
qed

theorem CreateMessageFromPacket_exact_witness:
  "fst (CreateMessageFromPacket list_nb
      ((new_actor 1 0)\<lparr>messageFactories := [(5, (7 :: nat, [Prim U16]))]\<rparr>)
      ([5, 0, 0, 0, 9, 1], 0)) = Value (Bound 7 [VInt 265])"
proof -
  let ?b = "([5, 0, 0, 0, 9, 1], 0) :: u8 list \<times> nat"
  have c: "nb_contract list_nb ?b" by (simp add: nb_contract_def list_nb_def)
  have p: "nb_payload list_nb ?b = [5, 0, 0, 0, 9, 1]" by (simp add: nb_payload_def list_nb_def)
  have "args_ok [Prim U16] [VInt 265] \<and> [9, 1] = args_bytes [Prim U16] [VInt 265] @ []"
    by (simp add: prim_ok_def prim_bytes_def take_bit_eq_mod)
  with CreateMessageFromPacket_exact [OF c, of "(new_actor 1 0)\<lparr>messageFactories := [(5, (7 :: nat, [Prim U16]))]\<rparr>"
      7 "[VInt 265]"]
  show ?thesis unfolding p by (auto simp: umap_find_def Let_def)
qed

text \<open>
  Registering a handler and then receiving its packet: after a successful
  \<open>RegisterPacketHandler\<close> for an id, a buffer holding that id and the encoding of arguments of the
  registered signature becomes the call of that handler with those arguments.
\<close>

theorem RegisterPacketHandler_dispatch:
  assumes "RegisterPacketHandler packetId f ts a = Inr a'" and "args_ok ts vs" and "nb_contract nb b"
    and "nb_payload nb b = prim_bytes U32 (uint packetId) @ args_bytes ts vs @ rest"
  shows "fst (CreateMessageFromPacket nb a' b) = Value (Bound f vs)"
proof -
  have r: "uint packetId < 2 ^ 32" using uint_bounded [of packetId] by simp
  then have "int (le_nat (prim_bytes U32 (uint packetId))) = uint packetId"
    using prim_value_bytes [of U32 "uint packetId"] by (simp add: prim_ok_def prim_value_def)
  moreover have "take 4 (nb_payload nb b) = prim_bytes U32 (uint packetId)"
    using assms(4) by simp
  ultimately have pid: "of_nat (le_nat (take 4 (nb_payload nb b))) = packetId"
    by (metis of_int_of_nat_eq word_of_int_uint)
  have "umap_find (messageFactories a') packetId = Some (f, ts)"
    using assms(1) by (auto simp: RegisterPacketHandler_def store_simps split: if_splits)
  with CreateMessageFromPacket_cases(2) [OF assms(3), of a' f ts vs rest] assms(2,4) pid
  show ?thesis by simp
qed

theorem RegisterPacketHandler_dispatch_witness:
  "fst (CreateMessageFromPacket list_nb
      ((new_actor 1 0)\<lparr>messageFactories := [(1, (7 :: nat, [Str]))]\<rparr>)
      ([1, 0, 0, 0, 1, 0, 65], 0)) = Value (Bound 7 [VStr [65]])"
proof -
  let ?b = "([1, 0, 0, 0, 1, 0, 65], 0) :: u8 list \<times> nat"
  have r: "RegisterPacketHandler 1 (7 :: nat) [Str] (new_actor 1 0) =
      Inr ((new_actor 1 0)\<lparr>messageFactories := [(1, (7 :: nat, [Str]))]\<rparr>)"
    by (simp add: RegisterPacketHandler_def new_actor_def umap_assign_def)
  have c: "nb_contract list_nb ?b" by (simp add: nb_contract_def list_nb_def)
  have ok: "args_ok [Str] [VStr [65]]" by simp
  have p: "nb_payload list_nb ?b = prim_bytes U32 (uint (1 :: u32)) @ args_bytes [Str] [VStr [65]] @ []"
    by (simp add: nb_payload_def list_nb_def prim_bytes_def take_bit_eq_mod)
  show ?thesis by (rule RegisterPacketHandler_dispatch [OF r ok c p])
qed

text \<open>
  C7. One \<open>ProcessMessage\<close> of an actor that is not stopped returns, and does exactly this: it runs the
  messages that were in \<open>storeQueue\<close> at the swap, in the order they were sent and each once, skipping
  null ones, on an actor whose \<open>storeQueue\<close> is empty, so that what the messages send is left for the
  next call; when a message throws, the messages from it on stay in \<open>consumerQueue\<close>. This holds for
  every behaviour of the messages that leaves the protected queue alone.
\<close>

theorem ProcessMessage_batch:
  assumes "consumer_private exec" and "\<not> isStop a" and "consumerQueue a = []"
  shows "\<exists>r rest done. run_batch exec (storeQueue a) (a\<lparr>storeQueue := []\<rparr>, w) = (r, rest) \<and>
     storeQueue a = done @ rest \<and> (is_Done r \<longrightarrow> rest = []) \<and>
     ProcessMessage exec (a, w) = Some (map_outcome (apfst (set_consumer rest)) r)"
proof -
  obtain r rest where r: "run_batch exec (storeQueue a) (a\<lparr>storeQueue := []\<rparr>, w) = (r, rest)"
    by fastforce
  from run_batch_suffix [OF r] run_batch_Done_rest [OF r] ProcessMessage_run_batch [OF assms, of w] r
  show ?thesis by auto
qed

text \<open>An executor for examples: it logs the function, and function 0 sends function 1 to its own actor.\<close>

definition echo_exec :: "(nat, nat list) executor" where
  "echo_exec f args s =
     Done (if f = 0 then snd (SendMessage (Bound 1 args) (fst s)) else fst s, snd s @ [f])"

lemma echo_exec_private: "consumer_private echo_exec"
  by (auto simp: consumer_private_def echo_exec_def set_consumer_def send_defs)

theorem ProcessMessage_batch_witness:
  "ProcessMessage echo_exec
      ((new_actor 1 0)\<lparr>storeQueue := [Bound 0 [], NullMessage, Bound 2 []]\<rparr>, []) =
   Some (Done ((new_actor 1 0)\<lparr>storeQueue := [Bound 1 []]\<rparr>, [0, 2]))"
proof -
  let ?a = "(new_actor 1 0)\<lparr>storeQueue := [Bound 0 [], NullMessage, Bound (2 :: nat) []]\<rparr>"
  have "\<not> isStop ?a" and "consumerQueue ?a = []" by (simp_all add: new_actor_def)
  from ProcessMessage_batch [OF echo_exec_private this, of "[]"] show ?thesis
    by (simp add: echo_exec_def send_defs new_actor_def set_consumer_def Let_def)
qed

text \<open>
  Thread affinity: with at least one logic thread, the constructor gives an actor the next id
  and the thread \<open>GetTargetThreadId\<close> computes from that id alone; it is a valid index of the logic
  threads, and narrowing it to \<open>unsigned char\<close> loses nothing.
\<close>

lemma GetTargetThreadId_unat:
  assumes "n \<noteq> 0"
  shows "\<exists>t. GetTargetThreadId n i = Some t \<and> unat t = unat i mod unat n \<and> unat t < unat n"
proof -
  have n: "0 < unat n" using assms by (simp add: unat_gt_0)
  have n8: "unat n < 256" using unsigned_less [of n] by simp
  have "unat (i mod ucast n) = unat i mod unat n"
  proof -
    have "unat (ucast n :: u64) = unat n" using n8 by (simp add: unsigned_ucast_eq take_bit_eq_mod)
    then show ?thesis by (simp add: unat_mod)
  qed
  moreover have "unat i mod unat n < unat n" using n by simp
  ultimately show ?thesis
    using assms n8 by (simp add: GetTargetThreadId_def unsigned_ucast_eq take_bit_eq_mod)
qed

theorem Actor_ctor_affinity:
  assumes "numOfLogicThread \<noteq> 0"
  shows "\<exists>a. Actor_ctor numOfLogicThread g = Some (a, g + 1) \<and> actorId a = g + 1 \<and>
     GetTargetThreadId numOfLogicThread (actorId a) = Some (threadId a) \<and>
     unat (threadId a) = unat (actorId a) mod unat numOfLogicThread \<and>
     unat (threadId a) < unat numOfLogicThread"
proof -
  obtain t where "GetTargetThreadId numOfLogicThread (g + 1) = Some t"
    "unat t = unat (g + 1) mod unat numOfLogicThread" "unat t < unat numOfLogicThread"
    using GetTargetThreadId_unat [OF assms] by blast
  then show ?thesis
    by (simp add: Actor_ctor_def GenerateActorId_def new_actor_def Let_def)
qed

theorem Actor_ctor_affinity_witness:
  "\<exists>a. Actor_ctor 4 (9 :: u64) = Some (a, 10) \<and> unat (threadId a) = 2"
proof -
  have "(4 :: u8) \<noteq> 0" by simp
  from Actor_ctor_affinity [OF this, of 9] show ?thesis by auto
qed

end
