(* ===== verification/ActorThreads.thy ===== *)
theory ActorThreads
  imports ActorCore
begin

text \<open>
  One actor shared by many threads: any number of senders, a thread that may call \<open>Stop\<close>, and the
  logic thread that runs \<open>ProcessMessage\<close>. The atomic actions are those of the code: the relaxed
  load of \<open>isStop\<close>, the push under \<open>queueMutex\<close>, the swap under \<open>queueMutex\<close>, and the logic thread's
  private work on \<open>consumerQueue\<close>. Loading \<open>isStop\<close> and pushing are two actions in \<open>SendMessage\<close>, and
  loading it and swapping are two in \<open>ProcessMessage\<close>. A running message that sends, to its own actor
  or to another, is one more sender.

  The abstract contract is one FIFO queue: sending enqueues, delivery takes the front.
\<close>

section \<open>The threads and their actions\<close>

text \<open>Where the logic thread is: outside \<open>ProcessMessage\<close>, past its \<open>isStop\<close> check, at the head of the
  loop, or inside the message at the front of \<open>consumerQueue\<close>.\<close>

datatype logic_pc = Outside | Checked | AtLoop | Running

record 'h mailbox_sys =
  obj :: "'h actor"
  sending :: "nat \<Rightarrow> 'h message option"
  logic :: logic_pc
  pushed :: "'h message list"
  popped :: "'h message list"
  started :: "'h message list"

definition mailbox_init :: "'h mailbox_sys \<Rightarrow> bool" where
  "mailbox_init s \<longleftrightarrow> consumerQueue (obj s) = [] \<and> storeQueue (obj s) = [] \<and> \<not> isStop (obj s) \<and>
     sending s = (\<lambda>_. None) \<and> logic s = Outside \<and> pushed s = [] \<and> popped s = [] \<and> started s = []"

inductive mailbox_step :: "'h mailbox_sys \<Rightarrow> 'h mailbox_sys \<Rightarrow> bool" where
  send_check: "\<not> isStop (obj s) \<Longrightarrow> sending s i = None \<Longrightarrow>
     mailbox_step s (s\<lparr>sending := (sending s)(i := Some m)\<rparr>)"
| send_push: "sending s i = Some m \<Longrightarrow>
     mailbox_step s (s\<lparr>obj := push_store m (obj s), sending := (sending s)(i := None),
                       pushed := pushed s @ [m]\<rparr>)"
| stop: "mailbox_step s (s\<lparr>obj := Stop (obj s)\<rparr>)"
| process_check: "logic s = Outside \<Longrightarrow> \<not> isStop (obj s) \<Longrightarrow> mailbox_step s (s\<lparr>logic := Checked\<rparr>)"
| process_swap: "logic s = Checked \<Longrightarrow>
     mailbox_step s (s\<lparr>obj := swap_queues (obj s), logic := AtLoop\<rparr>)"
| loop_null: "logic s = AtLoop \<Longrightarrow> consumerQueue (obj s) = NullMessage # ms \<Longrightarrow>
     mailbox_step s (s\<lparr>obj := pop_consumer (obj s), popped := popped s @ [NullMessage]\<rparr>)"
| loop_run: "logic s = AtLoop \<Longrightarrow> consumerQueue (obj s) = m # ms \<Longrightarrow> m \<noteq> NullMessage \<Longrightarrow>
     mailbox_step s (s\<lparr>logic := Running, started := started s @ [m]\<rparr>)"
| loop_pop: "logic s = Running \<Longrightarrow> consumerQueue (obj s) = m # ms \<Longrightarrow>
     mailbox_step s (s\<lparr>obj := pop_consumer (obj s), popped := popped s @ [m], logic := AtLoop\<rparr>)"
| loop_end: "logic s = AtLoop \<Longrightarrow> consumerQueue (obj s) = [] \<Longrightarrow> mailbox_step s (s\<lparr>logic := Outside\<rparr>)"

inductive_cases mailbox_stepE: "mailbox_step s t"

section \<open>The invariant\<close>

abbreviation real_messages :: "'h message list \<Rightarrow> 'h message list" where
  "real_messages \<equiv> filter (\<lambda>m. m \<noteq> NullMessage)"

definition running_message :: "'h mailbox_sys \<Rightarrow> 'h message list" where
  "running_message s = (if logic s = Running then take 1 (consumerQueue (obj s)) else [])"

definition mailbox_inv :: "'h mailbox_sys \<Rightarrow> bool" where
  "mailbox_inv s \<longleftrightarrow>
     popped s @ consumerQueue (obj s) @ storeQueue (obj s) = pushed s \<and>
     (logic s = Outside \<or> logic s = Checked \<longrightarrow> consumerQueue (obj s) = []) \<and>
     (logic s = Running \<longrightarrow> (\<exists>m ms. consumerQueue (obj s) = m # ms \<and> m \<noteq> NullMessage)) \<and>
     started s = real_messages (popped s) @ running_message s"

lemmas mailbox_op_defs =
  push_store_def queue_push_def swap_queues_def pop_consumer_def Stop_def running_message_def

lemma mailbox_step_inv: "mailbox_step s t \<Longrightarrow> mailbox_inv s \<Longrightarrow> mailbox_inv t"
  by (erule mailbox_stepE) (auto simp: mailbox_inv_def mailbox_op_defs)

interpretation mailbox_threads: inductive_invariant mailbox_init mailbox_step mailbox_inv
  by unfold_locales
     (auto simp: mailbox_init_def mailbox_inv_def running_message_def dest: mailbox_step_inv)

lemmas mailbox_reach_inv = mailbox_threads.reach_inv

section \<open>Refinement of one FIFO queue\<close>

type_synonym 'h fifo_state = "'h message list \<times> 'h message list"

inductive fifo_step :: "'h fifo_state \<Rightarrow> 'h fifo_state \<Rightarrow> bool" where
  enqueue: "fifo_step (q, d) (q @ [m], d)"
| deliver: "fifo_step (m # q, d) (q, d @ [m])"

definition mailbox_abs :: "'h mailbox_sys \<Rightarrow> 'h fifo_state" where
  "mailbox_abs s =
     (real_messages ((if logic s = Running then tl (consumerQueue (obj s)) else consumerQueue (obj s))
        @ storeQueue (obj s)), started s)"

lemma mailbox_step_simulates:
  assumes "mailbox_step s t" and inv: "mailbox_inv s"
  shows "fifo_step (mailbox_abs s) (mailbox_abs t) \<or> mailbox_abs t = mailbox_abs s"
  using assms(1)
proof (cases rule: mailbox_step.cases)
  case (send_push i m)
  then show ?thesis
    by (auto simp: mailbox_abs_def mailbox_op_defs intro: fifo_step.enqueue
        intro: fifo_step.enqueue [of "_ @ _", simplified])
next
  case (loop_run m ms)
  then show ?thesis by (auto simp: mailbox_abs_def intro: fifo_step.deliver)
qed (use inv in \<open>auto simp: mailbox_abs_def mailbox_op_defs mailbox_inv_def\<close>)

lemma mailbox_started_prefix:
  assumes "mailbox_inv s"
  shows "real_messages (pushed s) = started s @ fst (mailbox_abs s)"
proof -
  have p: "pushed s = popped s @ consumerQueue (obj s) @ storeQueue (obj s)"
    and st: "started s = real_messages (popped s) @ running_message s"
    using assms by (simp_all add: mailbox_inv_def)
  show ?thesis
  proof (cases "logic s = Running")
    case True
    with assms obtain m ms where "consumerQueue (obj s) = m # ms" "m \<noteq> NullMessage"
      by (auto simp: mailbox_inv_def)
    with True show ?thesis by (simp add: p st running_message_def mailbox_abs_def)
  next
    case False
    then show ?thesis by (simp add: p st running_message_def mailbox_abs_def)
  qed
qed

section \<open>Stopping\<close>

definition mailbox_closed :: "'h message list \<Rightarrow> 'h mailbox_sys \<Rightarrow> bool" where
  "mailbox_closed d s \<longleftrightarrow> isStop (obj s) \<and> logic s = Outside \<and> started s = d"

lemma mailbox_closed_step: "mailbox_step s t \<Longrightarrow> mailbox_closed d s \<Longrightarrow> mailbox_closed d t"
  by (erule mailbox_stepE) (auto simp: mailbox_closed_def mailbox_op_defs)

interpretation mailbox_stopped:
  inductive_invariant "mailbox_closed d" mailbox_step "mailbox_closed d" for d
  by unfold_locales (auto dest: mailbox_closed_step)

section \<open>Properties\<close>

text \<open>A run for the examples: one message is sent, the logic thread swaps and starts it.\<close>

definition mb0 :: "nat mailbox_sys" where
  "mb0 = \<lparr>obj = new_actor 1 0, sending = (\<lambda>_. None), logic = Outside, pushed = [], popped = [],
          started = []\<rparr>"

definition mb_sent :: "nat message \<Rightarrow> nat mailbox_sys" where
  "mb_sent m = mb0\<lparr>obj := (new_actor 1 0)\<lparr>storeQueue := [m]\<rparr>, pushed := [m]\<rparr>"

definition mb_at_loop :: "nat message \<Rightarrow> nat mailbox_sys" where
  "mb_at_loop m = mb0\<lparr>obj := (new_actor 1 0)\<lparr>consumerQueue := [m]\<rparr>, pushed := [m], logic := AtLoop\<rparr>"

lemma reach_mb0: "reach mailbox_init mailbox_step mb0"
  by (rule reach_init) (simp add: mailbox_init_def mb0_def new_actor_def)

lemma reach_mb_sent: "reach mailbox_init mailbox_step (mb_sent m)"
proof -
  have "mailbox_step mb0 (mb0\<lparr>sending := (sending mb0)(0 := Some m)\<rparr>)" (is "mailbox_step _ ?s1")
    by (rule mailbox_step.send_check) (simp_all add: mb0_def new_actor_def)
  with reach_mb0 have "reach mailbox_init mailbox_step ?s1" by (rule reach_step)
  moreover have "mailbox_step ?s1 (mb_sent m)"
    using mailbox_step.send_push [of ?s1 0 m]
    by (simp add: mb0_def mb_sent_def push_store_def queue_push_def new_actor_def)
  ultimately show ?thesis by (rule reach_step)
qed

lemma reach_mb_at_loop: "reach mailbox_init mailbox_step (mb_at_loop m)"
proof -
  let ?s1 = "(mb_sent m)\<lparr>logic := Checked\<rparr>"
  have "mailbox_step (mb_sent m) ?s1"
    by (rule mailbox_step.process_check) (simp_all add: mb_sent_def mb0_def new_actor_def)
  with reach_mb_sent have "reach mailbox_init mailbox_step ?s1" by (rule reach_step)
  moreover have "mailbox_step ?s1 (mb_at_loop m)"
    using mailbox_step.process_swap [of ?s1]
    by (simp add: mb_sent_def mb_at_loop_def mb0_def swap_queues_def new_actor_def)
  ultimately show ?thesis by (rule reach_step)
qed

text \<open>
  C5. Exactly once, in order, under every interleaving of any number of sending threads with the
  logic thread: the messages whose execution has started are, in order and without repetition or
  loss, a prefix of the (non-null) messages that were pushed, and the rest are still queued; outside
  \<open>ProcessMessage\<close> the rest is exactly \<open>storeQueue\<close>.
\<close>

theorem mailbox_exactly_once:
  assumes "reach mailbox_init mailbox_step s"
  shows "\<exists>pending. real_messages (pushed s) = started s @ pending \<and>
     (logic s = Outside \<longrightarrow> pending = real_messages (storeQueue (obj s)))"
  using mailbox_started_prefix [OF mailbox_reach_inv [OF assms]] mailbox_reach_inv [OF assms]
  by (auto simp: mailbox_abs_def mailbox_inv_def)

theorem mailbox_exactly_once_witness:
  "\<exists>pending. real_messages (pushed (mb_sent (Bound 3 []))) = started (mb_sent (Bound 3 [])) @ pending \<and>
     pending = [Bound 3 []]"
proof -
  have "logic (mb_sent (Bound 3 [])) = Outside" and "storeQueue (obj (mb_sent (Bound 3 []))) = [Bound 3 []]"
    by (simp_all add: mb_sent_def mb0_def)
  with mailbox_exactly_once [OF reach_mb_sent [of "Bound 3 []"]] show ?thesis by simp
qed

text \<open>
  C6. Refinement: seen from outside, the double queue with its two locked sections is one FIFO
  queue. Every action of every thread in a reachable state is an enqueue at the back, a delivery
  from the front, or invisible.
\<close>

theorem mailbox_refines_fifo:
  assumes "reach mailbox_init mailbox_step s" and "mailbox_step s t"
  shows "fifo_step (mailbox_abs s) (mailbox_abs t) \<or> mailbox_abs t = mailbox_abs s"
  using mailbox_step_simulates [OF assms(2) mailbox_reach_inv [OF assms(1)]] .

theorem mailbox_refines_fifo_witness:
  "fifo_step ([Bound 3 []], []) ([], [Bound (3 :: nat) []])"
proof -
  let ?s = "mb_at_loop (Bound 3 [])"
  have "mailbox_step ?s (?s\<lparr>logic := Running, started := started ?s @ [Bound 3 []]\<rparr>)"
    by (rule mailbox_step.loop_run) (simp_all add: mb_at_loop_def mb0_def)
  from mailbox_refines_fifo [OF reach_mb_at_loop this] show ?thesis
    by (simp add: mailbox_abs_def mb_at_loop_def mb0_def new_actor_def)
qed

text \<open>
  A stopped actor stays silent: once \<open>isStop\<close> is set while the logic thread is outside
  \<open>ProcessMessage\<close>, no message ever starts again, whatever the threads do, including senders that had
  passed their check before the stop and push afterwards.
\<close>

theorem mailbox_stopped_silent:
  assumes "isStop (obj s)" and "logic s = Outside" and "mailbox_step\<^sup>*\<^sup>* s t"
  shows "started t = started s \<and> isStop (obj t)"
proof -
  have "mailbox_closed (started s) s" using assms(1,2) by (simp add: mailbox_closed_def)
  from mailbox_stopped.steps_inv [OF assms(3) this] show ?thesis by (simp add: mailbox_closed_def)
qed

theorem mailbox_stopped_silent_witness:
  "started ((mb_sent (Bound 3 []))\<lparr>obj := Stop (Stop (obj (mb_sent (Bound 3 []))))\<rparr>) = []"
proof -
  let ?s = "(mb_sent (Bound 3 []))\<lparr>obj := Stop (obj (mb_sent (Bound 3 [])))\<rparr>"
  have st: "isStop (obj ?s)" and out: "logic ?s = Outside" and none: "started ?s = []"
    by (simp_all add: Stop_def mb_sent_def mb0_def)
  have "mailbox_step ?s (?s\<lparr>obj := Stop (obj ?s)\<rparr>)" by (rule mailbox_step.stop)
  then have "mailbox_step\<^sup>*\<^sup>* ?s (?s\<lparr>obj := Stop (obj ?s)\<rparr>)" by (rule r_into_rtranclp)
  from mailbox_stopped_silent [OF st out this] none show ?thesis by simp
qed

text \<open>
  Stopping does not interrupt a batch: there is a reachable state in which \<open>isStop\<close> is already
  set and the next action starts another queued message. (The README says that after \<open>Stop\<close> the
  consumption of queued messages ends; the loop of \<open>ProcessMessage\<close> does not look at \<open>isStop\<close>.)
\<close>

theorem Stop_does_not_interrupt_batch:
  "\<exists>s t :: nat mailbox_sys. reach mailbox_init mailbox_step s \<and> isStop (obj s) \<and>
     mailbox_step s t \<and> started t = started s @ [Bound 3 []]"
proof -
  let ?a = "mb_at_loop (Bound 3 [])"
  let ?s = "?a\<lparr>obj := Stop (obj ?a)\<rparr>"
  let ?t = "?s\<lparr>logic := Running, started := started ?s @ [Bound 3 []]\<rparr>"
  have "reach mailbox_init mailbox_step ?s"
    by (rule reach_step [OF reach_mb_at_loop mailbox_step.stop])
  moreover have "mailbox_step ?s ?t"
    by (rule mailbox_step.loop_run) (simp_all add: mb_at_loop_def mb0_def Stop_def)
  moreover have "isStop (obj ?s)" by (simp add: Stop_def)
  ultimately show ?thesis by (intro exI [of _ ?s] exI [of _ ?t]) simp
qed

end
