(* ===== verification/Mediator.thy ===== *)
theory Mediator
  imports Prelude
begin

text \<open>
  The two-phase commit coordinator \<open>MediatorBase\<close> (\<open>ActorModelServer/MediatorBase.h\<close>, \<open>.cpp\<close>).

  The virtual functions a derived class implements are recorded as events of a log, in the order
  they are called; the \<open>TradeMediator\<close> of the repository implements all of them as empty functions.
  \<open>steady_clock::now()\<close> is an argument, in nanoseconds since the clock's epoch, a timeout is a number
  of microseconds, and their comparison is made in nanoseconds as \<open>std::chrono\<close> makes it (the model's
  integers do not overflow; the code's would beyond 292 years). The three \<open>std::function\<close> members of
  \<open>Participant\<close> are never assigned nor called and are left out.
\<close>

section \<open>State\<close>

datatype transaction_state = PENDING | PREPARING | COMMITTING | COMPLETED | FAILED | ROLLING_BACK

datatype participant_state = P_WAITING | P_PREPARED | P_COMMITTED | P_FAILED

record participant =
  p_id :: u64
  p_state :: participant_state
  lastUpdate :: int

record transaction =
  t_id :: u64
  t_state :: transaction_state
  participants :: "(u64, participant) umap"
  startTime :: int
  timeout :: int

datatype mediator_event =
    TransactionStarted u64
  | PrepareRequest u64 u64
  | CommitRequest u64 u64
  | RollbackRequest u64 u64
  | TransactionCompleted u64
  | TransactionFailed u64

record mediator =
  activeTransactions :: "(u64, transaction) umap"
  transactionIdGenerator :: u64
  calls :: "mediator_event list"

definition Participant_ctor :: "u64 \<Rightarrow> participant" where
  "Participant_ctor i = \<lparr>p_id = i, p_state = P_WAITING, lastUpdate = 0\<rparr>"

definition default_Transaction :: transaction where
  "default_Transaction =
     \<lparr>t_id = 0, t_state = PENDING, participants = [], startTime = 0, timeout = 5000\<rparr>"

section \<open>Operations\<close>

definition GenerateTransactionId :: "mediator \<Rightarrow> u64 \<times> mediator" where
  "GenerateTransactionId m =
     (let i = transactionIdGenerator m + 1 in (i, m\<lparr>transactionIdGenerator := i\<rparr>))"

text \<open>\<open>activeTransactions[transactionId]\<close> value-initialises an absent entry.\<close>

definition tx_at :: "mediator \<Rightarrow> u64 \<Rightarrow> transaction" where
  "tx_at m i = (case umap_find (activeTransactions m) i of
                  None \<Rightarrow> default_Transaction | Some t \<Rightarrow> t)"

definition store_tx :: "u64 \<Rightarrow> transaction \<Rightarrow> mediator \<Rightarrow> mediator" where
  "store_tx i t m = m\<lparr>activeTransactions := umap_assign i t (activeTransactions m)\<rparr>"

definition erase_tx :: "u64 \<Rightarrow> mediator \<Rightarrow> mediator" where
  "erase_tx i m = m\<lparr>activeTransactions := umap_erase i (activeTransactions m)\<rparr>"

definition call :: "mediator_event \<Rightarrow> mediator \<Rightarrow> mediator" where
  "call e m = m\<lparr>calls := calls m @ [e]\<rparr>"

definition StartTransaction :: "u64 list \<Rightarrow> int \<Rightarrow> int \<Rightarrow> mediator \<Rightarrow> u64 \<times> mediator" where
  "StartTransaction participantIds tmo now m =
     (let (i, m1) = GenerateTransactionId m;
          t = (tx_at m1 i)\<lparr>t_id := i, startTime := now, timeout := tmo\<rparr>;
          ps = fold (\<lambda>p. umap_assign p (Participant_ctor p)) participantIds (participants t);
          m2 = store_tx i (t\<lparr>participants := ps\<rparr>) m1
      in (i, call (TransactionStarted i) m2))"

definition AllParticipantsPrepared :: "transaction \<Rightarrow> bool" where
  "AllParticipantsPrepared t \<longleftrightarrow> list_all (\<lambda>(_, p). p_state p = P_PREPARED) (participants t)"

text \<open>The loop of \<open>CommitTransaction\<close>: notify a participant, then mark it committed.\<close>

fun commit_loop :: "u64 \<Rightarrow> (u64, participant) umap \<Rightarrow> mediator \<Rightarrow> (u64, participant) umap \<times> mediator" where
  "commit_loop i [] m = ([], m)"
| "commit_loop i ((k, p) # ps) m =
     (let m1 = call (CommitRequest i (p_id p)) m;
          (ps', m2) = commit_loop i ps m1
      in ((k, p\<lparr>p_state := P_COMMITTED\<rparr>) # ps', m2))"

definition CommitTransaction :: "u64 \<Rightarrow> mediator \<Rightarrow> mediator" where
  "CommitTransaction i m =
     (let t = (tx_at m i)\<lparr>t_state := COMMITTING\<rparr>;
          (ps, m1) = commit_loop i (participants t) (store_tx i t m);
          m2 = store_tx i (t\<lparr>participants := ps, t_state := COMPLETED\<rparr>) m1
      in erase_tx i (call (TransactionCompleted i) m2))"

fun rollback_loop :: "u64 \<Rightarrow> (u64, participant) umap \<Rightarrow> mediator \<Rightarrow> mediator" where
  "rollback_loop i [] m = m"
| "rollback_loop i ((k, p) # ps) m =
     rollback_loop i ps (if p_state p = P_PREPARED then call (RollbackRequest i (p_id p)) m else m)"

definition RollbackTransaction :: "u64 \<Rightarrow> mediator \<Rightarrow> mediator" where
  "RollbackTransaction i m =
     (let t = (tx_at m i)\<lparr>t_state := ROLLING_BACK\<rparr>;
          m1 = rollback_loop i (participants t) (store_tx i t m);
          m2 = store_tx i (t\<lparr>t_state := FAILED\<rparr>) m1
      in erase_tx i (call (TransactionFailed i) m2))"

definition OnParticipantReady :: "u64 \<Rightarrow> u64 \<Rightarrow> bool \<Rightarrow> int \<Rightarrow> mediator \<Rightarrow> mediator" where
  "OnParticipantReady i pid success now m =
     (case umap_find (activeTransactions m) i of
        None \<Rightarrow> m
      | Some t \<Rightarrow>
          (case umap_find (participants t) pid of
             None \<Rightarrow> m
           | Some p \<Rightarrow>
               (if success then
                  (let t' = t\<lparr>participants := umap_assign pid
                               (p\<lparr>lastUpdate := now, p_state := P_PREPARED\<rparr>) (participants t)\<rparr>;
                       m' = store_tx i t' m
                   in if AllParticipantsPrepared t' then CommitTransaction i m' else m')
                else
                  (let t' = t\<lparr>participants := umap_assign pid
                               (p\<lparr>lastUpdate := now, p_state := P_FAILED\<rparr>) (participants t)\<rparr>
                   in RollbackTransaction i (store_tx i t' m)))))"

definition timed_out :: "int \<Rightarrow> transaction \<Rightarrow> bool" where
  "timed_out now t \<longleftrightarrow> now - startTime t > timeout t * 1000"

definition OnTimer :: "int \<Rightarrow> mediator \<Rightarrow> mediator" where
  "OnTimer now m =
     fold RollbackTransaction (map fst (filter (\<lambda>(_, t). timed_out now t) (activeTransactions m))) m"

section \<open>What each operation does\<close>

lemmas mediator_op_defs = store_tx_def erase_tx_def call_def

definition commit_calls :: "u64 \<Rightarrow> transaction \<Rightarrow> mediator_event list" where
  "commit_calls i t = map (\<lambda>(_, p). CommitRequest i (p_id p)) (participants t) @ [TransactionCompleted i]"

definition rollback_calls :: "u64 \<Rightarrow> transaction \<Rightarrow> mediator_event list" where
  "rollback_calls i t =
     map (\<lambda>(_, p). RollbackRequest i (p_id p)) (filter (\<lambda>(_, p). p_state p = P_PREPARED) (participants t))
       @ [TransactionFailed i]"

lemma commit_loop_eq:
  "commit_loop i ps m =
     (map (apsnd (\<lambda>p. p\<lparr>p_state := P_COMMITTED\<rparr>)) ps,
      m\<lparr>calls := calls m @ map (\<lambda>(_, p). CommitRequest i (p_id p)) ps\<rparr>)"
  by (induction i ps m rule: commit_loop.induct) (auto simp: call_def)

lemma rollback_loop_eq:
  "rollback_loop i ps m =
     m\<lparr>calls := calls m @
         map (\<lambda>(_, p). RollbackRequest i (p_id p)) (filter (\<lambda>(_, p). p_state p = P_PREPARED) ps)\<rparr>"
  by (induction i ps m rule: rollback_loop.induct) (auto simp: call_def)

lemma umap_erase_assign: "umap_erase i (umap_assign i t m) = umap_erase i m"
  by (simp add: umap_erase_def umap_assign_def AList.delete_update_same)

lemma CommitTransaction_eq:
  "CommitTransaction i m =
     m\<lparr>activeTransactions := umap_erase i (activeTransactions m),
       calls := calls m @ commit_calls i (tx_at m i)\<rparr>"
  by (simp add: CommitTransaction_def commit_loop_eq mediator_op_defs umap_erase_assign
      commit_calls_def Let_def)

lemma RollbackTransaction_eq:
  "RollbackTransaction i m =
     m\<lparr>activeTransactions := umap_erase i (activeTransactions m),
       calls := calls m @ rollback_calls i (tx_at m i)\<rparr>"
  by (simp add: RollbackTransaction_def rollback_loop_eq mediator_op_defs umap_erase_assign
      rollback_calls_def Let_def)

lemma fold_assign_participants:
  "umap_find (fold (\<lambda>p. umap_assign p (Participant_ctor p)) ids ps) k =
     (if k \<in> set ids then Some (Participant_ctor k) else umap_find ps k)"
  by (induction ids arbitrary: ps) (auto simp: store_simps)

lemma fold_assign_ok:
  "umap_ok ps \<Longrightarrow> umap_ok (fold (\<lambda>p. umap_assign p (Participant_ctor p)) ids ps)"
  by (induction ids arbitrary: ps) auto

text \<open>A new transaction, when its id is not in use: all its participants wait.\<close>

definition new_Transaction :: "u64 \<Rightarrow> u64 list \<Rightarrow> int \<Rightarrow> int \<Rightarrow> transaction" where
  "new_Transaction i ids tmo now =
     \<lparr>t_id = i, t_state = PENDING,
      participants = fold (\<lambda>p. umap_assign p (Participant_ctor p)) ids [],
      startTime = now, timeout = tmo\<rparr>"

lemma StartTransaction_eq:
  assumes "umap_find (activeTransactions m) (transactionIdGenerator m + 1) = None"
  shows "StartTransaction ids tmo now m =
     (let i = transactionIdGenerator m + 1 in
      (i, m\<lparr>activeTransactions := umap_assign i (new_Transaction i ids tmo now) (activeTransactions m),
            transactionIdGenerator := i, calls := calls m @ [TransactionStarted i]\<rparr>))"
  using assms by (simp add: StartTransaction_def GenerateTransactionId_def tx_at_def
      default_Transaction_def mediator_op_defs new_Transaction_def Let_def)

text \<open>The timer rolls back exactly the transactions that are overdue, in iteration order.\<close>

lemma fold_RollbackTransaction:
  "distinct (map fst xs) \<Longrightarrow> \<forall>(k, t) \<in> set xs. umap_find (activeTransactions m) k = Some t \<Longrightarrow>
   fold RollbackTransaction (map fst xs) m =
     m\<lparr>activeTransactions := filter (\<lambda>e. fst e \<notin> fst ` set xs) (activeTransactions m),
       calls := calls m @ concat (map (\<lambda>(k, t). rollback_calls k t) xs)\<rparr>"
proof (induction xs arbitrary: m)
  case Nil
  then show ?case by simp
next
  case (Cons e xs)
  obtain k t where e: "e = (k, t)" by (cases e)
  let ?m = "RollbackTransaction k m"
  have k: "tx_at m k = t" using Cons.prems(2) e by (simp add: tx_at_def)
  have m: "?m = m\<lparr>activeTransactions := filter (\<lambda>e. fst e \<noteq> k) (activeTransactions m),
                  calls := calls m @ rollback_calls k t\<rparr>"
    by (simp add: RollbackTransaction_eq k umap_erase_filter)
  have "umap_find (activeTransactions ?m) k' = Some t'" if "(k', t') \<in> set xs" for k' t'
    using that Cons.prems e by (force simp: RollbackTransaction_eq store_simps)
  then have "\<forall>(k', t') \<in> set xs. umap_find (activeTransactions ?m) k' = Some t'" by blast
  from Cons.IH [OF _ this] Cons.prems(1)
  have "fold RollbackTransaction (map fst xs) ?m =
     ?m\<lparr>activeTransactions := filter (\<lambda>e. fst e \<notin> fst ` set xs) (activeTransactions ?m),
        calls := calls ?m @ concat (map (\<lambda>(k, t). rollback_calls k t) xs)\<rparr>"
    by simp
  then show ?case using e by (simp add: m)
qed

lemma OnTimer_eq:
  assumes ok: "umap_ok (activeTransactions m)"
  shows "OnTimer now m =
     m\<lparr>activeTransactions := filter (\<lambda>(_, t). \<not> timed_out now t) (activeTransactions m),
       calls := calls m @ concat (map (\<lambda>(k, t). rollback_calls k t)
                  (filter (\<lambda>(_, t). timed_out now t) (activeTransactions m)))\<rparr>"
proof -
  let ?A = "activeTransactions m"
  let ?xs = "filter (\<lambda>(_, t). timed_out now t) ?A"
  have d: "distinct (map fst ?xs)"
    using ok by (simp add: umap_ok_def distinct_map_filter)
  have f: "\<forall>(k, t) \<in> set ?xs. umap_find ?A k = Some t"
    using ok by (auto simp: umap_find_Some_iff)
  have "filter (\<lambda>e. fst e \<notin> fst ` set ?xs) ?A = filter (\<lambda>(_, t). \<not> timed_out now t) ?A"
  proof (rule filter_cong [OF refl])
    fix e assume e: "e \<in> set ?A"
    obtain k t where kt: "e = (k, t)" by (cases e)
    have u: "t' = t" if "(k, t') \<in> set ?A" for t'
    proof -
      have "umap_find ?A k = Some t'" using ok that by (simp add: umap_find_Some_iff)
      moreover have "umap_find ?A k = Some t" using ok e kt by (simp add: umap_find_Some_iff)
      ultimately show ?thesis by simp
    qed
    have "k \<in> fst ` set ?xs \<longleftrightarrow> timed_out now t"
    proof
      assume "k \<in> fst ` set ?xs"
      then obtain t' where "(k, t') \<in> set ?A" "timed_out now t'" by auto
      with u show "timed_out now t" by metis
    next
      assume "timed_out now t"
      with e kt have "(k, t) \<in> set ?xs" by simp
      then show "k \<in> fst ` set ?xs" by (rule image_eqI [rotated]) simp
    qed
    then show "(fst e \<notin> fst ` set ?xs) = (case e of (_, t) \<Rightarrow> \<not> timed_out now t)"
      using kt by simp
  qed
  with fold_RollbackTransaction [OF d f] show ?thesis by (simp add: OnTimer_def)
qed

lemma set_rollback_calls:
  "e \<in> set (rollback_calls i t) \<longleftrightarrow>
     e = TransactionFailed i \<or>
     (\<exists>k p. (k, p) \<in> set (participants t) \<and> p_state p = P_PREPARED \<and> e = RollbackRequest i (p_id p))"
  by (auto simp: rollback_calls_def)

lemma set_commit_calls:
  "e \<in> set (commit_calls i t) \<longleftrightarrow>
     e = TransactionCompleted i \<or> (\<exists>k p. (k, p) \<in> set (participants t) \<and> e = CommitRequest i (p_id p))"
  by (auto simp: commit_calls_def)

end
