(* ===== verification/MediatorRuns.thy ===== *)
theory MediatorRuns
  imports Mediator
begin

text \<open>
  Runs of one \<open>MediatorBase\<close> object: its public operations in any order and with any arguments, a
  derived class rolling back one of its own transactions, other mediators drawing ids from the
  shared static generator, and the containers changing their iteration order. Ghost fields record
  which participants a transaction was started with and which votes were accepted.

  The invariant gives, for every transaction id, the exact list of calls made for it so far. The
  abstract contract of two-phase commit is a status per transaction, and the mediator refines it.
  Runs are bounded by the 64-bit id generator: a start requires that it has not reached its maximum.
\<close>

record tpc_sys =
  med :: mediator
  began :: "u64 \<Rightarrow> u64 set option"
  yes_votes :: "u64 \<Rightarrow> u64 set"
  no_votes :: "u64 \<Rightarrow> u64 set"

definition tpc_init :: "tpc_sys \<Rightarrow> bool" where
  "tpc_init s \<longleftrightarrow>
     med s = \<lparr>activeTransactions = [], transactionIdGenerator = 1, calls = []\<rparr> \<and>
     began s = (\<lambda>_. None) \<and> yes_votes s = (\<lambda>_. {}) \<and> no_votes s = (\<lambda>_. {})"

definition accepts_vote :: "mediator \<Rightarrow> u64 \<Rightarrow> u64 \<Rightarrow> bool" where
  "accepts_vote m i pid \<longleftrightarrow>
     (case umap_find (activeTransactions m) i of
        None \<Rightarrow> False | Some t \<Rightarrow> umap_find (participants t) pid \<noteq> None)"

definition add_vote :: "bool \<Rightarrow> u64 \<Rightarrow> u64 \<Rightarrow> (u64 \<Rightarrow> u64 set) \<Rightarrow> u64 \<Rightarrow> u64 set" where
  "add_vote b i pid v = (if b then v(i := insert pid (v i)) else v)"

inductive tpc_step :: "tpc_sys \<Rightarrow> tpc_sys \<Rightarrow> bool" where
  start: "unat (transactionIdGenerator (med s)) < 2 ^ 64 - 1 \<Longrightarrow>
     StartTransaction ids tmo now (med s) = (i, m') \<Longrightarrow>
     tpc_step s (s\<lparr>med := m', began := (began s)(i := Some (set ids))\<rparr>)"
| ready: "a = accepts_vote (med s) i pid \<Longrightarrow>
     tpc_step s (s\<lparr>med := OnParticipantReady i pid success now (med s),
                   yes_votes := add_vote (a \<and> success) i pid (yes_votes s),
                   no_votes := add_vote (a \<and> \<not> success) i pid (no_votes s)\<rparr>)"
| timer: "tpc_step s (s\<lparr>med := OnTimer now (med s)\<rparr>)"
| rollback: "umap_find (activeTransactions (med s)) i \<noteq> None \<Longrightarrow>
     tpc_step s (s\<lparr>med := RollbackTransaction i (med s)\<rparr>)"
| other_mediator: "unat (transactionIdGenerator (med s)) < 2 ^ 64 - 1 \<Longrightarrow>
     tpc_step s (s\<lparr>med := snd (GenerateTransactionId (med s))\<rparr>)"
| reorder_transactions: "mset ts = mset (activeTransactions (med s)) \<Longrightarrow>
     tpc_step s (s\<lparr>med := (med s)\<lparr>activeTransactions := ts\<rparr>\<rparr>)"
| reorder_participants: "umap_find (activeTransactions (med s)) i = Some t \<Longrightarrow>
     mset ps = mset (participants t) \<Longrightarrow>
     tpc_step s (s\<lparr>med := store_tx i (t\<lparr>participants := ps\<rparr>) (med s)\<rparr>)"

section \<open>The calls made for one transaction\<close>

fun event_tx :: "mediator_event \<Rightarrow> u64" where
  "event_tx (TransactionStarted i) = i"
| "event_tx (PrepareRequest i p) = i"
| "event_tx (CommitRequest i p) = i"
| "event_tx (RollbackRequest i p) = i"
| "event_tx (TransactionCompleted i) = i"
| "event_tx (TransactionFailed i) = i"

definition outcome_calls :: "u64 \<Rightarrow> mediator_event list \<Rightarrow> mediator_event list" where
  "outcome_calls i = filter (\<lambda>e. event_tx e = i \<and> e \<noteq> TransactionStarted i)"

definition tx_ok :: "u64 \<Rightarrow> transaction \<Rightarrow> u64 set \<Rightarrow> u64 set \<Rightarrow> u64 set \<Rightarrow> bool" where
  "tx_ok i t P Y N \<longleftrightarrow>
     t_id t = i \<and> t_state t = PENDING \<and> umap_ok (participants t) \<and> fst ` set (participants t) = P \<and>
     N = {} \<and> Y \<subseteq> P \<and>
     (\<forall>(k, p) \<in> set (participants t). p_id p = k \<and>
        p_state p = (if k \<in> Y then P_PREPARED else P_WAITING))"

definition committed :: "u64 \<Rightarrow> mediator_event list \<Rightarrow> u64 set \<Rightarrow> u64 set \<Rightarrow> u64 set \<Rightarrow> bool" where
  "committed i es P Y N \<longleftrightarrow> P \<noteq> {} \<and> Y = P \<and> N = {} \<and>
     (\<exists>ps. distinct ps \<and> set ps = P \<and> es = map (CommitRequest i) ps @ [TransactionCompleted i])"

definition aborted :: "u64 \<Rightarrow> mediator_event list \<Rightarrow> u64 set \<Rightarrow> u64 set \<Rightarrow> bool" where
  "aborted i es Y N \<longleftrightarrow>
     (\<exists>ps. distinct ps \<and> set ps = Y - N \<and> es = map (RollbackRequest i) ps @ [TransactionFailed i])"

definition id_ok :: "u64 \<Rightarrow> transaction option \<Rightarrow> mediator_event list \<Rightarrow> u64 set option
    \<Rightarrow> u64 set \<Rightarrow> u64 set \<Rightarrow> bool" where
  "id_ok i tx es B Y N \<longleftrightarrow>
     (case tx of
        Some t \<Rightarrow> es = [] \<and> (\<exists>P. B = Some P \<and> tx_ok i t P Y N \<and> (Y = P \<longrightarrow> P = {}))
      | None \<Rightarrow> (case B of
                   None \<Rightarrow> es = [] \<and> Y = {} \<and> N = {}
                 | Some P \<Rightarrow> Y \<subseteq> P \<and>
                     (committed i es P Y N \<or> (Y = P \<longrightarrow> P = {}) \<and> aborted i es Y N)))"

definition tpc_inv :: "tpc_sys \<Rightarrow> bool" where
  "tpc_inv s \<longleftrightarrow>
     umap_ok (activeTransactions (med s)) \<and>
     (\<forall>i. began s i \<noteq> None \<longrightarrow> unat i \<le> unat (transactionIdGenerator (med s))) \<and>
     (\<forall>i. id_ok i (umap_find (activeTransactions (med s)) i) (outcome_calls i (calls (med s)))
            (began s i) (yes_votes s i) (no_votes s i))"

lemma outcome_calls_simps [simp]:
  "outcome_calls i [] = []"
  "outcome_calls i (xs @ ys) = outcome_calls i xs @ outcome_calls i ys"
  "outcome_calls i [TransactionStarted j] = []"
  by (auto simp: outcome_calls_def)

lemma outcome_commit_calls: "outcome_calls j (commit_calls i t) = (if j = i then commit_calls i t else [])"
  by (auto simp: outcome_calls_def commit_calls_def case_prod_beta filter_id_conv filter_empty_conv)

lemma outcome_rollback_calls:
  "outcome_calls j (rollback_calls i t) = (if j = i then rollback_calls i t else [])"
  by (auto simp: outcome_calls_def rollback_calls_def case_prod_beta filter_id_conv filter_empty_conv)

lemma map_p_id:
  assumes "\<forall>(k, p) \<in> set ps. p_id p = k"
  shows "map (\<lambda>(_, p). f (p_id p)) ps = map f (map fst ps)"
  using assms by (induction ps) auto

lemma commit_calls_committed:
  assumes "tx_ok i t P Y N" and "AllParticipantsPrepared t" and "P \<noteq> {}"
  shows "committed i (commit_calls i t) P Y N"
proof -
  have ids: "\<forall>(k, p) \<in> set (participants t). p_id p = k" and d: "distinct (map fst (participants t))"
    and P: "set (map fst (participants t)) = P" and Y: "Y \<subseteq> P" and N: "N = {}"
    using assms(1) by (auto simp: tx_ok_def umap_ok_def)
  have "k \<in> Y" if "k \<in> P" for k
  proof -
    from that P obtain p where e: "(k, p) \<in> set (participants t)" by auto
    then have "p_state p = P_PREPARED"
      using assms(2) by (auto simp: AllParticipantsPrepared_def list_all_iff)
    moreover have "p_state p = (if k \<in> Y then P_PREPARED else P_WAITING)"
      using assms(1) e by (auto simp: tx_ok_def)
    ultimately show ?thesis by (auto split: if_splits)
  qed
  with Y have YP: "Y = P" by blast
  have c: "commit_calls i t =
      map (CommitRequest i) (map fst (participants t)) @ [TransactionCompleted i]"
    by (simp only: commit_calls_def map_p_id [OF ids])
  have "\<exists>ps. distinct ps \<and> set ps = P \<and>
      commit_calls i t = map (CommitRequest i) ps @ [TransactionCompleted i]"
    by (rule exI [of _ "map fst (participants t)"]) (intro conjI d P c)
  with YP N assms(3) show ?thesis unfolding committed_def by (intro conjI)
qed

lemma tx_ok_not_unanimous:
  assumes "tx_ok i t P Y N" and "\<not> AllParticipantsPrepared t"
  shows "Y \<noteq> P"
proof -
  from assms(2) obtain k p where e: "(k, p) \<in> set (participants t)" and "p_state p \<noteq> P_PREPARED"
    by (auto simp: AllParticipantsPrepared_def list_all_iff)
  moreover have "p_state p = (if k \<in> Y then P_PREPARED else P_WAITING)"
    using assms(1) e by (auto simp: tx_ok_def)
  ultimately have "k \<notin> Y" by auto
  moreover have "fst (k, p) \<in> fst ` set (participants t)" using e by (rule imageI)
  then have "k \<in> P" using assms(1) by (simp add: tx_ok_def)
  ultimately show ?thesis by blast
qed

lemma rollback_calls_aborted:
  assumes ids: "\<forall>(k, p) \<in> set (participants t). p_id p = k" and "umap_ok (participants t)"
    and "{k. \<exists>p. (k, p) \<in> set (participants t) \<and> p_state p = P_PREPARED} = Y - N"
  shows "aborted i (rollback_calls i t) Y N"
proof -
  let ?ps = "filter (\<lambda>(_, p). p_state p = P_PREPARED) (participants t)"
  have "\<forall>(k, p) \<in> set ?ps. p_id p = k" using ids by auto
  then have "rollback_calls i t = map (RollbackRequest i) (map fst ?ps) @ [TransactionFailed i]"
    by (simp only: rollback_calls_def map_p_id)
  moreover have "distinct (map fst ?ps)"
    using assms(2) by (simp add: umap_ok_def distinct_map_filter)
  moreover have "set (map fst ?ps) = Y - N" using assms(3) by force
  ultimately show ?thesis unfolding aborted_def by blast
qed

lemma tx_ok_prepared:
  assumes "tx_ok i t P Y N"
  shows "{k. \<exists>p. (k, p) \<in> set (participants t) \<and> p_state p = P_PREPARED} = Y - N"
proof -
  have st: "p_state p = (if k \<in> Y then P_PREPARED else P_WAITING)"
    if "(k, p) \<in> set (participants t)" for k p
    using assms that by (auto simp: tx_ok_def)
  have "k \<in> Y" if "(k, p) \<in> set (participants t)" "p_state p = P_PREPARED" for k p
    using st [OF that(1)] that(2) by (simp split: if_splits)
  moreover have "\<exists>p. (k, p) \<in> set (participants t) \<and> p_state p = P_PREPARED" if "k \<in> Y" for k
  proof -
    have "k \<in> fst ` set (participants t)" using assms that unfolding tx_ok_def by blast
    then obtain p where "(k, p) \<in> set (participants t)" by auto
    with st [OF this] that show ?thesis by auto
  qed
  moreover have "N = {}" using assms by (simp add: tx_ok_def)
  ultimately show ?thesis by blast
qed

section \<open>The invariant is kept\<close>

text \<open>A step about one transaction leaves the others alone.\<close>

lemma tpc_inv_updI:
  assumes "tpc_inv s" and "umap_ok (activeTransactions (med t))"
    and "transactionIdGenerator (med t) = transactionIdGenerator (med s)" and "began t = began s"
    and "\<And>j. j \<noteq> i \<Longrightarrow>
      umap_find (activeTransactions (med t)) j = umap_find (activeTransactions (med s)) j \<and>
      outcome_calls j (calls (med t)) = outcome_calls j (calls (med s)) \<and>
      yes_votes t j = yes_votes s j \<and> no_votes t j = no_votes s j"
    and "id_ok i (umap_find (activeTransactions (med t)) i) (outcome_calls i (calls (med t)))
      (began s i) (yes_votes t i) (no_votes t i)"
  shows "tpc_inv t"
  unfolding tpc_inv_def
proof (intro conjI allI impI)
  fix j
  show "began t j \<noteq> None \<Longrightarrow> unat j \<le> unat (transactionIdGenerator (med t))"
    using assms(1,3,4) by (simp add: tpc_inv_def)
  show "id_ok j (umap_find (activeTransactions (med t)) j) (outcome_calls j (calls (med t)))
      (began t j) (yes_votes t j) (no_votes t j)"
    using assms(1,4-6) by (cases "j = i") (auto simp: tpc_inv_def)
qed (rule assms(2))

lemma tpc_inv_at:
  assumes "tpc_inv s"
  shows "id_ok i (umap_find (activeTransactions (med s)) i) (outcome_calls i (calls (med s)))
      (began s i) (yes_votes s i) (no_votes s i)" and "umap_ok (activeTransactions (med s))"
  using assms by (simp_all add: tpc_inv_def)

lemma store_tx_simps [simp]:
  "tx_at (store_tx i t m) i = t"
  "umap_find (activeTransactions (store_tx i t m)) j =
     (if j = i then Some t else umap_find (activeTransactions m) j)"
  "umap_ok (activeTransactions m) \<Longrightarrow> umap_ok (activeTransactions (store_tx i t m))"
  "calls (store_tx i t m) = calls m"
  "transactionIdGenerator (store_tx i t m) = transactionIdGenerator m"
  by (simp_all add: tx_at_def store_tx_def store_simps)

lemma tpc_init_inv: "tpc_init s \<Longrightarrow> tpc_inv s"
  by (simp add: tpc_init_def tpc_inv_def id_ok_def)

lemma id_okI_aborted:
  assumes "id_ok i (Some t) es B Y N"
  shows "id_ok i None (es @ rollback_calls i t) B Y N"
proof -
  obtain P where B: "B = Some P" and t: "tx_ok i t P Y N" and es: "es = []"
    and nu: "Y = P \<longrightarrow> P = {}"
    using assms by (auto simp: id_ok_def)
  have "aborted i (rollback_calls i t) Y N"
    using t by (intro rollback_calls_aborted tx_ok_prepared [OF t]) (auto simp: tx_ok_def)
  moreover have "Y \<subseteq> P" using t by (simp add: tx_ok_def)
  ultimately show ?thesis using B es nu by (simp add: id_ok_def)
qed

lemma rollback_inv:
  assumes inv: "tpc_inv s" and act: "umap_find (activeTransactions (med s)) i = Some t"
  shows "tpc_inv (s\<lparr>med := RollbackTransaction i (med s)\<rparr>)"
proof (rule tpc_inv_updI [OF inv, where i = i])
  have "id_ok i None (outcome_calls i (calls (med s)) @ rollback_calls i t)
          (began s i) (yes_votes s i) (no_votes s i)"
    using tpc_inv_at(1) [OF inv, of i] act by (simp add: id_okI_aborted)
  then show "id_ok i (umap_find (activeTransactions (med (s\<lparr>med := RollbackTransaction i (med s)\<rparr>))) i)
      (outcome_calls i (calls (med (s\<lparr>med := RollbackTransaction i (med s)\<rparr>)))) (began s i)
      (yes_votes (s\<lparr>med := RollbackTransaction i (med s)\<rparr>) i)
      (no_votes (s\<lparr>med := RollbackTransaction i (med s)\<rparr>) i)"
    using act by (simp add: RollbackTransaction_eq tx_at_def store_simps outcome_rollback_calls)
qed (use tpc_inv_at(2) [OF inv] in
      \<open>simp_all add: RollbackTransaction_eq store_simps outcome_rollback_calls\<close>)

lemma fold_rollback_inv:
  "tpc_inv s \<Longrightarrow> distinct is \<Longrightarrow> \<forall>i \<in> set is. umap_find (activeTransactions (med s)) i \<noteq> None \<Longrightarrow>
   tpc_inv (s\<lparr>med := fold RollbackTransaction is (med s)\<rparr>)"
proof (induction "is" arbitrary: s)
  case Nil
  then show ?case by simp
next
  case (Cons i "is")
  let ?s = "s\<lparr>med := RollbackTransaction i (med s)\<rparr>"
  from Cons.prems obtain t where "umap_find (activeTransactions (med s)) i = Some t" by auto
  then have "tpc_inv ?s" using Cons.prems by (intro rollback_inv)
  moreover have "\<forall>j \<in> set is. umap_find (activeTransactions (med ?s)) j \<noteq> None"
    using Cons.prems by (auto simp: RollbackTransaction_eq store_simps)
  ultimately have "tpc_inv (?s\<lparr>med := fold RollbackTransaction is (med ?s)\<rparr>)"
    using Cons.prems by (intro Cons.IH) auto
  then show ?case by simp
qed

lemma timer_inv:
  assumes "tpc_inv s"
  shows "tpc_inv (s\<lparr>med := OnTimer now (med s)\<rparr>)"
proof -
  let ?A = "activeTransactions (med s)"
  let ?is = "map fst (filter (\<lambda>(_, t). timed_out now t) ?A)"
  have ok: "umap_ok ?A" using assms by (simp add: tpc_inv_def)
  then have "distinct ?is" by (simp add: umap_ok_def distinct_map_filter)
  moreover have "\<forall>i \<in> set ?is. umap_find ?A i \<noteq> None"
    using ok by (auto simp: umap_find_None_iff)
  ultimately show ?thesis
    using assms unfolding OnTimer_def by (intro fold_rollback_inv)
qed

lemma start_inv:
  assumes inv: "tpc_inv s" and lt: "unat (transactionIdGenerator (med s)) < 2 ^ 64 - 1"
    and st: "StartTransaction ids tmo now (med s) = (i, m')"
  shows "tpc_inv (s\<lparr>med := m', began := (began s)(i := Some (set ids))\<rparr>)"
proof -
  let ?g = "transactionIdGenerator (med s)"
  have g: "unat (?g + 1) = Suc (unat ?g)" using lt by (intro unat_Suc_no_wrap) simp
  have new: "began s (?g + 1) = None" using inv g unfolding tpc_inv_def by (metis Suc_n_not_le_n)
  have "id_ok (?g + 1) (umap_find (activeTransactions (med s)) (?g + 1))
     (outcome_calls (?g + 1) (calls (med s))) None (yes_votes s (?g + 1)) (no_votes s (?g + 1))"
    using inv new by (metis tpc_inv_def)
  then have fresh: "umap_find (activeTransactions (med s)) (?g + 1) = None"
    and none: "outcome_calls (?g + 1) (calls (med s)) = []" "yes_votes s (?g + 1) = {}"
      "no_votes s (?g + 1) = {}"
    by (auto simp: id_ok_def split: option.splits)
  from st StartTransaction_eq [OF fresh, of ids tmo now]
  have i: "i = ?g + 1" and m': "m' = (med s)\<lparr>activeTransactions :=
      umap_assign i (new_Transaction i ids tmo now) (activeTransactions (med s)),
      transactionIdGenerator := i, calls := calls (med s) @ [TransactionStarted i]\<rparr>"
    by (auto simp: Let_def)
  let ?ps = "participants (new_Transaction i ids tmo now)"
  have ok: "umap_ok ?ps" by (simp add: new_Transaction_def fold_assign_ok)
  then have mem: "(k, p) \<in> set ?ps \<longleftrightarrow> k \<in> set ids \<and> p = Participant_ctor k" for k p
    by (subst umap_find_Some_iff [OF ok, symmetric])
      (auto simp: new_Transaction_def fold_assign_participants)
  have "fst ` set ?ps = set ids"
  proof
    show "fst ` set ?ps \<subseteq> set ids" using mem by auto
    show "set ids \<subseteq> fst ` set ?ps" using mem by force
  qed
  then have "tx_ok i (new_Transaction i ids tmo now) (set ids) {} {}"
    using ok mem by (auto simp: tx_ok_def Participant_ctor_def new_Transaction_def)
  then show ?thesis
    using inv none g i by (auto simp: tpc_inv_def m' store_simps id_ok_def)
qed

lemma tx_ok_member:
  assumes "tx_ok i t P Y N" and "umap_find (participants t) pid = Some p"
  shows "pid \<in> P" and "p_id p = pid" and "umap_ok (participants t)"
proof -
  have e: "(pid, p) \<in> set (participants t)" using assms(2) by (rule umap_find_in_set)
  then have "fst (pid, p) \<in> fst ` set (participants t)" by (rule imageI)
  then show "pid \<in> P" using assms(1) by (simp add: tx_ok_def)
  show "p_id p = pid" and "umap_ok (participants t)" using assms(1) e by (auto simp: tx_ok_def)
qed

lemma tx_ok_assign_vote:
  assumes "tx_ok i t P Y N" and "umap_find (participants t) pid = Some p"
  shows "tx_ok i (t\<lparr>participants := umap_assign pid (p\<lparr>lastUpdate := now, p_state := P_PREPARED\<rparr>)
      (participants t)\<rparr>) P (insert pid Y) N"
proof -
  note P = tx_ok_member(1) [OF assms] and p = tx_ok_member(2) [OF assms]
    and ok = tx_ok_member(3) [OF assms]
  let ?q = "p\<lparr>lastUpdate := now, p_state := P_PREPARED\<rparr>"
  have s: "set (umap_assign pid ?q (participants t)) =
      insert (pid, ?q) {e \<in> set (participants t). fst e \<noteq> pid}"
    by (rule set_umap_assign [OF ok])
  have "fst ` set (umap_assign pid ?q (participants t)) = P"
  proof -
    have "fst ` {e \<in> set (participants t). fst e \<noteq> pid} = P - {pid}"
      using assms(1) unfolding tx_ok_def by blast
    with P show ?thesis by (simp add: s insert_absorb)
  qed
  then show ?thesis
    using assms(1) ok P p by (auto simp: tx_ok_def s)
qed

lemma ready_inv:
  assumes inv: "tpc_inv s" and a: "a = accepts_vote (med s) i pid"
  shows "tpc_inv (s\<lparr>med := OnParticipantReady i pid success now (med s),
            yes_votes := add_vote (a \<and> success) i pid (yes_votes s),
            no_votes := add_vote (a \<and> \<not> success) i pid (no_votes s)\<rparr>)"
proof (cases a)
  case False
  then have "OnParticipantReady i pid success now (med s) = med s"
    using a by (auto simp: OnParticipantReady_def accepts_vote_def split: option.splits)
  with False inv show ?thesis by (simp add: add_vote_def)
next
  case True
  then obtain t p where t: "umap_find (activeTransactions (med s)) i = Some t"
    and p: "umap_find (participants t) pid = Some p"
    using a by (auto simp: accepts_vote_def split: option.splits)
  have "id_ok i (Some t) (outcome_calls i (calls (med s))) (began s i) (yes_votes s i) (no_votes s i)"
    using inv t by (metis tpc_inv_def)
  then obtain P where es: "outcome_calls i (calls (med s)) = []" and B: "began s i = Some P"
    and tx: "tx_ok i t P (yes_votes s i) (no_votes s i)" and nu: "yes_votes s i = P \<longrightarrow> P = {}"
    by (auto simp: id_ok_def)
  note pP = tx_ok_member(1) [OF tx p]
  note ok = tpc_inv_at(2) [OF inv]
  show ?thesis
  proof (cases success)
    case yes: True
    let ?t = "t\<lparr>participants := umap_assign pid (p\<lparr>lastUpdate := now, p_state := P_PREPARED\<rparr>)
                 (participants t)\<rparr>"
    have tx': "tx_ok i ?t P (insert pid (yes_votes s i)) (no_votes s i)"
      by (rule tx_ok_assign_vote [OF tx p])
    have op: "OnParticipantReady i pid True now (med s) =
        (if AllParticipantsPrepared ?t then CommitTransaction i (store_tx i ?t (med s))
         else store_tx i ?t (med s))"
      using t p by (simp add: OnParticipantReady_def Let_def)
    have c: "AllParticipantsPrepared ?t \<Longrightarrow>
        committed i (commit_calls i ?t) P (insert pid (yes_votes s i)) (no_votes s i)"
      using tx' pP by (intro commit_calls_committed) auto
    show ?thesis
    proof (rule tpc_inv_updI [OF inv, where i = i], goal_cases)
      case 5
      have Y: "insert pid (yes_votes s i) \<subseteq> P" using tx' by (simp add: tx_ok_def)
      show ?case
      proof (cases "AllParticipantsPrepared ?t")
        case com: True
        with c Y B es True yes show ?thesis
          by (simp add: op add_vote_def CommitTransaction_eq store_simps outcome_commit_calls id_ok_def)
      next
        case False
        with tx' tx_ok_not_unanimous [OF tx'] B es True yes show ?thesis
          by (simp add: op add_vote_def id_ok_def)
      qed
    qed (use True yes ok in \<open>auto simp: op add_vote_def CommitTransaction_eq store_simps outcome_commit_calls\<close>)
  next
    case no: False
    let ?t = "t\<lparr>participants := umap_assign pid (p\<lparr>lastUpdate := now, p_state := P_FAILED\<rparr>)
                 (participants t)\<rparr>"
    have pok: "umap_ok (participants t)" and ids: "\<forall>(k, p) \<in> set (participants t). p_id p = k"
      and Y: "yes_votes s i \<subseteq> P" and N: "no_votes s i = {}"
      using tx by (auto simp: tx_ok_def)
    note pid = tx_ok_member(2) [OF tx p]
    have op: "OnParticipantReady i pid False now (med s) =
        RollbackTransaction i (store_tx i ?t (med s))"
      using t p by (simp add: OnParticipantReady_def Let_def)
    have prep: "{k. \<exists>q. (k, q) \<in> set (participants ?t) \<and> p_state q = P_PREPARED} =
        yes_votes s i - {pid}"
      using tx_ok_prepared [OF tx] N pok by (auto simp: set_umap_assign)
    have ab: "aborted i (rollback_calls i ?t) (yes_votes s i) {pid}"
      using ids pok pid by (intro rollback_calls_aborted prep) (auto simp: set_umap_assign)
    show ?thesis
    proof (rule tpc_inv_updI [OF inv, where i = i], goal_cases)
      case 5
      show ?case
        using ab B es True no Y N nu pP
        by (simp add: op add_vote_def RollbackTransaction_eq store_simps outcome_rollback_calls id_ok_def)
    qed (use True no ok in \<open>auto simp: op add_vote_def RollbackTransaction_eq store_simps outcome_rollback_calls\<close>)
  qed
qed

lemma tx_ok_perm:
  assumes "tx_ok i t P Y N" and "mset ps = mset (participants t)"
  shows "tx_ok i (t\<lparr>participants := ps\<rparr>) P Y N"
proof -
  have "set ps = set (participants t)" using assms(2) by (metis mset_eq_setD)
  with assms umap_find_perm(1) [of "participants t" ps] show ?thesis by (auto simp: tx_ok_def)
qed

lemma tpc_step_inv: "tpc_step s t \<Longrightarrow> tpc_inv s \<Longrightarrow> tpc_inv t"
proof (induction rule: tpc_step.induct)
  case (start s ids tmo now i m')
  then show ?case by (intro start_inv)
next
  case (ready a s i pid success now)
  then show ?case by (intro ready_inv)
next
  case (timer s now)
  then show ?case by (rule timer_inv)
next
  case (rollback s i)
  then show ?case by (auto intro: rollback_inv)
next
  case (other_mediator s)
  have "unat (transactionIdGenerator (med s) + 1) = Suc (unat (transactionIdGenerator (med s)))"
    using other_mediator by (intro unat_Suc_no_wrap) simp
  with other_mediator.prems show ?case
    unfolding tpc_inv_def by (auto simp: GenerateTransactionId_def Let_def)
next
  case (reorder_transactions ts s)
  then show ?case
    using umap_find_perm [of "activeTransactions (med s)" ts] by (auto simp: tpc_inv_def)
next
  case (reorder_participants s i t ps)
  then have "id_ok i (Some t) (outcome_calls i (calls (med s))) (began s i) (yes_votes s i) (no_votes s i)"
    by (metis tpc_inv_def)
  then have "id_ok i (Some (t\<lparr>participants := ps\<rparr>)) (outcome_calls i (calls (med s)))
      (began s i) (yes_votes s i) (no_votes s i)"
    using reorder_participants(2) by (auto simp: id_ok_def intro: tx_ok_perm)
  with reorder_participants.prems show ?case
    by (auto simp: tpc_inv_def store_tx_def store_simps)
qed

interpretation mediator_runs: inductive_invariant tpc_init tpc_step tpc_inv
  by unfold_locales (auto intro: tpc_init_inv tpc_step_inv)

section \<open>The abstract contract\<close>

text \<open>
  The status of one transaction id, and what two-phase commit makes of it on each event: a start opens it, a
  no vote of a participant aborts it, the yes vote that completes the participants commits it and any
  earlier one is noted, a timeout or a rollback aborts it. A vote of someone else, or for a transaction that is
  not open, changes nothing.
\<close>

datatype tx_status = NotStarted | Open "u64 set" "u64 set" | Committed | Aborted

datatype spec_event = Begins u64 "u64 set" | Votes u64 u64 bool | Aborts "u64 set"

fun vote_status :: "u64 \<Rightarrow> bool \<Rightarrow> tx_status \<Rightarrow> tx_status" where
  "vote_status p yes (Open P Y) =
     (if p \<notin> P then Open P Y else if \<not> yes then Aborted
      else if insert p Y = P then Committed else Open P (insert p Y))"
| "vote_status p yes st = st"

fun spec_step :: "spec_event \<Rightarrow> (u64 \<Rightarrow> tx_status) \<Rightarrow> u64 \<Rightarrow> tx_status" where
  "spec_step (Begins i P) \<sigma> = \<sigma>(i := Open P {})"
| "spec_step (Votes i p yes) \<sigma> = \<sigma>(i := vote_status p yes (\<sigma> i))"
| "spec_step (Aborts D) \<sigma> = (\<lambda>j. if j \<in> D then Aborted else \<sigma> j)"

text \<open>An event the protocol allows: only what has not started begins, only what is open is aborted.\<close>

fun spec_allows :: "spec_event \<Rightarrow> (u64 \<Rightarrow> tx_status) \<Rightarrow> bool" where
  "spec_allows (Begins i P) \<sigma> \<longleftrightarrow> \<sigma> i = NotStarted"
| "spec_allows (Votes i p yes) \<sigma> \<longleftrightarrow> True"
| "spec_allows (Aborts D) \<sigma> \<longleftrightarrow> (\<forall>j \<in> D. \<exists>P Y. \<sigma> j = Open P Y)"

text \<open>The operations of a run, what each does, and the event it is.\<close>

datatype tpc_action = Starts "u64 list" int int | Ready u64 u64 bool int | TimerFires int | RollsBack u64

fun enabled :: "tpc_action \<Rightarrow> tpc_sys \<Rightarrow> bool" where
  "enabled (Starts ids tmo now) s \<longleftrightarrow> unat (transactionIdGenerator (med s)) < 2 ^ 64 - 1"
| "enabled (Ready i pid success now) s \<longleftrightarrow> True"
| "enabled (TimerFires now) s \<longleftrightarrow> True"
| "enabled (RollsBack i) s \<longleftrightarrow> umap_find (activeTransactions (med s)) i \<noteq> None"

fun perform :: "tpc_action \<Rightarrow> tpc_sys \<Rightarrow> tpc_sys" where
  "perform (Starts ids tmo now) s =
     (let (i, m') = StartTransaction ids tmo now (med s)
      in s\<lparr>med := m', began := (began s)(i := Some (set ids))\<rparr>)"
| "perform (Ready i pid success now) s =
     (let a = accepts_vote (med s) i pid
      in s\<lparr>med := OnParticipantReady i pid success now (med s),
           yes_votes := add_vote (a \<and> success) i pid (yes_votes s),
           no_votes := add_vote (a \<and> \<not> success) i pid (no_votes s)\<rparr>)"
| "perform (TimerFires now) s = s\<lparr>med := OnTimer now (med s)\<rparr>"
| "perform (RollsBack i) s = s\<lparr>med := RollbackTransaction i (med s)\<rparr>"

fun observed :: "tpc_action \<Rightarrow> tpc_sys \<Rightarrow> spec_event" where
  "observed (Starts ids tmo now) s = Begins (transactionIdGenerator (med s) + 1) (set ids)"
| "observed (Ready i pid success now) s = Votes i pid success"
| "observed (TimerFires now) s =
     Aborts {i. \<exists>t. umap_find (activeTransactions (med s)) i = Some t \<and> timed_out now t}"
| "observed (RollsBack i) s = Aborts {i}"

definition tx_status :: "tpc_sys \<Rightarrow> u64 \<Rightarrow> tx_status" where
  "tx_status s i =
     (case began s i of
        None \<Rightarrow> NotStarted
      | Some P \<Rightarrow>
          (if umap_find (activeTransactions (med s)) i \<noteq> None then Open P (yes_votes s i)
           else if TransactionCompleted i \<in> set (calls (med s)) then Committed else Aborted))"

lemma Completed_in_outcome:
  "TransactionCompleted i \<in> set (outcome_calls i es) \<longleftrightarrow> TransactionCompleted i \<in> set es"
  by (simp add: outcome_calls_def)

lemma active_no_outcome:
  assumes "tpc_inv s" and "umap_find (activeTransactions (med s)) i = Some t"
  shows "\<exists>P. began s i = Some P \<and> tx_ok i t P (yes_votes s i) (no_votes s i)"
    and "outcome_calls i (calls (med s)) = []"
    and "TransactionCompleted i \<notin> set (calls (med s))"
proof -
  have "id_ok i (Some t) (outcome_calls i (calls (med s))) (began s i) (yes_votes s i) (no_votes s i)"
    using tpc_inv_at(1) [OF assms(1), of i] assms(2) by simp
  then show "\<exists>P. began s i = Some P \<and> tx_ok i t P (yes_votes s i) (no_votes s i)"
    and o: "outcome_calls i (calls (med s)) = []"
    by (auto simp: id_ok_def)
  show "TransactionCompleted i \<notin> set (calls (med s))"
    using Completed_in_outcome [of i "calls (med s)"] unfolding o by simp
qed

lemma ended_outcome:
  assumes "tpc_inv s" and "umap_find (activeTransactions (med s)) i = None" and "began s i = Some P"
  shows "committed i (outcome_calls i (calls (med s))) P (yes_votes s i) (no_votes s i) \<or>
     aborted i (outcome_calls i (calls (med s))) (yes_votes s i) (no_votes s i)"
    and "yes_votes s i \<subseteq> P"
  using tpc_inv_at(1) [OF assms(1), of i] assms(2,3) by (auto simp: id_ok_def)

lemma not_begun:
  assumes "tpc_inv s" and "began s i = None"
  shows "outcome_calls i (calls (med s)) = []" and "umap_find (activeTransactions (med s)) i = None"
    and "yes_votes s i = {}" and "no_votes s i = {}"
  using tpc_inv_at(1) [OF assms(1), of i] assms(2) by (auto simp: id_ok_def split: option.splits)

lemma tx_status_cong:
  assumes "began t i = began s i" and "yes_votes t i = yes_votes s i"
    and "umap_find (activeTransactions (med t)) i = None \<longleftrightarrow> umap_find (activeTransactions (med s)) i = None"
    and "TransactionCompleted i \<in> set (calls (med t)) \<longleftrightarrow> TransactionCompleted i \<in> set (calls (med s))"
  shows "tx_status t i = tx_status s i"
  using assms by (simp add: tx_status_def split: option.splits)

lemma Completed_notin_rollback [simp]: "TransactionCompleted j \<notin> set (rollback_calls i t)"
  by (auto simp: set_rollback_calls)

lemma status_active:
  assumes inv: "tpc_inv s" and a: "umap_find (activeTransactions (med s)) i = Some tx"
  obtains P where "tx_status s i = Open P (yes_votes s i)" "began s i = Some P"
    "tx_ok i tx P (yes_votes s i) (no_votes s i)"
  using active_no_outcome(1) [OF inv a] a by (auto simp: tx_status_def)

lemma status_abort:
  assumes inv: "tpc_inv s" and a: "umap_find (activeTransactions (med s)) i = Some tx"
    and "began t i = began s i" and "umap_find (activeTransactions (med t)) i = None"
    and "TransactionCompleted i \<in> set (calls (med t)) \<longleftrightarrow> TransactionCompleted i \<in> set (calls (med s))"
  shows "tx_status t i = Aborted"
proof -
  obtain P where "began s i = Some P" using active_no_outcome(1) [OF inv a] by blast
  then show ?thesis using assms(3-5) active_no_outcome(3) [OF inv a] by (simp add: tx_status_def)
qed

lemma find_filter:
  assumes "umap_ok m"
  shows "umap_find (filter (\<lambda>(_, v). Q v) m) k =
    (case umap_find m k of None \<Rightarrow> None | Some v \<Rightarrow> if Q v then Some v else None)"
proof -
  have ok: "umap_ok (filter (\<lambda>(_, v). Q v) m)"
    using assms by (simp add: umap_ok_def distinct_map_filter)
  show ?thesis
  proof (cases "umap_find m k")
    case None
    then have "k \<notin> fst ` set m" by (simp add: umap_find_None_iff)
    then have "k \<notin> fst ` set (filter (\<lambda>(_, v). Q v) m)" by auto
    then have "umap_find (filter (\<lambda>(_, v). Q v) m) k = None" by (simp only: umap_find_None_iff not_False_eq_True)
    with None show ?thesis by simp
  next
    case (Some v)
    then have e: "(k, v) \<in> set m" by (rule umap_find_in_set)
    show ?thesis
    proof (cases "Q v")
      case True
      with e have "(k, v) \<in> set (filter (\<lambda>(_, v). Q v) m)" by simp
      with True Some show ?thesis using umap_find_Some_iff [OF ok] by simp
    next
      case False
      have "v' = v" if "(k, v') \<in> set m" for v'
        using umap_find_Some_iff [OF assms, THEN iffD2, OF that] Some by simp
      with False have "k \<notin> fst ` set (filter (\<lambda>(_, v). Q v) m)" by auto
      then have "umap_find (filter (\<lambda>(_, v). Q v) m) k = None" by (simp only: umap_find_None_iff not_False_eq_True)
      with False Some show ?thesis by simp
    qed
  qed
qed

text \<open>A vote that is not accepted leaves the status alone, in the code and in the protocol.\<close>

lemma vote_status_refused:
  assumes inv: "tpc_inv s" and "\<not> accepts_vote (med s) i pid"
  shows "vote_status pid yes (tx_status s i) = tx_status s i"
proof (cases "umap_find (activeTransactions (med s)) i")
  case None
  then show ?thesis by (auto simp: tx_status_def split: option.splits)
next
  case (Some x)
  obtain P where P: "tx_status s i = Open P (yes_votes s i)" "tx_ok i x P (yes_votes s i) (no_votes s i)"
    by (rule status_active [OF inv Some])
  have "umap_find (participants x) pid = None"
    using assms(2) Some by (auto simp: accepts_vote_def split: option.splits)
  then have "pid \<notin> P" using P(2) by (simp add: umap_find_None_iff tx_ok_def)
  then show ?thesis by (simp add: P(1))
qed

lemma ready_status:
  assumes inv: "tpc_inv s"
  shows "tx_status (perform (Ready i pid success now) s) j = spec_step (Votes i pid success) (tx_status s) j"
proof (cases "accepts_vote (med s) i pid")
  case False
  then have "OnParticipantReady i pid success now (med s) = med s"
    by (auto simp: OnParticipantReady_def accepts_vote_def split: option.splits)
  with False have "perform (Ready i pid success now) s = s" by (simp add: add_vote_def Let_def)
  then show ?thesis using vote_status_refused [OF inv False] by simp
next
  case acc: True
  define t where "t = perform (Ready i pid success now) s"
  obtain x p where x: "umap_find (activeTransactions (med s)) i = Some x"
    and p: "umap_find (participants x) pid = Some p"
    using acc by (auto simp: accepts_vote_def split: option.splits)
  obtain P where st: "tx_status s i = Open P (yes_votes s i)" and B: "began s i = Some P"
    and tx: "tx_ok i x P (yes_votes s i) (no_votes s i)" by (rule status_active [OF inv x])
  have pP: "pid \<in> P" by (rule tx_ok_member(1) [OF tx p])
  have invt: "tpc_inv t" using ready_inv [OF inv refl, of i pid success now] by (simp add: t_def Let_def)
  have bt: "began t = began s" and mt: "med t = OnParticipantReady i pid success now (med s)"
    by (simp_all add: t_def Let_def)
  have "tx_status t j = spec_step (Votes i pid success) (tx_status s) j"
  proof (cases success)
    case no: False
    let ?x = "x\<lparr>participants := umap_assign pid (p\<lparr>lastUpdate := now, p_state := P_FAILED\<rparr>) (participants x)\<rparr>"
    have m: "med t = RollbackTransaction i (store_tx i ?x (med s))"
      using no x p by (simp add: mt OnParticipantReady_def Let_def)
    show ?thesis
    proof (cases "j = i")
      case True
      have "tx_status t i = Aborted"
        by (rule status_abort [OF inv x]) (simp_all add: bt m RollbackTransaction_eq store_simps)
      then show ?thesis using True no st pP by simp
    next
      case False
      then have "tx_status t j = tx_status s j"
        using no by (intro tx_status_cong)
          (simp_all add: bt m RollbackTransaction_eq store_simps, simp add: t_def add_vote_def Let_def)
      then show ?thesis using False by simp
    qed
  next
    case yes: True
    let ?x = "x\<lparr>participants := umap_assign pid (p\<lparr>lastUpdate := now, p_state := P_PREPARED\<rparr>) (participants x)\<rparr>"
    have m: "med t = (if AllParticipantsPrepared ?x then CommitTransaction i (store_tx i ?x (med s))
                      else store_tx i ?x (med s))"
      using yes x p by (simp add: mt OnParticipantReady_def Let_def)
    have y: "yes_votes t i = insert pid (yes_votes s i)"
      using yes acc by (simp add: t_def add_vote_def Let_def)
    show ?thesis
    proof (cases "j = i")
      case False
      then have "tx_status t j = tx_status s j"
        by (intro tx_status_cong)
          (simp_all add: bt m CommitTransaction_eq store_simps set_commit_calls, simp add: t_def add_vote_def Let_def)
      then show ?thesis using False by simp
    next
      case True
      show ?thesis
      proof (cases "AllParticipantsPrepared ?x")
        case open': False
        then have t: "tx_status t i = Open P (insert pid (yes_votes s i))"
          using B y by (simp add: tx_status_def bt m)
        have at: "umap_find (activeTransactions (med t)) i = Some ?x" using open' by (simp add: m)
        have "yes_votes t i = P \<longrightarrow> P = {}"
          using tpc_inv_at(1) [OF invt, of i] at B by (simp add: id_ok_def bt)
        then have "insert pid (yes_votes s i) \<noteq> P" using y pP by auto
        then show ?thesis using t True yes st pP by simp
      next
        case com: True
        then have none: "umap_find (activeTransactions (med t)) i = None"
          by (simp add: m CommitTransaction_eq store_simps)
        have dn: "TransactionCompleted i \<in> set (calls (med t))"
          using com by (simp add: m CommitTransaction_eq set_commit_calls)
        then have cm: "TransactionCompleted i \<in> set (outcome_calls i (calls (med t)))"
          by (simp only: Completed_in_outcome)
        have t: "tx_status t i = Committed" using B none dn by (simp add: tx_status_def bt)
        have "committed i (outcome_calls i (calls (med t))) P (yes_votes t i) (no_votes t i)"
          using ended_outcome(1) [OF invt none, of P] B cm by (auto simp: bt aborted_def)
        then have "insert pid (yes_votes s i) = P" using y by (simp add: committed_def)
        then show ?thesis using t True yes st pP by simp
      qed
    qed
  qed
  then show ?thesis by (simp add: t_def)
qed

lemma timer_status:
  assumes inv: "tpc_inv s"
  shows "tx_status (perform (TimerFires now) s) j = spec_step (observed (TimerFires now) s) (tx_status s) j"
proof -
  let ?t = "perform (TimerFires now) s"
  have ok: "umap_ok (activeTransactions (med s))" using inv by (simp add: tpc_inv_def)
  have c: "TransactionCompleted j \<in> set (calls (med ?t)) \<longleftrightarrow> TransactionCompleted j \<in> set (calls (med s))"
    by (auto simp: OnTimer_eq [OF ok])
  have f: "umap_find (activeTransactions (med ?t)) j =
      (case umap_find (activeTransactions (med s)) j of None \<Rightarrow> None
       | Some x \<Rightarrow> if timed_out now x then None else Some x)"
    by (simp add: OnTimer_eq [OF ok] find_filter [OF ok] split: option.splits)
  show ?thesis
  proof (cases "\<exists>x. umap_find (activeTransactions (med s)) j = Some x \<and> timed_out now x")
    case True
    then obtain x where x: "umap_find (activeTransactions (med s)) j = Some x" "timed_out now x" by blast
    have "tx_status ?t j = Aborted" by (rule status_abort [OF inv x(1)]) (use f c x in simp_all)
    with x show ?thesis by simp
  next
    case False
    then have "tx_status ?t j = tx_status s j"
      using f c by (intro tx_status_cong) (auto split: option.splits)
    moreover have "j \<notin> {i. \<exists>t. umap_find (activeTransactions (med s)) i = Some t \<and> timed_out now t}"
      using False by blast
    ultimately show ?thesis by (simp only: observed.simps spec_step.simps if_False)
  qed
qed

lemma rollback_status:
  assumes inv: "tpc_inv s" and "enabled (RollsBack i) s"
  shows "tx_status (perform (RollsBack i) s) j = spec_step (Aborts {i}) (tx_status s) j"
proof -
  obtain x where x: "umap_find (activeTransactions (med s)) i = Some x" using assms(2) by auto
  show ?thesis
  proof (cases "j = i")
    case True
    have "tx_status (perform (RollsBack i) s) i = Aborted"
      by (rule status_abort [OF inv x]) (simp_all add: RollbackTransaction_eq store_simps)
    with True show ?thesis by simp
  next
    case False
    then have "tx_status (perform (RollsBack i) s) j = tx_status s j"
      by (intro tx_status_cong) (simp_all add: RollbackTransaction_eq store_simps)
    with False show ?thesis by simp
  qed
qed

lemma start_status:
  assumes inv: "tpc_inv s" and g: "enabled (Starts ids tmo now) s"
  shows "tx_status (perform (Starts ids tmo now) s) j = spec_step (observed (Starts ids tmo now) s) (tx_status s) j"
    and "tx_status s (transactionIdGenerator (med s) + 1) = NotStarted"
proof -
  let ?g = "transactionIdGenerator (med s)"
  have "unat (?g + 1) = Suc (unat ?g)" using g by (intro unat_Suc_no_wrap) simp
  then have new: "began s (?g + 1) = None" using inv unfolding tpc_inv_def by (metis Suc_n_not_le_n)
  note nb = not_begun [OF inv new]
  show "tx_status s (?g + 1) = NotStarted" using new by (simp add: tx_status_def)
  let ?t = "perform (Starts ids tmo now) s"
  have t: "?t = s\<lparr>med := (med s)\<lparr>activeTransactions :=
      umap_assign (?g + 1) (new_Transaction (?g + 1) ids tmo now) (activeTransactions (med s)),
      transactionIdGenerator := ?g + 1, calls := calls (med s) @ [TransactionStarted (?g + 1)]\<rparr>,
      began := (began s)(?g + 1 := Some (set ids))\<rparr>"
    by (simp add: StartTransaction_eq [OF nb(2)] Let_def)
  show "tx_status ?t j = spec_step (observed (Starts ids tmo now) s) (tx_status s) j"
  proof (cases "j = ?g + 1")
    case True
    with nb(3) show ?thesis unfolding t by (simp add: tx_status_def store_simps)
  next
    case False
    then have "tx_status ?t j = tx_status s j"
      unfolding t by (intro tx_status_cong) (simp_all add: store_simps)
    with False show ?thesis by simp
  qed
qed

lemma perform_spec:
  assumes inv: "tpc_inv s" and e: "enabled a s"
  shows "tx_status (perform a s) = spec_step (observed a s) (tx_status s) \<and> spec_allows (observed a s) (tx_status s)"
proof (cases a)
  case (Starts ids tmo now)
  with start_status [OF inv] e show ?thesis by (auto simp del: perform.simps spec_step.simps)
next
  case (Ready i pid success now)
  with ready_status [OF inv] show ?thesis by (auto simp del: perform.simps spec_step.simps)
next
  case (TimerFires now)
  have "\<exists>P Y. tx_status s i = Open P Y" if "umap_find (activeTransactions (med s)) i = Some x" for i x
    using status_active [OF inv that] by metis
  with timer_status [OF inv] TimerFires show ?thesis by (auto simp del: perform.simps spec_step.simps)
next
  case (RollsBack i)
  then obtain x where "umap_find (activeTransactions (med s)) i = Some x" using e by auto
  then have "\<exists>P Y. tx_status s i = Open P Y" using status_active [OF inv] by metis
  with rollback_status [OF inv] RollsBack e show ?thesis by (auto simp del: perform.simps spec_step.simps)
qed

text \<open>A step of a run performs an operation, or is none of this mediator and changes no status.\<close>

lemma tpc_step_perform: "enabled a s \<Longrightarrow> tpc_step s (perform a s)"
proof (cases a)
  case (Starts ids tmo now)
  assume "enabled a s"
  with Starts show ?thesis
    by (cases "StartTransaction ids tmo now (med s)") (simp add: tpc_step.start)
next
  case (Ready i pid success now)
  then show ?thesis by (simp add: Let_def tpc_step.ready [OF refl])
qed (simp_all add: tpc_step.timer tpc_step.rollback)

lemma tpc_step_cases:
  assumes "tpc_step s t" and inv: "tpc_inv s"
  shows "(\<exists>a. enabled a s \<and> t = perform a s) \<or> tx_status t = tx_status s"
  using assms(1)
proof (cases rule: tpc_step.cases)
  case (start ids tmo now i m')
  then have "enabled (Starts ids tmo now) s \<and> t = perform (Starts ids tmo now) s" by simp
  then show ?thesis by blast
next
  case (ready a i pid success now)
  then have "t = perform (Ready i pid success now) s" by (simp add: Let_def)
  moreover have "enabled (Ready i pid success now) s" by simp
  ultimately show ?thesis by blast
next
  case (timer now)
  then have "enabled (TimerFires now) s \<and> t = perform (TimerFires now) s" by simp
  then show ?thesis by blast
next
  case (rollback i)
  then have "enabled (RollsBack i) s \<and> t = perform (RollsBack i) s" by simp
  then show ?thesis by blast
next
  case other_mediator
  then have "tx_status t j = tx_status s j" for j
    by (intro tx_status_cong) (simp_all add: GenerateTransactionId_def Let_def)
  then show ?thesis by (intro disjI2 ext)
next
  case (reorder_transactions ts)
  have "umap_ok (activeTransactions (med s))" using inv by (simp add: tpc_inv_def)
  note perm = umap_find_perm [OF this reorder_transactions(2)]
  have "tx_status t j = tx_status s j" for j
    using perm by (intro tx_status_cong) (simp_all add: reorder_transactions(1))
  then show ?thesis by (intro disjI2 ext)
next
  case (reorder_participants i tx ps)
  then have "tx_status t j = tx_status s j" for j
    by (intro tx_status_cong) simp_all
  then show ?thesis by (intro disjI2 ext)
qed

section \<open>Properties of every run\<close>

lemma reach_outcome:
  assumes "reach tpc_init tpc_step s"
  shows "id_ok i (umap_find (activeTransactions (med s)) i) (outcome_calls i (calls (med s)))
      (began s i) (yes_votes s i) (no_votes s i)"
  by (rule tpc_inv_at(1) [OF mediator_runs.reach_inv [OF assms]])

lemma in_outcome:
  assumes "outcome_calls i es = os"
  shows "(\<forall>p. (CommitRequest i p \<in> set es \<longleftrightarrow> CommitRequest i p \<in> set os) \<and>
          (RollbackRequest i p \<in> set es \<longleftrightarrow> RollbackRequest i p \<in> set os) \<and>
          (PrepareRequest i p \<in> set es \<longleftrightarrow> PrepareRequest i p \<in> set os)) \<and>
     (TransactionCompleted i \<in> set es \<longleftrightarrow> TransactionCompleted i \<in> set os) \<and>
     (TransactionFailed i \<in> set es \<longleftrightarrow> TransactionFailed i \<in> set os) \<and>
     filter (\<lambda>e. e = TransactionCompleted i \<or> e = TransactionFailed i) es =
     filter (\<lambda>e. e = TransactionCompleted i \<or> e = TransactionFailed i) os"
proof -
  have "filter (\<lambda>e. e = TransactionCompleted i \<or> e = TransactionFailed i) es =
     filter (\<lambda>e. e = TransactionCompleted i \<or> e = TransactionFailed i) (outcome_calls i es)"
    unfolding outcome_calls_def filter_filter by (rule filter_cong) auto
  then show ?thesis unfolding assms [symmetric] by (simp add: outcome_calls_def)
qed

text \<open>The three shapes the list of calls of one transaction can have.\<close>

lemma outcome_cases:
  assumes "reach tpc_init tpc_step s"
  obtains (none) "outcome_calls i (calls (med s)) = []"
  | (commit) P ps where "began s i = Some P" "P \<noteq> {}" "yes_votes s i = P" "no_votes s i = {}"
      "umap_find (activeTransactions (med s)) i = None"
      "distinct ps" "set ps = P"
      "outcome_calls i (calls (med s)) = map (CommitRequest i) ps @ [TransactionCompleted i]"
  | (abort) P ps where "began s i = Some P" "yes_votes s i = P \<longrightarrow> P = {}"
      "umap_find (activeTransactions (med s)) i = None"
      "distinct ps" "set ps = yes_votes s i - no_votes s i"
      "outcome_calls i (calls (med s)) = map (RollbackRequest i) ps @ [TransactionFailed i]"
  using reach_outcome [OF assms, of i]
  by (auto simp: id_ok_def committed_def aborted_def split: option.splits)

text \<open>
  C1. Agreement. In every run of the coordinator, whatever the order of votes, timers, rollbacks and
  container orders, one transaction never gets both outcomes: if any participant was told to commit,
  or the transaction was reported completed, then no participant was told to roll back and it was not
  reported failed; and each report is made at most once.
\<close>

theorem mediator_agreement:
  assumes "reach tpc_init tpc_step s"
  shows "\<not> ((CommitRequest i p \<in> set (calls (med s)) \<or> TransactionCompleted i \<in> set (calls (med s))) \<and>
            (RollbackRequest i q \<in> set (calls (med s)) \<or> TransactionFailed i \<in> set (calls (med s)))) \<and>
         length (filter (\<lambda>e. e = TransactionCompleted i \<or> e = TransactionFailed i) (calls (med s))) \<le> 1"
  by (cases rule: outcome_cases [OF assms, of i]; frule in_outcome; auto)

text \<open>
  Validity of a commit. When a transaction was reported completed, or any participant of it was
  told to commit, then it had been started with a non-empty set of participants, every one of them had
  voted yes and none had voted no, and the calls made for it are exactly one commit request to each
  participant followed by the report.
\<close>

theorem mediator_commit_validity:
  assumes "reach tpc_init tpc_step s"
    and "TransactionCompleted i \<in> set (calls (med s)) \<or> CommitRequest i p \<in> set (calls (med s))"
  shows "\<exists>P ps. began s i = Some P \<and> P \<noteq> {} \<and> yes_votes s i = P \<and> no_votes s i = {} \<and>
     distinct ps \<and> set ps = P \<and>
     outcome_calls i (calls (med s)) = map (CommitRequest i) ps @ [TransactionCompleted i]"
  using assms(2)
  by - (cases rule: outcome_cases [OF assms(1), of i]; frule in_outcome; auto)

text \<open>
  C3. Exactness of an abort. When a transaction was reported failed (a no vote, a timeout or an explicit
  rollback), the calls made for it are exactly one rollback request to each participant whose yes vote
  was standing, in some order, followed by the report; and it is no longer active.
\<close>

theorem mediator_abort_exact:
  assumes "reach tpc_init tpc_step s" and "TransactionFailed i \<in> set (calls (med s))"
  shows "\<exists>ps. distinct ps \<and> set ps = yes_votes s i - no_votes s i \<and>
     outcome_calls i (calls (med s)) = map (RollbackRequest i) ps @ [TransactionFailed i] \<and>
     umap_find (activeTransactions (med s)) i = None"
  using assms(2)
  by - (cases rule: outcome_cases [OF assms(1), of i]; frule in_outcome; auto)

text \<open>
  C2. The mediator refines two-phase commit. At any point of a run each operation does to the statuses of all
  transactions exactly what the protocol does on its event, an event the protocol allows there: a start opens
  the transaction that gets the new id, a yes vote of a participant is noted, and commits the transaction when it is
  the last that was missing and not before, a no vote aborts it, the timer aborts exactly the overdue
  ones. Every other step of a run, another mediator drawing an id or a container changing its order, leaves all
  statuses as they are.
\<close>

theorem mediator_refines_2pc:
  assumes "reach tpc_init tpc_step s"
  shows "(enabled a s \<longrightarrow> tpc_step s (perform a s) \<and>
       tx_status (perform a s) = spec_step (observed a s) (tx_status s) \<and> spec_allows (observed a s) (tx_status s)) \<and>
    (tpc_step s t \<longrightarrow> (\<exists>b. enabled b s \<and> t = perform b s) \<or> tx_status t = tx_status s)"
  using perform_spec [OF mediator_runs.reach_inv [OF assms]] tpc_step_perform
    tpc_step_cases [OF _ mediator_runs.reach_inv [OF assms]] by blast

text \<open>
  C4. A unanimous vote decides. A transaction with at least one participant is committed exactly when
  all its participants have voted yes; it never stays open after the last yes vote.
\<close>

theorem mediator_unanimity_commits:
  assumes "reach tpc_init tpc_step s" and "began s i = Some P" and "P \<noteq> {}"
  shows "(TransactionCompleted i \<in> set (calls (med s)) \<longleftrightarrow> yes_votes s i = P) \<and>
     (yes_votes s i = P \<longrightarrow> umap_find (activeTransactions (med s)) i = None)"
  using assms(2,3) reach_outcome [OF assms(1), of i] Completed_in_outcome [of i "calls (med s)"]
  by (auto simp: id_ok_def committed_def aborted_def split: option.splits)

text \<open>
  The timer. At any point of a run, \<open>OnTimer\<close> ends every overdue transaction, which is reported
  failed, and leaves every other transaction exactly as it was, with no call made for it.
\<close>

theorem OnTimer_exact:
  assumes "reach tpc_init tpc_step s"
    and "umap_find (activeTransactions (med s)) i = Some t"
  shows "if now - startTime t > timeout t * 1000
     then umap_find (activeTransactions (OnTimer now (med s))) i = None \<and>
          outcome_calls i (calls (OnTimer now (med s))) = rollback_calls i t
     else umap_find (activeTransactions (OnTimer now (med s))) i = Some t \<and>
          outcome_calls i (calls (OnTimer now (med s))) = []"
proof -
  have inv: "tpc_inv s" by (rule mediator_runs.reach_inv [OF assms(1)])
  then have ok: "umap_ok (activeTransactions (med s))" by (simp add: tpc_inv_def)
  let ?xs = "filter (\<lambda>(_, t). timed_out now t) (activeTransactions (med s))"
  have okxs: "umap_ok ?xs" using ok by (simp add: umap_ok_def distinct_map_filter)
  have one: "umap_ok xs \<Longrightarrow> outcome_calls i (concat (map (\<lambda>(k, t). rollback_calls k t) xs)) =
      (case umap_find xs i of None \<Rightarrow> [] | Some t \<Rightarrow> rollback_calls i t)" for xs
  proof (induction xs)
    case Nil
    then show ?case by simp
  next
    case (Cons e xs)
    then have "umap_ok xs" by (simp add: umap_ok_def)
    moreover have "fst e = i \<Longrightarrow> umap_find xs i = None"
      using Cons.prems by (auto simp: umap_ok_def umap_find_None_iff)
    ultimately show ?case
      using Cons.IH by (cases e) (auto simp: outcome_rollback_calls umap_find_def)
  qed
  show ?thesis
    using assms(2) active_no_outcome(2) [OF inv assms(2)] one [OF okxs]
    by (simp add: OnTimer_eq [OF ok] find_filter [OF ok] timed_out_def)
qed

text \<open>
  The first phase is never sent. No run of the coordinator calls \<open>SendPrepareRequest\<close>, for any
  transaction and participant, and no transaction is ever in the state \<open>PREPARING\<close>: participants have
  to vote on their own.
\<close>

theorem mediator_never_sends_prepare:
  assumes "reach tpc_init tpc_step s"
  shows "PrepareRequest i p \<notin> set (calls (med s)) \<and>
     (\<forall>t. umap_find (activeTransactions (med s)) i = Some t \<longrightarrow> t_state t = PENDING)"
proof
  show "PrepareRequest i p \<notin> set (calls (med s))"
    by (cases rule: outcome_cases [OF assms, of i]; frule in_outcome; auto)
  show "\<forall>t. umap_find (activeTransactions (med s)) i = Some t \<longrightarrow> t_state t = PENDING"
    using reach_outcome [OF assms, of i] by (auto simp: id_ok_def tx_ok_def)
qed

section \<open>Sample runs\<close>

definition tpc0 :: tpc_sys where
  "tpc0 = \<lparr>med = \<lparr>activeTransactions = [], transactionIdGenerator = 1, calls = []\<rparr>,
           began = (\<lambda>_. None), yes_votes = (\<lambda>_. {}), no_votes = (\<lambda>_. {})\<rparr>"

definition do_start :: "u64 list \<Rightarrow> int \<Rightarrow> int \<Rightarrow> tpc_sys \<Rightarrow> tpc_sys" where
  "do_start ids tmo now = perform (Starts ids tmo now)"

definition do_ready :: "u64 \<Rightarrow> u64 \<Rightarrow> bool \<Rightarrow> int \<Rightarrow> tpc_sys \<Rightarrow> tpc_sys" where
  "do_ready i pid success now = perform (Ready i pid success now)"

lemma step_do_start:
  "unat (transactionIdGenerator (med s)) < 2 ^ 64 - 1 \<Longrightarrow> tpc_step s (do_start ids tmo now s)"
  unfolding do_start_def by (rule tpc_step_perform) simp

lemma step_do_ready: "tpc_step s (do_ready i pid b now s)"
  unfolding do_ready_def by (rule tpc_step_perform) simp

text \<open>A transaction with participants 7 and 9 is started, and 7 votes yes.\<close>

definition tpc_voting :: tpc_sys where
  "tpc_voting = do_ready 2 7 True 20 (do_start [7, 9] 5000 10 tpc0)"

lemma reach_tpc_voting: "reach tpc_init tpc_step tpc_voting"
proof -
  have "reach tpc_init tpc_step tpc0" by (rule reach_init) (simp add: tpc0_def tpc_init_def)
  moreover have "tpc_step tpc0 (do_start [7, 9] 5000 10 tpc0)"
    by (rule step_do_start) (simp add: tpc0_def)
  ultimately have "reach tpc_init tpc_step (do_start [7, 9] 5000 10 tpc0)" by (rule reach_step)
  then show ?thesis unfolding tpc_voting_def by (rule reach_step) (rule step_do_ready)
qed

lemmas tpc_run_defs = tpc_voting_def do_ready_def do_start_def tpc0_def StartTransaction_def
  GenerateTransactionId_def tx_at_def default_Transaction_def store_tx_def call_def
  umap_assign_def umap_find_def Participant_ctor_def OnParticipantReady_def
  AllParticipantsPrepared_def accepts_vote_def add_vote_def Let_def

lemma tpc_voting_eq:
  "med tpc_voting = \<lparr>activeTransactions = [(2, \<lparr>t_id = 2, t_state = PENDING,
        participants = [(7, \<lparr>p_id = 7, p_state = P_PREPARED, lastUpdate = 20\<rparr>),
                        (9, \<lparr>p_id = 9, p_state = P_WAITING, lastUpdate = 0\<rparr>)],
        startTime = 10, timeout = 5000\<rparr>)],
      transactionIdGenerator = 2, calls = [TransactionStarted 2]\<rparr>"
  "began tpc_voting = (\<lambda>_. None)(2 := Some {7, 9})"
  "yes_votes tpc_voting = (\<lambda>_. {})(2 := {7})" "no_votes tpc_voting = (\<lambda>_. {})"
  by (simp_all add: tpc_run_defs)

lemma tpc_voting_yes:
  "calls (med (do_ready 2 9 True 30 tpc_voting)) =
     [TransactionStarted 2, CommitRequest 2 7, CommitRequest 2 9, TransactionCompleted 2]"
  "umap_find (activeTransactions (med (do_ready 2 9 True 30 tpc_voting))) 2 = None"
  "began (do_ready 2 9 True 30 tpc_voting) 2 = Some {7, 9}"
  "yes_votes (do_ready 2 9 True 30 tpc_voting) 2 = {7, 9}"
  by (auto simp: do_ready_def tpc_voting_eq OnParticipantReady_def accepts_vote_def add_vote_def
      AllParticipantsPrepared_def CommitTransaction_eq commit_calls_def store_tx_def tx_at_def
      umap_assign_def umap_find_def umap_erase_def Let_def)

lemma tpc_voting_no:
  "calls (med (do_ready 2 9 False 30 tpc_voting)) =
     [TransactionStarted 2, RollbackRequest 2 7, TransactionFailed 2]"
  by (simp add: do_ready_def tpc_voting_eq OnParticipantReady_def
      RollbackTransaction_eq rollback_calls_def store_tx_def tx_at_def
      umap_assign_def umap_find_def umap_erase_def Let_def)

lemma reach_voting_ready: "reach tpc_init tpc_step (do_ready i p b now tpc_voting)"
  by (rule reach_step [OF reach_tpc_voting step_do_ready])

theorem mediator_agreement_witness:
  "\<not> (RollbackRequest 2 7 \<in> set (calls (med (do_ready 2 9 True 30 tpc_voting))) \<or>
      TransactionFailed 2 \<in> set (calls (med (do_ready 2 9 True 30 tpc_voting))))"
  using mediator_agreement [OF reach_voting_ready [of 2 9 True 30], of 2 7 7]
  by (simp add: tpc_voting_yes)

theorem mediator_commit_validity_witness:
  "\<exists>P ps. began (do_ready 2 9 True 30 tpc_voting) 2 = Some P \<and> P \<noteq> {} \<and>
     yes_votes (do_ready 2 9 True 30 tpc_voting) 2 = P \<and> distinct ps \<and> set ps = P \<and>
     outcome_calls 2 (calls (med (do_ready 2 9 True 30 tpc_voting))) =
       map (CommitRequest 2) ps @ [TransactionCompleted 2]"
  using mediator_commit_validity [OF reach_voting_ready [of 2 9 True 30], of 2 7]
  by (simp add: tpc_voting_yes)

theorem mediator_abort_exact_witness:
  "TransactionFailed 2 \<in> set (calls (med (do_ready 2 9 False 30 tpc_voting))) \<and>
   umap_find (activeTransactions (med (do_ready 2 9 False 30 tpc_voting))) 2 = None"
  using mediator_abort_exact [OF reach_voting_ready [of 2 9 False 30], of 2]
  by (auto simp: tpc_voting_no)

theorem mediator_refines_2pc_witness:
  "tx_status tpc_voting 2 = Open {7, 9} {7} \<and> tx_status (do_ready 2 9 True 30 tpc_voting) 2 = Committed \<and>
   tx_status (do_ready 2 9 False 30 tpc_voting) 2 = Aborted"
proof -
  have v: "tx_status tpc_voting 2 = Open {7, 9} {7}"
    by (simp add: tx_status_def tpc_voting_eq umap_find_def)
  have "tx_status (do_ready 2 9 b 30 tpc_voting) 2 = vote_status 9 b (Open {7, 9} {7})" for b
    using mediator_refines_2pc [OF reach_tpc_voting, of "Ready 2 9 b 30"] v
    unfolding do_ready_def by (simp del: perform.simps vote_status.simps)
  moreover have "insert 9 {7} = {7, 9 :: u64}" by auto
  ultimately show ?thesis using v by simp
qed

theorem mediator_unanimity_commits_witness:
  "TransactionCompleted 2 \<in> set (calls (med (do_ready 2 9 True 30 tpc_voting))) \<and>
   TransactionCompleted 2 \<notin> set (calls (med tpc_voting))"
  using mediator_unanimity_commits [OF reach_voting_ready [of 2 9 True 30], of 2 "{7, 9}"]
    mediator_unanimity_commits [OF reach_tpc_voting, of 2 "{7, 9}"]
  by (simp add: tpc_voting_yes tpc_voting_eq)

theorem OnTimer_exact_witness:
  "umap_find (activeTransactions (OnTimer 6000000 (med tpc_voting))) 2 = None \<and>
   umap_find (activeTransactions (OnTimer 5000010 (med tpc_voting))) 2 \<noteq> None"
  using OnTimer_exact [OF reach_tpc_voting, of 2 _ 6000000]
    OnTimer_exact [OF reach_tpc_voting, of 2 _ 5000010]
  by (simp add: tpc_voting_eq umap_find_def)

theorem mediator_never_sends_prepare_witness:
  "PrepareRequest 2 7 \<notin> set (calls (med tpc_voting)) \<and> began tpc_voting 2 = Some {7, 9}"
  using mediator_never_sends_prepare [OF reach_tpc_voting, of 2 7]
  by (simp add: tpc_voting_eq)

end
