(* ===== verification/TickerModel.thy ===== *)
theory TickerModel
  imports Prelude
begin

text \<open>
  The timer service: \<open>Ticker\<close> (\<open>ActorModelServer/Ticker.h\<close>, \<open>.cpp\<close>) and \<open>TimerEvent\<close>
  (\<open>ActorModelServer/TimerEvent.h\<close>, \<open>.cpp\<close>).

  Timer events are shared objects: the store \<open>events\<close> maps object addresses to them, and the
  \<open>std::map\<close> \<open>timerEvents\<close> holds addresses in ascending order of the 16-bit ids. The virtual function
  \<open>Fire\<close> is an argument. It runs while \<open>timerEventsMutex\<close> is held, so the only operation of the ticker
  it can complete is \<open>UnregisterTimerEvent\<close>; \<open>fire_contract\<close> says this. Firings are logged with their
  tick time. The clock readings are arguments too.
\<close>

section \<open>Timer events\<close>

record timer_event =
  timerEventId :: u16
  intervalMs :: u32
  nextTick :: u64

definition TimerEvent_ctor :: "u16 \<Rightarrow> u32 \<Rightarrow> timer_event" where
  "TimerEvent_ctor i iv = \<lparr>timerEventId = i, intervalMs = iv, nextTick = 0\<rparr>"

definition ShouldFire :: "u64 \<Rightarrow> timer_event \<Rightarrow> bool" where
  "ShouldFire currentTick e \<longleftrightarrow> nextTick e \<le> currentTick"

definition SetNextTick :: "u64 \<Rightarrow> timer_event \<Rightarrow> timer_event" where
  "SetNextTick nowTickMs e = e\<lparr>nextTick := nowTickMs + ucast (intervalMs e)\<rparr>"

text \<open>\<open>TimerEventCreator::Create\<close>: the new object and the advanced generator, which wraps.\<close>

definition TimerEventCreator_Create :: "u32 \<Rightarrow> u16 \<Rightarrow> timer_event \<times> u16" where
  "TimerEventCreator_Create iv gen = (TimerEvent_ctor gen iv, gen + 1)"

section \<open>The ticker\<close>

record ticker =
  tickCount :: u64
  nowMs :: u64
  isRunning :: bool
  tickInterval :: u32
  timerEvents :: "(u16 \<times> nat) list"
  unregisterTargetList :: "u16 list"
  events :: "nat \<rightharpoonup> timer_event"
  fired :: "(nat \<times> u64) list"

text \<open>\<open>Start\<close> up to the creation of the thread, whose body is \<open>UpdateTick\<close>.\<close>

definition Ticker_Start :: "u32 \<Rightarrow> u64 \<Rightarrow> ticker \<Rightarrow> ticker" where
  "Ticker_Start iv now s = s\<lparr>tickInterval := iv, nowMs := now\<rparr>"

text \<open>\<open>Stop\<close> in its two parts: before and after the join of the thread.\<close>

definition Ticker_Stop_request :: "ticker \<Rightarrow> ticker" where
  "Ticker_Stop_request s = s\<lparr>isRunning := False\<rparr>"

definition Ticker_Stop_clear :: "ticker \<Rightarrow> ticker" where
  "Ticker_Stop_clear s = s\<lparr>unregisterTargetList := [], timerEvents := []\<rparr>"

definition RegisterTimerEvent :: "nat option \<Rightarrow> ticker \<Rightarrow> bool \<times> ticker" where
  "RegisterTimerEvent eventObject s =
     (case eventObject of
        None \<Rightarrow> (False, s)
      | Some p \<Rightarrow>
          (case events s p of
             None \<Rightarrow> (False, s)
           | Some e \<Rightarrow>
               (let e' = SetNextTick (nowMs s + ucast (intervalMs e)) e
                in (True, s\<lparr>events := (events s)(p \<mapsto> e'),
                            timerEvents := omap_emplace (timerEventId e) p (timerEvents s)\<rparr>))))"

definition UnregisterTimerEvent :: "u16 \<Rightarrow> ticker \<Rightarrow> ticker" where
  "UnregisterTimerEvent i s =
     (if i \<in> set (unregisterTargetList s) then s
      else s\<lparr>unregisterTargetList := unregisterTargetList s @ [i]\<rparr>)"

definition UnregisterTimerEventImpl :: "ticker \<Rightarrow> ticker" where
  "UnregisterTimerEventImpl s =
     (if unregisterTargetList s = [] then s
      else s\<lparr>timerEvents := fold umap_erase (unregisterTargetList s) (timerEvents s),
             unregisterTargetList := []\<rparr>)"

text \<open>
  The loop over \<open>timerEvents\<close>. An address that is not in the store cannot occur: the map holds
  \<open>shared_ptr\<close>s.
\<close>

fun fire_events :: "(nat \<Rightarrow> ticker \<Rightarrow> ticker) \<Rightarrow> nat list \<Rightarrow> ticker \<Rightarrow> ticker" where
  "fire_events fire [] s = s"
| "fire_events fire (p # ps) s =
     (case events s p of
        None \<Rightarrow> fire_events fire ps s
      | Some e \<Rightarrow>
          if \<not> ShouldFire (nowMs s) e then fire_events fire ps s
          else (let s1 = fire p (s\<lparr>fired := fired s @ [(p, nowMs s)]\<rparr>);
                    s2 = s1\<lparr>events := (events s1)(p := map_option (SetNextTick (nowMs s1)) (events s1 p))\<rparr>
                in fire_events fire ps s2))"

text \<open>One iteration of \<open>UpdateTick\<close> at the clock reading \<open>now\<close>, without the sleep.\<close>

definition tick :: "(nat \<Rightarrow> ticker \<Rightarrow> ticker) \<Rightarrow> u64 \<Rightarrow> ticker \<Rightarrow> ticker" where
  "tick fire now s =
     (let s1 = UnregisterTimerEventImpl (s\<lparr>nowMs := now\<rparr>);
          s2 = fire_events fire (map snd (timerEvents s1)) s1
      in s2\<lparr>tickCount := tickCount s2 + 1\<rparr>)"

text \<open>
  \<open>UpdateTick\<close> with the clock readings of its iterations; after each of them \<open>isRunning\<close> is looked at
  again, and \<open>env\<close> is what the other threads did in the meantime.
\<close>

fun update_loop :: "(nat \<Rightarrow> ticker \<Rightarrow> ticker) \<Rightarrow> (u64 \<times> (ticker \<Rightarrow> ticker)) list \<Rightarrow> ticker \<Rightarrow> ticker" where
  "update_loop fire [] s = s"
| "update_loop fire ((now, env) # rs) s =
     (if isRunning s then update_loop fire rs (env (tick fire now s)) else s)"

definition UpdateTick :: "(nat \<Rightarrow> ticker \<Rightarrow> ticker) \<Rightarrow> (u64 \<times> (ticker \<Rightarrow> ticker)) list \<Rightarrow> ticker \<Rightarrow> ticker" where
  "UpdateTick fire rs s = update_loop fire rs (s\<lparr>isRunning := True\<rparr>)"

definition fire_contract :: "(nat \<Rightarrow> ticker \<Rightarrow> ticker) \<Rightarrow> bool" where
  "fire_contract fire \<longleftrightarrow> (\<forall>p s. \<exists>ids. fire p s = fold UnregisterTimerEvent ids s)"

section \<open>What one tick does\<close>

lemma fold_UnregisterTimerEvent:
  "\<exists>xs. fold UnregisterTimerEvent ids s = s\<lparr>unregisterTargetList := xs\<rparr>"
proof (induction ids arbitrary: s)
  case Nil
  then show ?case by (intro exI [of _ "unregisterTargetList s"]) simp
next
  case (Cons i ids)
  obtain ys where "UnregisterTimerEvent i s = s\<lparr>unregisterTargetList := ys\<rparr>"
    unfolding UnregisterTimerEvent_def by (metis (full_types) ticker.surjective ticker.update_convs(6))
  with Cons.IH [of "s\<lparr>unregisterTargetList := ys\<rparr>"] show ?case by auto
qed

lemma fire_contractD:
  assumes "fire_contract fire"
  obtains xs where "fire p s = s\<lparr>unregisterTargetList := xs\<rparr>"
  using assms fold_UnregisterTimerEvent unfolding fire_contract_def by metis

definition due :: "ticker \<Rightarrow> nat \<Rightarrow> bool" where
  "due s p \<longleftrightarrow> (\<exists>e. events s p = Some e \<and> ShouldFire (nowMs s) e)"

definition fire_all :: "nat list \<Rightarrow> ticker \<Rightarrow> ticker" where
  "fire_all ps s = s\<lparr>
     events := (\<lambda>p. if p \<in> set ps \<and> due s p then map_option (SetNextTick (nowMs s)) (events s p)
                    else events s p),
     fired := fired s @ map (\<lambda>p. (p, nowMs s)) (filter (due s) ps)\<rparr>"

lemma fire_all_Nil [simp]: "fire_all [] s = s"
  by (simp add: fire_all_def)

lemma fire_all_skip: "\<not> due s p \<Longrightarrow> fire_all (p # ps) s = fire_all ps s"
  by (simp add: fire_all_def) (metis (no_types, opaque_lifting))

lemma fire_all_unregister:
  "fire_all ps (s\<lparr>unregisterTargetList := xs\<rparr>) = (fire_all ps s)\<lparr>unregisterTargetList := xs\<rparr>"
proof -
  have "due (s\<lparr>unregisterTargetList := xs\<rparr>) = due s" by (rule ext) (simp add: due_def)
  then show ?thesis unfolding fire_all_def by (cases s) (simp cong: if_cong)
qed

lemma fire_all_Cons:
  assumes "due s p" and "p \<notin> set ps"
  shows "fire_all (p # ps) s = fire_all ps (s\<lparr>fired := fired s @ [(p, nowMs s)],
     events := (events s)(p := map_option (SetNextTick (nowMs s)) (events s p))\<rparr>)"
proof -
  let ?s = "s\<lparr>fired := fired s @ [(p, nowMs s)],
     events := (events s)(p := map_option (SetNextTick (nowMs s)) (events s p))\<rparr>"
  have same: "due ?s q = due s q" if "q \<noteq> p" for q
    using that by (simp add: due_def)
  have "filter (due ?s) ps = filter (due s) ps"
  proof (rule filter_cong [OF refl])
    fix q assume "q \<in> set ps"
    then show "due ?s q = due s q" using assms(2) by (intro same) auto
  qed
  moreover have "(\<lambda>q. if q \<in> set (p # ps) \<and> due s q then map_option (SetNextTick (nowMs s)) (events s q)
      else events s q) =
    (\<lambda>q. if q \<in> set ps \<and> due ?s q then map_option (SetNextTick (nowMs ?s)) (events ?s q)
      else events ?s q)"
  proof
    fix q
    show "(if q \<in> set (p # ps) \<and> due s q then map_option (SetNextTick (nowMs s)) (events s q)
        else events s q) =
      (if q \<in> set ps \<and> due ?s q then map_option (SetNextTick (nowMs ?s)) (events ?s q)
        else events ?s q)"
      using assms same [of q] by (cases "q = p") simp_all
  qed
  ultimately show ?thesis using assms(1) unfolding fire_all_def by simp
qed

lemma fire_events_exact:
  assumes "fire_contract fire"
  shows "distinct ps \<Longrightarrow> \<exists>xs. fire_events fire ps s = (fire_all ps s)\<lparr>unregisterTargetList := xs\<rparr>"
proof (induction ps arbitrary: s)
  case Nil
  show ?case by (intro exI [of _ "unregisterTargetList s"]) simp
next
  case (Cons p ps)
  then have p: "p \<notin> set ps" and ps: "distinct ps" by auto
  show ?case
  proof (cases "due s p")
    case False
    then have "fire_events fire (p # ps) s = fire_events fire ps s"
      by (auto simp: due_def split: option.splits)
    with Cons.IH [OF ps, of s] fire_all_skip [OF False, of ps] show ?thesis by simp
  next
    case True
    then obtain e where e: "events s p = Some e" "ShouldFire (nowMs s) e"
      by (auto simp: due_def split: option.splits)
    let ?s = "s\<lparr>fired := fired s @ [(p, nowMs s)],
        events := (events s)(p := map_option (SetNextTick (nowMs s)) (events s p))\<rparr>"
    obtain ys where ys: "fire p (s\<lparr>fired := fired s @ [(p, nowMs s)]\<rparr>) =
        s\<lparr>fired := fired s @ [(p, nowMs s)], unregisterTargetList := ys\<rparr>"
      using fire_contractD [OF assms] by blast
    have "fire_events fire (p # ps) s = fire_events fire ps (?s\<lparr>unregisterTargetList := ys\<rparr>)"
    proof -
      have "s\<lparr>fired := fired s @ [(p, nowMs s)], unregisterTargetList := ys,
          events := (events s)(p \<mapsto> SetNextTick (nowMs s) e)\<rparr> =
        s\<lparr>fired := fired s @ [(p, nowMs s)], events := (events s)(p \<mapsto> SetNextTick (nowMs s) e),
          unregisterTargetList := ys\<rparr>"
        by (cases s) simp
      moreover have "fire_events fire (p # ps) s = fire_events fire ps
          (s\<lparr>fired := fired s @ [(p, nowMs s)], unregisterTargetList := ys,
            events := (events s)(p \<mapsto> SetNextTick (nowMs s) e)\<rparr>)"
        using e ys by (simp add: Let_def)
      moreover have "map_option (SetNextTick (nowMs s)) (events s p) = Some (SetNextTick (nowMs s) e)"
        using e by simp
      ultimately show ?thesis by (simp only:)
    qed
    moreover obtain xs where "fire_events fire ps (?s\<lparr>unregisterTargetList := ys\<rparr>) =
        (fire_all ps (?s\<lparr>unregisterTargetList := ys\<rparr>))\<lparr>unregisterTargetList := xs\<rparr>"
      using Cons.IH [OF ps] by blast
    moreover have "fire_all ps (?s\<lparr>unregisterTargetList := ys\<rparr>) =
        (fire_all (p # ps) s)\<lparr>unregisterTargetList := ys\<rparr>"
      unfolding fire_all_unregister fire_all_Cons [OF True p] ..
    ultimately show ?thesis by (intro exI [of _ xs]) simp
  qed
qed

lemma umap_find_fold_erase [store_simps]:
  "umap_find (fold umap_erase is m) k = (if k \<in> set is then None else umap_find m k)"
  by (induction "is" arbitrary: m) (auto simp: store_simps)

lemma fold_erase_filter: "fold umap_erase is m = filter (\<lambda>(i, _). i \<notin> set is) m"
proof (induction "is" arbitrary: m)
  case Nil
  then show ?case by (simp add: case_prod_beta)
next
  case (Cons i "is")
  then show ?case by (auto simp: umap_erase_filter intro: filter_cong)
qed

lemma omap_ok_filter: "omap_ok m \<Longrightarrow> omap_ok (filter f m)"
  by (induction m) (auto simp: omap_ok_Cons)

text \<open>The entries that survive the pending removals.\<close>

definition live_events :: "ticker \<Rightarrow> (u16 \<times> nat) list" where
  "live_events s = filter (\<lambda>(i, _). i \<notin> set (unregisterTargetList s)) (timerEvents s)"

definition map_typed :: "ticker \<Rightarrow> bool" where
  "map_typed s \<longleftrightarrow> omap_ok (timerEvents s) \<and>
     (\<forall>(i, p) \<in> set (timerEvents s). \<exists>e. events s p = Some e \<and> timerEventId e = i)"

lemma map_typedD:
  assumes "map_typed s" and "(i, p) \<in> set (timerEvents s)"
  shows "\<exists>e. events s p = Some e \<and> timerEventId e = i"
proof -
  have "case (i, p) of (i, p) \<Rightarrow> \<exists>e. events s p = Some e \<and> timerEventId e = i"
    using assms unfolding map_typed_def by (blast dest: bspec)
  then show ?thesis by simp
qed

lemma distinct_live:
  assumes "map_typed s"
  shows "distinct (map snd (live_events s))"
proof -
  have d: "distinct (map fst (timerEvents s))"
    using assms omap_ok_imp_umap_ok [of "timerEvents s"] by (simp add: map_typed_def umap_ok_def)
  note id = map_typedD [OF assms]
  have "inj_on snd (set (timerEvents s))"
  proof (rule inj_onI)
    fix x y assume "x \<in> set (timerEvents s)" "y \<in> set (timerEvents s)" "snd x = snd y"
    with id [of "fst x" "snd x"] id [of "fst y" "snd y"] show "x = y"
      by (cases x; cases y) auto
  qed
  then have "inj_on snd (set (live_events s))"
    by (rule inj_on_subset) (auto simp: live_events_def)
  moreover have "distinct (live_events s)"
    using d by (auto simp: live_events_def distinct_map intro: distinct_filter)
  ultimately show ?thesis by (simp add: distinct_map)
qed

lemma tick_eq:
  assumes "fire_contract fire" and "map_typed s"
  obtains xs where "tick fire now s =
    (fire_all (map snd (live_events s)) (s\<lparr>nowMs := now, timerEvents := live_events s\<rparr>))
      \<lparr>unregisterTargetList := xs, tickCount := tickCount s + 1\<rparr>"
proof -
  let ?s = "s\<lparr>nowMs := now, timerEvents := live_events s\<rparr>"
  have imp: "UnregisterTimerEventImpl (s\<lparr>nowMs := now\<rparr>) = ?s\<lparr>unregisterTargetList := []\<rparr>"
    unfolding UnregisterTimerEventImpl_def live_events_def fold_erase_filter
    by (cases s) (simp add: case_prod_beta)
  obtain xs where "fire_events fire (map snd (live_events s)) (?s\<lparr>unregisterTargetList := []\<rparr>) =
      (fire_all (map snd (live_events s)) (?s\<lparr>unregisterTargetList := []\<rparr>))\<lparr>unregisterTargetList := xs\<rparr>"
    using fire_events_exact [OF assms(1) distinct_live [OF assms(2)]] by blast
  then have "tick fire now s = (fire_all (map snd (live_events s)) ?s)
      \<lparr>unregisterTargetList := xs, tickCount := tickCount s + 1\<rparr>"
    unfolding tick_def imp fire_all_unregister by (simp add: fire_all_def)
  then show ?thesis by (rule that)
qed

section \<open>Runs\<close>

record ticker_sys =
  tk :: ticker
  timerEventIdGenerator :: u16

definition ticker_init :: "ticker_sys \<Rightarrow> bool" where
  "ticker_init s \<longleftrightarrow> timerEventIdGenerator s = 1 \<and> timerEvents (tk s) = [] \<and>
     unregisterTargetList (tk s) = [] \<and> events (tk s) = Map.empty \<and> fired (tk s) = [] \<and>
     nowMs (tk s) = 0"

text \<open>
  The operations in any order, on a clock that does not run backwards and stays below \<open>2^63\<close> ms.
\<close>

inductive ticker_step :: "ticker_sys \<Rightarrow> ticker_sys \<Rightarrow> bool" where
  create: "events (tk s) p = None \<Longrightarrow>
     TimerEventCreator_Create iv (timerEventIdGenerator s) = (e, g) \<Longrightarrow>
     ticker_step s (s\<lparr>tk := (tk s)\<lparr>events := (events (tk s))(p \<mapsto> e)\<rparr>, timerEventIdGenerator := g\<rparr>)"
| register: "ticker_step s (s\<lparr>tk := snd (RegisterTimerEvent eo (tk s))\<rparr>)"
| unregister: "ticker_step s (s\<lparr>tk := UnregisterTimerEvent i (tk s)\<rparr>)"
| do_tick: "fire_contract fire \<Longrightarrow> nowMs (tk s) \<le> now \<Longrightarrow> unat now < 2 ^ 63 \<Longrightarrow>
     ticker_step s (s\<lparr>tk := tick fire now (tk s)\<rparr>)"
| start: "nowMs (tk s) \<le> now \<Longrightarrow> unat now < 2 ^ 63 \<Longrightarrow>
     ticker_step s (s\<lparr>tk := Ticker_Start iv now (tk s)\<rparr>)"
| stop: "ticker_step s (s\<lparr>tk := Ticker_Stop_clear (Ticker_Stop_request (tk s))\<rparr>)"

definition fire_times :: "nat \<Rightarrow> ticker \<Rightarrow> u64 list" where
  "fire_times p s = map snd (filter (\<lambda>(q, _). q = p) (fired s))"

definition event_ok :: "u64 \<Rightarrow> timer_event option \<Rightarrow> u64 list \<Rightarrow> bool" where
  "event_ok now e ts \<longleftrightarrow>
     (case e of
        None \<Rightarrow> ts = []
      | Some e \<Rightarrow> unat (nextTick e) < 2 ^ 63 + 2 ^ 33 \<and>
          (\<forall>t \<in> set ts. unat t \<le> unat now \<and> unat t + unat (intervalMs e) \<le> unat (nextTick e)) \<and>
          sorted_wrt (\<lambda>a b. unat a + unat (intervalMs e) \<le> unat b) ts)"

definition ticker_inv :: "ticker_sys \<Rightarrow> bool" where
  "ticker_inv s \<longleftrightarrow> map_typed (tk s) \<and> unat (nowMs (tk s)) < 2 ^ 63 \<and>
     (\<forall>p. event_ok (nowMs (tk s)) (events (tk s) p) (fire_times p (tk s)))"

lemma unat_add_interval:
  fixes now :: u64 and iv :: u32
  assumes "unat now < 2 ^ 63 + 2 ^ 32"
  shows "unat (now + ucast iv) = unat now + unat iv" and "unat iv < 2 ^ 32"
proof -
  show iv: "unat iv < 2 ^ 32" using unsigned_less [of iv] by simp
  have u: "unat (ucast iv :: u64) = unat iv"
    using iv by (simp add: unsigned_ucast_eq take_bit_eq_mod)
  have "unat now + unat (ucast iv :: u64) < 2 ^ LENGTH(64)" using assms iv by (simp add: u)
  then show "unat (now + ucast iv) = unat now + unat iv"
    by (subst unat_add_lem [THEN iffD1]) (simp_all add: u)
qed

lemma event_ok_mono:
  "event_ok now e ts \<Longrightarrow> now \<le> now' \<Longrightarrow> event_ok now' e ts"
  by (auto simp: event_ok_def word_le_nat_alt split: option.splits)

lemma event_ok_fire:
  assumes ok: "event_ok old (Some e) ts" and "old \<le> now" and "ShouldFire now e" and "unat now < 2 ^ 63"
  shows "event_ok now (Some (SetNextTick now e)) (ts @ [now])"
proof -
  have "unat now < 2 ^ 63 + 2 ^ 32" using assms(4) by simp
  note n = unat_add_interval [OF this, of "intervalMs e"]
  have "unat (nextTick e) \<le> unat now" using assms(3) by (simp add: ShouldFire_def word_le_nat_alt)
  then show ?thesis
    using ok assms(2,4) n by (fastforce simp: event_ok_def SetNextTick_def sorted_wrt_append word_le_nat_alt)
qed

lemma event_ok_register:
  assumes ok: "event_ok now (Some e) ts" and "unat now < 2 ^ 63"
  shows "event_ok now (Some (SetNextTick (now + ucast (intervalMs e)) e)) ts"
proof -
  have "unat now < 2 ^ 63 + 2 ^ 32" using assms(2) by simp
  note n = unat_add_interval(1) [OF this, of "intervalMs e"]
    and iv = unat_add_interval(2) [OF this, of "intervalMs e"]
  have m: "unat (now + ucast (intervalMs e) + ucast (intervalMs e)) =
      unat now + unat (intervalMs e) + unat (intervalMs e)"
    using assms(2) n iv by (subst unat_add_interval) simp_all
  show ?thesis
    using ok assms(2) n iv m by (fastforce simp: event_ok_def SetNextTick_def)
qed

lemma fire_times_simps [simp]:
  "fire_times p (s\<lparr>events := es\<rparr>) = fire_times p s"
  "fire_times p (s\<lparr>timerEvents := m\<rparr>) = fire_times p s"
  "fire_times p (s\<lparr>unregisterTargetList := xs\<rparr>) = fire_times p s"
  "fire_times p (s\<lparr>nowMs := n\<rparr>) = fire_times p s"
  "fire_times p (s\<lparr>tickCount := c\<rparr>) = fire_times p s"
  by (simp_all add: fire_times_def)

lemma fire_times_fire_all:
  "distinct ps \<Longrightarrow> fire_times p (fire_all ps s) =
     fire_times p s @ (if p \<in> set ps \<and> due s p then [nowMs s] else [])"
proof -
  assume d: "distinct ps"
  have "map snd (filter (\<lambda>(q, _). q = p) (map (\<lambda>p. (p, nowMs s)) (filter f ps))) =
      (if p \<in> set ps \<and> f p then [nowMs s] else [])" for f
    using d by (induction ps) (auto simp: filter_empty_conv)
  then show ?thesis by (simp add: fire_times_def fire_all_def)
qed

lemma events_fire_all:
  "events (fire_all ps s) p =
     (if p \<in> set ps \<and> due s p then map_option (SetNextTick (nowMs s)) (events s p) else events s p)"
  by (simp add: fire_all_def)

lemma map_typed_cong:
  assumes "map_typed s" and "timerEvents t = timerEvents s"
    and "\<And>p. map_option timerEventId (events t p) = map_option timerEventId (events s p)"
  shows "map_typed t"
proof -
  have "\<exists>e. events t p = Some e \<and> timerEventId e = i" if "(i, p) \<in> set (timerEvents s)" for i p
  proof -
    from map_typedD [OF assms(1) that] obtain e where "events s p = Some e" "timerEventId e = i"
      by blast
    with assms(3) [of p] show ?thesis by (cases "events t p") auto
  qed
  then show ?thesis using assms(1,2) by (auto simp: map_typed_def)
qed

lemma SetNextTick_id [simp]:
  "timerEventId (SetNextTick n e) = timerEventId e" "intervalMs (SetNextTick n e) = intervalMs e"
  by (simp_all add: SetNextTick_def)

lemma tick_inv:
  assumes inv: "ticker_inv s" and fc: "fire_contract fire" and le: "nowMs (tk s) \<le> now"
    and lt: "unat now < 2 ^ 63"
  shows "ticker_inv (s\<lparr>tk := tick fire now (tk s)\<rparr>)"
proof -
  let ?s = "(tk s)\<lparr>nowMs := now, timerEvents := live_events (tk s)\<rparr>"
  let ?ps = "map snd (live_events (tk s))"
  have mt: "map_typed (tk s)"
    and ev: "\<And>p. event_ok (nowMs (tk s)) (events (tk s) p) (fire_times p (tk s))"
    using inv by (auto simp: ticker_inv_def)
  obtain xs where t: "tick fire now (tk s) =
      (fire_all ?ps ?s)\<lparr>unregisterTargetList := xs, tickCount := tickCount (tk s) + 1\<rparr>"
    using tick_eq [OF fc mt] by metis
  have "map_typed ?s"
    using mt by (auto simp: map_typed_def live_events_def omap_ok_filter)
  then have "map_typed (tick fire now (tk s))"
    by (rule map_typed_cong) (simp_all add: t fire_all_def option.map_comp comp_def)
  moreover have "event_ok now (events (tick fire now (tk s)) p) (fire_times p (tick fire now (tk s)))"
    for p
  proof (cases "p \<in> set ?ps \<and> due ?s p")
    case True
    then obtain e where e: "events (tk s) p = Some e" "ShouldFire now e" by (auto simp: due_def)
    with True event_ok_fire [OF _ le e(2) lt] ev [of p] show ?thesis
      by (simp add: t events_fire_all fire_times_fire_all distinct_live [OF mt])
  next
    case False
    then have "events (tick fire now (tk s)) p = events (tk s) p"
      and "fire_times p (tick fire now (tk s)) = fire_times p (tk s)"
      by (auto simp: t events_fire_all fire_times_fire_all distinct_live [OF mt])
    with event_ok_mono [OF ev le, of p] show ?thesis by simp
  qed
  ultimately show ?thesis using lt by (simp add: ticker_inv_def) (simp add: t fire_all_def)
qed

lemma register_inv:
  assumes inv: "ticker_inv s"
  shows "ticker_inv (s\<lparr>tk := snd (RegisterTimerEvent eo (tk s))\<rparr>)"
proof (cases "\<exists>p e. eo = Some p \<and> events (tk s) p = Some e")
  case False
  then have "snd (RegisterTimerEvent eo (tk s)) = tk s"
    by (auto simp: RegisterTimerEvent_def split: option.splits)
  with inv show ?thesis by simp
next
  case True
  then obtain p e where p: "eo = Some p" and e: "events (tk s) p = Some e" by blast
  let ?e = "SetNextTick (nowMs (tk s) + ucast (intervalMs e)) e"
  let ?t = "(tk s)\<lparr>events := (events (tk s))(p \<mapsto> ?e),
      timerEvents := omap_emplace (timerEventId e) p (timerEvents (tk s))\<rparr>"
  have t: "snd (RegisterTimerEvent eo (tk s)) = ?t"
    by (simp add: RegisterTimerEvent_def p e Let_def)
  have mt: "map_typed (tk s)" and lt: "unat (nowMs (tk s)) < 2 ^ 63"
    and ev: "\<And>p. event_ok (nowMs (tk s)) (events (tk s) p) (fire_times p (tk s))"
    using inv by (auto simp: ticker_inv_def)
  have "map_typed ?t"
    using mt e set_omap_emplace [of "timerEventId e" p "timerEvents (tk s)"]
    by (fastforce simp: map_typed_def)
  moreover have "event_ok (nowMs (tk s)) (Some ?e) (fire_times p (tk s))"
    using ev [of p] lt unfolding e by (rule event_ok_register)
  ultimately show ?thesis using ev lt by (auto simp: ticker_inv_def t)
qed

lemma ticker_init_inv: "ticker_init s \<Longrightarrow> ticker_inv s"
  by (auto simp: ticker_init_def ticker_inv_def map_typed_def event_ok_def fire_times_def)

lemma ticker_step_inv: "ticker_step s t \<Longrightarrow> ticker_inv s \<Longrightarrow> ticker_inv t"
proof (induction rule: ticker_step.induct)
  case (create s p iv e g)
  then have e: "e = TimerEvent_ctor (timerEventIdGenerator s) iv"
    by (auto simp: TimerEventCreator_Create_def)
  have mt: "map_typed (tk s)" and ev: "\<And>q. event_ok (nowMs (tk s)) (events (tk s) q) (fire_times q (tk s))"
    using create.prems by (auto simp: ticker_inv_def)
  have "map_typed ((tk s)\<lparr>events := (events (tk s))(p \<mapsto> e)\<rparr>)"
    using mt create(1) by (fastforce simp: map_typed_def)
  moreover have "event_ok (nowMs (tk s)) (Some e) (fire_times p (tk s))"
    using ev [of p] create(1) by (simp add: event_ok_def e TimerEvent_ctor_def)
  ultimately show ?case using create.prems ev by (auto simp: ticker_inv_def)
next
  case (register s eo)
  then show ?case by (rule register_inv)
next
  case (unregister s i)
  then show ?case by (auto simp: ticker_inv_def UnregisterTimerEvent_def map_typed_def)
next
  case (do_tick fire s now)
  then show ?case by (intro tick_inv)
next
  case (start s now iv)
  then show ?case
    by (auto simp: ticker_inv_def Ticker_Start_def map_typed_def fire_times_def intro: event_ok_mono)
next
  case (stop s)
  then show ?case
    by (auto simp: ticker_inv_def Ticker_Stop_clear_def Ticker_Stop_request_def map_typed_def
        fire_times_def)
qed

interpretation ticker_runs: inductive_invariant ticker_init ticker_step ticker_inv
  by unfold_locales (auto intro: ticker_init_inv ticker_step_inv)

section \<open>Starting and stopping the thread\<close>

datatype ticker_thread = ThreadCreated | InLoop | ThreadExited

datatype stop_pc = NotStopping | Joining | Stopped

record ticker_threads =
  shared :: ticker
  worker :: ticker_thread
  stopper :: stop_pc

text \<open>After \<open>Start\<close> has created the thread: the thread runs \<open>UpdateTick\<close>, another one calls \<open>Stop\<close>.\<close>

inductive stop_step :: "ticker_threads \<Rightarrow> ticker_threads \<Rightarrow> bool" where
  enter: "worker s = ThreadCreated \<Longrightarrow>
     stop_step s (s\<lparr>worker := InLoop, shared := (shared s)\<lparr>isRunning := True\<rparr>\<rparr>)"
| iterate: "worker s = InLoop \<Longrightarrow> isRunning (shared s) \<Longrightarrow> fire_contract fire \<Longrightarrow>
     stop_step s (s\<lparr>shared := (tick fire now (shared s))\<rparr>)"
| leave: "worker s = InLoop \<Longrightarrow> \<not> isRunning (shared s) \<Longrightarrow> stop_step s (s\<lparr>worker := ThreadExited\<rparr>)"
| request: "stopper s = NotStopping \<Longrightarrow>
     stop_step s (s\<lparr>stopper := Joining, shared := Ticker_Stop_request (shared s)\<rparr>)"
| joined: "stopper s = Joining \<Longrightarrow> worker s = ThreadExited \<Longrightarrow>
     stop_step s (s\<lparr>stopper := Stopped, shared := Ticker_Stop_clear (shared s)\<rparr>)"

inductive_cases stop_stepE: "stop_step s t"

definition just_started :: "ticker_threads \<Rightarrow> bool" where
  "just_started s \<longleftrightarrow> worker s = ThreadCreated \<and> stopper s = NotStopping \<and>
     map_typed (shared s) \<and> \<not> isRunning (shared s)"

definition stuck :: "ticker_threads \<Rightarrow> bool" where
  "stuck s \<longleftrightarrow> worker s = InLoop \<and> stopper s = Joining \<and> isRunning (shared s) \<and> map_typed (shared s)"

lemma tick_keeps:
  assumes "fire_contract fire" and "map_typed s"
  shows "isRunning (tick fire now s) = isRunning s" and "map_typed (tick fire now s)"
proof -
  obtain xs where t: "tick fire now s =
    (fire_all (map snd (live_events s)) (s\<lparr>nowMs := now, timerEvents := live_events s\<rparr>))
      \<lparr>unregisterTargetList := xs, tickCount := tickCount s + 1\<rparr>"
    using tick_eq [OF assms] by metis
  then show "isRunning (tick fire now s) = isRunning s" by (simp add: fire_all_def)
  have "map_typed (s\<lparr>nowMs := now, timerEvents := live_events s\<rparr>)"
    using assms(2) by (auto simp: map_typed_def live_events_def omap_ok_filter)
  then show "map_typed (tick fire now s)"
    by (rule map_typed_cong) (simp_all add: t fire_all_def option.map_comp comp_def)
qed

interpretation stop_stuck: inductive_invariant stuck stop_step stuck
  by unfold_locales (auto simp: stuck_def tick_keeps elim!: stop_stepE)

section \<open>Properties\<close>

definition no_fire :: "nat \<Rightarrow> ticker \<Rightarrow> ticker" where
  "no_fire p s = s"

lemma no_fire_contract: "fire_contract no_fire"
  unfolding fire_contract_def no_fire_def by (metis fold_simps(1))

text \<open>
  C11. One tick, exactly. At any point of a run, an iteration of \<open>UpdateTick\<close> first drops the events whose
  removal was requested, then fires, once each and in ascending order of their ids, exactly the
  remaining events whose next tick has come, and reschedules those one interval after the tick; every
  other event object keeps its next tick.
\<close>

theorem tick_exact:
  assumes "reach ticker_init ticker_step s" and "fire_contract fire"
  shows "timerEvents (tick fire now (tk s)) =
      filter (\<lambda>(i, _). i \<notin> set (unregisterTargetList (tk s))) (timerEvents (tk s)) \<and>
    fired (tick fire now (tk s)) = fired (tk s) @ map (\<lambda>p. (p, now))
      (filter (\<lambda>p. \<exists>e. events (tk s) p = Some e \<and> nextTick e \<le> now)
        (map snd (timerEvents (tick fire now (tk s))))) \<and>
    events (tick fire now (tk s)) p =
      (if (p, now) \<in> set (drop (length (fired (tk s))) (fired (tick fire now (tk s))))
       then map_option (\<lambda>e. e\<lparr>nextTick := now + ucast (intervalMs e)\<rparr>) (events (tk s) p)
       else events (tk s) p)"
proof -
  have mt: "map_typed (tk s)" using ticker_runs.reach_inv [OF assms(1)] by (simp add: ticker_inv_def)
  obtain xs where t: "tick fire now (tk s) =
    (fire_all (map snd (live_events (tk s))) ((tk s)\<lparr>nowMs := now, timerEvents := live_events (tk s)\<rparr>))
      \<lparr>unregisterTargetList := xs, tickCount := tickCount (tk s) + 1\<rparr>"
    using tick_eq [OF assms(2) mt] by metis
  have d: "due ((tk s)\<lparr>nowMs := now, timerEvents := m\<rparr>) =
      (\<lambda>p. \<exists>e. events (tk s) p = Some e \<and> nextTick e \<le> now)" for m
    by (auto simp: due_def ShouldFire_def)
  have S: "SetNextTick now = (\<lambda>e. e\<lparr>nextTick := now + ucast (intervalMs e)\<rparr>)"
    by (auto simp: SetNextTick_def)
  show ?thesis
    unfolding t fire_all_def by (auto simp: d S live_events_def)
qed

text \<open>
  Periodicity. In every run, with events created, registered again, removed and the ticker
  stopped and started at any time, two firings of one event object are at least its interval apart.
\<close>

theorem timer_firings_spaced:
  assumes "reach ticker_init ticker_step s" and "events (tk s) p = Some e"
  shows "sorted_wrt (\<lambda>t t'. unat t + unat (intervalMs e) \<le> unat t')
     (map snd (filter (\<lambda>(q, _). q = p) (fired (tk s))))"
proof -
  have "event_ok (nowMs (tk s)) (Some e) (fire_times p (tk s))"
    using ticker_runs.reach_inv [OF assms(1)] assms(2) by (metis ticker_inv_def)
  then show ?thesis by (simp add: event_ok_def fire_times_def)
qed

text \<open>
  The first firing. An event registered at tick time \<open>n\<close> under a free id, without a pending removal
  of that id, is fired by the next tick exactly when that tick is at least twice its interval after
  \<open>n\<close>: \<open>RegisterTimerEvent\<close> adds the interval and \<open>SetNextTick\<close> adds it again.
\<close>

theorem RegisterTimerEvent_first_fire:
  assumes "reach ticker_init ticker_step s" and "fire_contract fire"
    and "events (tk s) p = Some e" and "umap_find (timerEvents (tk s)) (timerEventId e) = None"
    and "timerEventId e \<notin> set (unregisterTargetList (tk s))"
  shows "fst (RegisterTimerEvent (Some p) (tk s)) \<and>
    ((p, now) \<in> set (drop (length (fired (tk s)))
       (fired (tick fire now (snd (RegisterTimerEvent (Some p) (tk s)))))) \<longleftrightarrow>
     unat (nowMs (tk s)) + 2 * unat (intervalMs e) \<le> unat now)"
proof -
  let ?r = "snd (RegisterTimerEvent (Some p) (tk s))"
  have inv: "ticker_inv s" by (rule ticker_runs.reach_inv [OF assms(1)])
  then have lt: "unat (nowMs (tk s)) < 2 ^ 63 + 2 ^ 32" and ok: "omap_ok (timerEvents (tk s))"
    by (auto simp: ticker_inv_def map_typed_def)
  have mt: "map_typed ?r" using register_inv [OF inv, of "Some p"] by (simp add: ticker_inv_def)
  let ?n = "nowMs (tk s) + ucast (intervalMs e) + ucast (intervalMs e)"
  note a = unat_add_interval [OF lt, of "intervalMs e"]
  have "unat (nowMs (tk s)) < 2 ^ 63" using inv by (simp add: ticker_inv_def)
  then have n: "unat ?n = unat (nowMs (tk s)) + 2 * unat (intervalMs e)"
    using a by (subst unat_add_interval) simp_all
  have r: "?r = (tk s)\<lparr>events := (events (tk s))(p \<mapsto> e\<lparr>nextTick := ?n\<rparr>),
      timerEvents := omap_emplace (timerEventId e) p (timerEvents (tk s))\<rparr>"
    by (simp add: RegisterTimerEvent_def assms(3) SetNextTick_def Let_def)
  obtain xs where t: "tick fire now ?r =
    (fire_all (map snd (live_events ?r)) (?r\<lparr>nowMs := now, timerEvents := live_events ?r\<rparr>))
      \<lparr>unregisterTargetList := xs, tickCount := tickCount ?r + 1\<rparr>"
    using tick_eq [OF assms(2) mt] by metis
  have "umap_find (timerEvents ?r) (timerEventId e) = Some p"
    using ok assms(4) by (simp add: r store_simps)
  then have "(timerEventId e, p) \<in> set (timerEvents ?r)" by (rule umap_find_in_set)
  then have "(timerEventId e, p) \<in> set (live_events ?r)"
    using assms(5) by (simp add: live_events_def r)
  then have live: "p \<in> snd ` set (live_events ?r)" by force
  have d: "due (?r\<lparr>nowMs := now, timerEvents := m\<rparr>) p \<longleftrightarrow>
      unat (nowMs (tk s)) + 2 * unat (intervalMs e) \<le> unat now" for m
    unfolding due_def ShouldFire_def word_le_nat_alt n [symmetric] by (simp add: r)
  have f: "drop (length (fired (tk s))) (fired (tick fire now ?r)) = map (\<lambda>p. (p, now))
      (filter (due (?r\<lparr>nowMs := now, timerEvents := live_events ?r\<rparr>)) (map snd (live_events ?r)))"
    by (simp add: t fire_all_def) (simp add: r)
  have "(p, now) \<in> set (drop (length (fired (tk s))) (fired (tick fire now ?r))) \<longleftrightarrow>
      unat (nowMs (tk s)) + 2 * unat (intervalMs e) \<le> unat now"
    unfolding f using live d by auto
  moreover have "fst (RegisterTimerEvent (Some p) (tk s))"
    by (simp add: RegisterTimerEvent_def assms(3))
  ultimately show ?thesis by auto
qed

text \<open>
  Stopping can hang. When \<open>Stop\<close> is called right after \<open>Start\<close>, before the new thread has set
  \<open>isRunning\<close>, the thread overwrites the request: there is a run to a state in which \<open>Stop\<close> waits for the
  thread to end, and no continuation lets it return.
\<close>

theorem Ticker_Stop_can_hang:
  "\<exists>s0 s. just_started s0 \<and> stop_step\<^sup>*\<^sup>* s0 s \<and> stopper s = Joining \<and>
     \<not> (\<exists>t. stop_step\<^sup>*\<^sup>* s t \<and> stopper t = Stopped)"
proof -
  define t0 :: ticker where "t0 = \<lparr>tickCount = 0, nowMs = 0, isRunning = False, tickInterval = 16,
    timerEvents = [], unregisterTargetList = [], events = Map.empty, fired = []\<rparr>"
  define s0 where "s0 = \<lparr>shared = t0, worker = ThreadCreated, stopper = NotStopping\<rparr>"
  let ?s1 = "s0\<lparr>stopper := Joining, shared := Ticker_Stop_request t0\<rparr>"
  let ?s2 = "?s1\<lparr>worker := InLoop, shared := (shared ?s1)\<lparr>isRunning := True\<rparr>\<rparr>"
  have mt: "map_typed t0" by (simp add: t0_def map_typed_def)
  have "just_started s0" using mt by (simp add: s0_def just_started_def t0_def)
  moreover have "stop_step s0 ?s1"
    using stop_step.request [of s0] by (simp add: s0_def)
  moreover have "stop_step ?s1 ?s2"
    by (rule stop_step.enter) (simp add: s0_def)
  moreover have st: "stuck ?s2"
    using mt by (simp add: stuck_def s0_def Ticker_Stop_request_def map_typed_def)
  moreover have "stopper ?s2 = Joining" by simp
  moreover have "\<not> (\<exists>t. stop_step\<^sup>*\<^sup>* ?s2 t \<and> stopper t = Stopped)"
    using stop_stuck.steps_inv [OF _ st] by (auto simp: stuck_def)
  ultimately show ?thesis by (meson rtranclp.rtrancl_refl rtranclp.rtrancl_into_rtrancl)
qed

text \<open>
  Ids wrap. The generator of timer event ids comes back to an id after 65536 creations; an event
  registered while another one holds its id is dropped without an error: \<open>RegisterTimerEvent\<close> returns
  true and the map is unchanged.
\<close>

theorem TimerEvent_id_collision:
  assumes "reach ticker_init ticker_step s"
    and "events (tk s) p = Some e"
    and "umap_find (timerEvents (tk s)) (timerEventId e) = Some q" and "q \<noteq> p"
  shows "((\<lambda>g. snd (TimerEventCreator_Create iv g)) ^^ 65536) g = g \<and>
    fst (RegisterTimerEvent (Some p) (tk s)) \<and>
    umap_find (timerEvents (snd (RegisterTimerEvent (Some p) (tk s)))) = umap_find (timerEvents (tk s))"
proof (intro conjI)
  have "((\<lambda>g. snd (TimerEventCreator_Create iv g)) ^^ n) g = g + of_nat n" for n
    by (induction n) (auto simp: TimerEventCreator_Create_def add.commute add.left_commute)
  from this [of 65536] show "((\<lambda>g. snd (TimerEventCreator_Create iv g)) ^^ 65536) g = g"
    by simp
  have ok: "omap_ok (timerEvents (tk s))"
    using ticker_runs.reach_inv [OF assms(1)] by (simp add: ticker_inv_def map_typed_def)
  show "fst (RegisterTimerEvent (Some p) (tk s))" by (simp add: RegisterTimerEvent_def assms(2))
  show "umap_find (timerEvents (snd (RegisterTimerEvent (Some p) (tk s)))) = umap_find (timerEvents (tk s))"
    using omap_emplace.emplace_keeps [OF ok assms(3)] by (simp add: RegisterTimerEvent_def assms(2) Let_def)
qed

section \<open>A sample run\<close>

text \<open>\<open>n\<close> events with interval 100 are created, then the first is registered; then one tick.\<close>

definition ticker_made :: "nat \<Rightarrow> ticker_sys" where
  "ticker_made n = \<lparr>tk = \<lparr>tickCount = 0, nowMs = 0, isRunning = False, tickInterval = 16,
       timerEvents = [], unregisterTargetList = [],
       events = (\<lambda>p. if p < n then Some (TimerEvent_ctor (of_nat p + 1) 100) else None), fired = []\<rparr>,
     timerEventIdGenerator = of_nat n + 1\<rparr>"

definition ticker_registered :: "nat \<Rightarrow> ticker_sys" where
  "ticker_registered n = ticker_made n\<lparr>tk := snd (RegisterTimerEvent (Some 0) (tk (ticker_made n)))\<rparr>"

definition ticker_fired :: ticker_sys where
  "ticker_fired = ticker_registered 2\<lparr>tk := tick no_fire 250 (tk (ticker_registered 2))\<rparr>"

lemma reach_ticker_made: "reach ticker_init ticker_step (ticker_made n)"
proof (induction n)
  case 0
  show ?case by (rule reach_init) (simp add: ticker_made_def ticker_init_def fun_eq_iff)
next
  case (Suc n)
  let ?s = "ticker_made n"
  have "ticker_step ?s (?s\<lparr>tk := (tk ?s)\<lparr>events := (events (tk ?s))(n \<mapsto> TimerEvent_ctor (of_nat n + 1) 100)\<rparr>,
      timerEventIdGenerator := of_nat n + 1 + 1\<rparr>)"
    by (rule ticker_step.create) (simp_all add: ticker_made_def TimerEventCreator_Create_def)
  moreover have "?s\<lparr>tk := (tk ?s)\<lparr>events := (events (tk ?s))(n \<mapsto> TimerEvent_ctor (of_nat n + 1) 100)\<rparr>,
      timerEventIdGenerator := of_nat n + 1 + 1\<rparr> = ticker_made (Suc n)"
    by (auto simp: ticker_made_def fun_eq_iff add.commute less_Suc_eq)
  ultimately show ?case using Suc.IH reach_step by metis
qed

lemma reach_ticker_registered: "reach ticker_init ticker_step (ticker_registered n)"
  unfolding ticker_registered_def by (rule reach_step [OF reach_ticker_made ticker_step.register])

lemma reach_ticker_fired: "reach ticker_init ticker_step ticker_fired"
proof -
  have "ticker_step (ticker_registered 2) ticker_fired"
    unfolding ticker_fired_def
    by (rule ticker_step.do_tick [OF no_fire_contract])
      (simp_all add: ticker_registered_def ticker_made_def RegisterTimerEvent_def TimerEvent_ctor_def Let_def)
  with reach_ticker_registered show ?thesis by (rule reach_step)
qed

lemma ticker_made_event: "p < n \<Longrightarrow> events (tk (ticker_made n)) p = Some (TimerEvent_ctor (of_nat p + 1) 100)"
  by (simp add: ticker_made_def)

lemma ticker_registered_simps:
  "0 < n \<Longrightarrow> timerEvents (tk (ticker_registered n)) = [(1, 0)]"
  "0 < n \<Longrightarrow> events (tk (ticker_registered n)) =
     (events (tk (ticker_made n)))(0 \<mapsto> (TimerEvent_ctor 1 100)\<lparr>nextTick := 200\<rparr>)"
  "unregisterTargetList (tk (ticker_registered n)) = []" "fired (tk (ticker_registered n)) = []"
  "unregisterTargetList (tk (ticker_made n)) = []" "timerEvents (tk (ticker_made n)) = []"
  "nowMs (tk (ticker_made n)) = 0" "fired (tk (ticker_made n)) = []"
  by (simp_all add: ticker_registered_def ticker_made_def RegisterTimerEvent_def TimerEvent_ctor_def
      SetNextTick_def Let_def unsigned_ucast_eq)

theorem tick_exact_witness:
  "fired (tick no_fire 250 (tk (ticker_registered 2))) = [(0, 250)] \<and>
   fired (tick no_fire 150 (tk (ticker_registered 2))) = []"
  using tick_exact [OF reach_ticker_registered [of 2] no_fire_contract, of 250]
    tick_exact [OF reach_ticker_registered [of 2] no_fire_contract, of 150]
  by (simp add: ticker_registered_simps)

lemma ticker_fired_event: "\<exists>e. events (tk ticker_fired) 0 = Some e \<and> intervalMs e = 100"
  by (simp add: ticker_fired_def tick_def UnregisterTimerEventImpl_def ticker_registered_simps
      no_fire_def ShouldFire_def SetNextTick_def TimerEvent_ctor_def Let_def)

theorem timer_firings_spaced_witness:
  "\<exists>e. events (tk ticker_fired) 0 = Some e \<and> sorted_wrt (\<lambda>t t'. unat t + unat (intervalMs e) \<le> unat t')
     (map snd (filter (\<lambda>(q, _). q = 0) (fired (tk ticker_fired))))"
  using ticker_fired_event timer_firings_spaced [OF reach_ticker_fired, of 0] by blast

theorem RegisterTimerEvent_first_fire_witness:
  "(0, 200) \<in> set (fired (tick no_fire 200 (snd (RegisterTimerEvent (Some 0) (tk (ticker_made 2)))))) \<and>
   (0, 199) \<notin> set (fired (tick no_fire 199 (snd (RegisterTimerEvent (Some 0) (tk (ticker_made 2))))))"
  using RegisterTimerEvent_first_fire [OF reach_ticker_made [of 2] no_fire_contract
      ticker_made_event [of 0 2], of 200]
    RegisterTimerEvent_first_fire [OF reach_ticker_made [of 2] no_fire_contract
      ticker_made_event [of 0 2], of 199]
  by (simp add: ticker_registered_simps TimerEvent_ctor_def)

theorem TimerEvent_id_collision_witness:
  "fst (RegisterTimerEvent (Some 65536) (tk (ticker_registered 65537))) \<and>
   umap_find (timerEvents (snd (RegisterTimerEvent (Some 65536) (tk (ticker_registered 65537))))) 1 = Some 0"
proof -
  have e: "events (tk (ticker_registered 65537)) 65536 = Some (TimerEvent_ctor 1 100)"
    by (simp add: ticker_registered_simps ticker_made_event TimerEvent_ctor_def)
  have q: "umap_find (timerEvents (tk (ticker_registered 65537))) (timerEventId (TimerEvent_ctor 1 100)) = Some 0"
    by (simp add: ticker_registered_simps TimerEvent_ctor_def umap_find_def)
  show ?thesis
    using TimerEvent_id_collision [OF reach_ticker_registered e q] q by (simp add: TimerEvent_ctor_def)
qed

end
