(* ===== verification/ServerRegistry.thy ===== *)
theory ServerRegistry
  imports ActorCore Mediator
begin

text \<open>
  The registries of \<open>ServerCore\<close> (\<open>ActorModelServer/ServerCore.h\<close>, \<open>.cpp\<close>): sessions and non-network
  actors per logic thread, the user count, the release queues, lookup, the wake-up of a logic thread,
  and the virtual timer functions of the actor classes (\<open>SessionTimer.cpp\<close>, \<open>NonNetworkActor.h\<close>).

  Actors are shared objects: \<open>objs\<close> maps addresses to them, and the maps hold addresses. A
  \<open>nullptr\<close> argument is \<open>None\<close>; the maps never hold one, because both insertions read the object, so
  the null tests inside the loops always succeed. An index outside a vector is undefined behaviour:
  the operation is then \<open>None\<close>. The calls of \<open>OnActorCreated\<close>, \<open>OnActorDestroyed\<close> and
  \<open>OnDisconnected\<close> are logged. \<open>mediators\<close> holds the members of \<open>MediatorBase\<close> of the objects of that
  class, and \<open>steadyClock\<close> the readings of \<open>steady_clock::now()\<close> still to come.
\<close>

section \<open>State\<close>

datatype actor_kind = SessionKind | NonNetworkKind | MediatorKind

record 'h obj =
  act :: "'h actor"
  kind :: actor_kind
  isTesterActor :: bool

datatype lifecycle_event = ActorCreated nat | ActorDestroyed nat | Disconnected nat

record 'h server =
  numOfLogicThread :: u8
  numOfUser :: int
  sessionMap :: "(u64, nat) umap list"
  nonNetworkActorMap :: "(u64, nat) umap list"
  releaseThreadsQueue :: "(u64 \<times> u8) list list"
  releaseEvents :: "bool list"
  serverIsStop :: bool
  objs :: "nat \<rightharpoonup> 'h obj"
  mediators :: "nat \<rightharpoonup> mediator"
  steadyClock :: "nat \<Rightarrow> int"
  lifecycle :: "lifecycle_event list"

definition in_range :: "u8 \<Rightarrow> 'a list \<Rightarrow> bool" where
  "in_range t xs \<longleftrightarrow> unat t < length xs"

definition log_event :: "lifecycle_event \<Rightarrow> 'h server \<Rightarrow> 'h server" where
  "log_event e srv = srv\<lparr>lifecycle := lifecycle srv @ [e]\<rparr>"

section \<open>Sessions\<close>

definition FindSession :: "u64 \<Rightarrow> u8 \<Rightarrow> 'h server \<Rightarrow> nat option option" where
  "FindSession sessionId t srv =
     (if in_range t (sessionMap srv) then Some (umap_find (sessionMap srv ! unat t) sessionId) else None)"

definition InsertSession :: "nat \<Rightarrow> 'h server \<Rightarrow> 'h server option" where
  "InsertSession p srv =
     (case objs srv p of
        None \<Rightarrow> None
      | Some ob \<Rightarrow>
          (let t = threadId (act ob) in
           if in_range t (sessionMap srv)
           then Some (srv\<lparr>sessionMap := (sessionMap srv)
                             [unat t := umap_emplace (actorId (act ob)) p (sessionMap srv ! unat t)],
                          numOfUser := numOfUser srv + 1\<rparr>)
           else None))"

definition EraseSession :: "u64 \<Rightarrow> u8 \<Rightarrow> 'h server \<Rightarrow> 'h server option" where
  "EraseSession sessionId t srv =
     (if in_range t (sessionMap srv)
      then Some (srv\<lparr>sessionMap := (sessionMap srv)
                        [unat t := umap_erase sessionId (sessionMap srv ! unat t)],
                     numOfUser := numOfUser srv - 1\<rparr>)
      else None)"

definition EraseAllSession :: "u8 \<Rightarrow> 'h server \<Rightarrow> 'h server option" where
  "EraseAllSession t srv =
     (if in_range t (sessionMap srv)
      then (let srv1 = fold (\<lambda>(_, p). log_event (Disconnected p)) (sessionMap srv ! unat t) srv
            in Some (srv1\<lparr>sessionMap := (sessionMap srv1)[unat t := []], numOfUser := 0\<rparr>))
      else None)"

definition ReleaseSession :: "u64 \<Rightarrow> u8 \<Rightarrow> 'h server \<Rightarrow> 'h server option" where
  "ReleaseSession sessionId t srv =
     (if in_range t (releaseThreadsQueue srv)
      then Some (srv\<lparr>releaseThreadsQueue := (releaseThreadsQueue srv)
                        [unat t := queue_push (sessionId, t) (releaseThreadsQueue srv ! unat t)],
                     releaseEvents := (releaseEvents srv)[unat t := True]\<rparr>)
      else None)"

text \<open>
  The loop of \<open>RunReleaseThread\<close>, which holds the lock of the queue: the entries are handled in order
  and the queue is empty at the end. A session found is erased, then its \<open>OnDisconnected\<close> is called.
\<close>

fun release_loop :: "(u64 \<times> u8) list \<Rightarrow> 'h server \<Rightarrow> 'h server option" where
  "release_loop [] srv = Some srv"
| "release_loop ((sessionId, t) # q) srv =
     (case FindSession sessionId t srv of
        None \<Rightarrow> None
      | Some None \<Rightarrow> release_loop q srv
      | Some (Some p) \<Rightarrow>
          (case EraseSession sessionId t srv of
             None \<Rightarrow> None
           | Some srv1 \<Rightarrow> release_loop q (log_event (Disconnected p) srv1)))"

datatype wait_result = ReleaseSignalled | StopSignalled | WaitFailed

definition release_iteration :: "u8 \<Rightarrow> wait_result \<Rightarrow> 'h server \<Rightarrow> 'h server option" where
  "release_iteration t w srv =
     (case w of
        ReleaseSignalled \<Rightarrow>
          (if in_range t (releaseThreadsQueue srv)
           then map_option (\<lambda>s. s\<lparr>releaseThreadsQueue := (releaseThreadsQueue s)[unat t := []]\<rparr>)
                  (release_loop (releaseThreadsQueue srv ! unat t)
                     (srv\<lparr>releaseEvents := (releaseEvents srv)[unat t := False]\<rparr>))
           else None)
      | StopSignalled \<Rightarrow> EraseAllSession t srv
      | WaitFailed \<Rightarrow> Some srv)"

text \<open>\<open>RunReleaseThread\<close> along the results of its waits, until \<open>isStop\<close> or until they are used up.\<close>

fun RunReleaseThread :: "u8 \<Rightarrow> wait_result list \<Rightarrow> 'h server \<Rightarrow> 'h server option" where
  "RunReleaseThread t [] srv = Some srv"
| "RunReleaseThread t (w # ws) srv =
     (if serverIsStop srv then Some srv
      else case release_iteration t w srv of
             None \<Rightarrow> None | Some srv1 \<Rightarrow> RunReleaseThread t ws srv1)"

section \<open>Non-network actors\<close>

definition core_RegisterNonNetworkActor :: "nat option \<Rightarrow> u8 \<Rightarrow> 'h server \<Rightarrow> (bool \<times> 'h server) option" where
  "core_RegisterNonNetworkActor pa t srv =
     (case pa of
        None \<Rightarrow> Some (False, srv)
      | Some p \<Rightarrow>
          (case objs srv p of
             None \<Rightarrow> None
           | Some ob \<Rightarrow>
               (if in_range t (nonNetworkActorMap srv)
                then Some (True, log_event (ActorCreated p)
                       (srv\<lparr>nonNetworkActorMap := (nonNetworkActorMap srv)
                          [unat t := umap_emplace (actorId (act ob)) p (nonNetworkActorMap srv ! unat t)]\<rparr>))
                else None)))"

definition core_UnregisterNonNetworkActor :: "nat option \<Rightarrow> u8 \<Rightarrow> 'h server \<Rightarrow> (bool \<times> 'h server) option" where
  "core_UnregisterNonNetworkActor pa t srv =
     (case pa of
        None \<Rightarrow> Some (False, srv)
      | Some p \<Rightarrow>
          (case objs srv p of
             None \<Rightarrow> None
           | Some ob \<Rightarrow>
               (if \<not> in_range t (nonNetworkActorMap srv) then None
                else if umap_find (nonNetworkActorMap srv ! unat t) (actorId (act ob)) = None
                then Some (False, srv)
                else Some (True, log_event (ActorDestroyed p)
                       (srv\<lparr>nonNetworkActorMap := (nonNetworkActorMap srv)
                          [unat t := umap_erase (actorId (act ob)) (nonNetworkActorMap srv ! unat t)]\<rparr>)))))"

text \<open>The static functions of \<open>NonNetworkActor\<close>; they read their argument without a null test.\<close>

definition RegisterNonNetworkActor :: "nat \<Rightarrow> 'h server \<Rightarrow> 'h server option" where
  "RegisterNonNetworkActor p srv =
     (case objs srv p of
        None \<Rightarrow> None
      | Some ob \<Rightarrow> (if isTesterActor ob then Some srv
                  else map_option snd (core_RegisterNonNetworkActor (Some p) (threadId (act ob)) srv)))"

definition UnregisterNonNetworkActor :: "nat \<Rightarrow> 'h server \<Rightarrow> 'h server option" where
  "UnregisterNonNetworkActor p srv =
     (case objs srv p of
        None \<Rightarrow> None
      | Some ob \<Rightarrow> (if isTesterActor ob then Some srv
                  else map_option snd (core_UnregisterNonNetworkActor (Some p) (threadId (act ob)) srv)))"

section \<open>Lookup\<close>

definition FindNonNetworkActor :: "u64 \<Rightarrow> 'h server \<Rightarrow> nat option option" where
  "FindNonNetworkActor i srv =
     (case GetTargetThreadId (numOfLogicThread srv) i of
        None \<Rightarrow> None
      | Some t \<Rightarrow> (if in_range t (nonNetworkActorMap srv)
                  then Some (umap_find (nonNetworkActorMap srv ! unat t) i) else None))"

definition FindActor :: "u64 \<Rightarrow> bool \<Rightarrow> 'h server \<Rightarrow> nat option option" where
  "FindActor i isNetworkActor srv =
     (case GetTargetThreadId (numOfLogicThread srv) i of
        None \<Rightarrow> None
      | Some t \<Rightarrow> (if isNetworkActor then FindSession i t srv else FindNonNetworkActor i srv))"

text \<open>The typed lookups: \<open>dynamic_pointer_cast\<close> keeps the object when its class is the wanted one.\<close>

definition pointer_cast :: "(actor_kind \<Rightarrow> bool) \<Rightarrow> 'h server \<Rightarrow> nat option \<Rightarrow> nat option" where
  "pointer_cast is_T srv r =
     (case r of
        None \<Rightarrow> None
      | Some p \<Rightarrow> (case objs srv p of
                    None \<Rightarrow> None
                  | Some ob \<Rightarrow> if is_T (kind ob) then Some p else None))"

definition FindActor_as :: "(actor_kind \<Rightarrow> bool) \<Rightarrow> u64 \<Rightarrow> bool \<Rightarrow> 'h server \<Rightarrow> nat option option" where
  "FindActor_as is_T i isNetworkActor srv =
     map_option (pointer_cast is_T srv) (FindActor i isNetworkActor srv)"

definition FindNonNetworkActor_as :: "(actor_kind \<Rightarrow> bool) \<Rightarrow> u64 \<Rightarrow> 'h server \<Rightarrow> nat option option" where
  "FindNonNetworkActor_as is_T i srv = map_option (pointer_cast is_T srv) (FindNonNetworkActor i srv)"

section \<open>Waking a logic thread\<close>

text \<open>
  A timer function returns \<open>None\<close> when control does not come back to the logic thread (an exception
  ends the process, or a message handler does not return).
\<close>

datatype timer_phase = PreTimer | OnTimerPhase | PostTimer

fun run_hooks :: "(nat \<Rightarrow> 's \<Rightarrow> 's option) \<Rightarrow> nat list \<Rightarrow> 's \<Rightarrow> 's option" where
  "run_hooks f [] s = Some s"
| "run_hooks f (p # ps) s = (case f p s of None \<Rightarrow> None | Some s' \<Rightarrow> run_hooks f ps s')"

definition wake_phase ::
  "(timer_phase \<Rightarrow> nat \<Rightarrow> 'h server \<Rightarrow> 'h server option) \<Rightarrow> timer_phase \<Rightarrow> u8 \<Rightarrow> 'h server \<Rightarrow> 'h server option" where
  "wake_phase hook ph t srv =
     (if \<not> in_range t (sessionMap srv) then None
      else case run_hooks (hook ph) (map snd (sessionMap srv ! unat t)) srv of
             None \<Rightarrow> None
           | Some srv1 \<Rightarrow>
               (if \<not> in_range t (nonNetworkActorMap srv1) then None
                else run_hooks (hook ph) (map snd (nonNetworkActorMap srv1 ! unat t)) srv1))"

definition PreWakeLogicThread ::
  "(timer_phase \<Rightarrow> nat \<Rightarrow> 'h server \<Rightarrow> 'h server option) \<Rightarrow> u8 \<Rightarrow> 'h server \<Rightarrow> 'h server option" where
  "PreWakeLogicThread hook t srv = wake_phase hook PreTimer t srv"

definition OnWakeLogicThread ::
  "(timer_phase \<Rightarrow> nat \<Rightarrow> 'h server \<Rightarrow> 'h server option) \<Rightarrow> u8 \<Rightarrow> 'h server \<Rightarrow> 'h server option" where
  "OnWakeLogicThread hook t srv = wake_phase hook OnTimerPhase t srv"

definition PostWakeLogicThread ::
  "(timer_phase \<Rightarrow> nat \<Rightarrow> 'h server \<Rightarrow> 'h server option) \<Rightarrow> u8 \<Rightarrow> 'h server \<Rightarrow> 'h server option" where
  "PostWakeLogicThread hook t srv = wake_phase hook PostTimer t srv"

text \<open>\<open>RunLogicThread\<close> along the results of its waits: \<open>True\<close> for a timeout.\<close>

definition logic_iteration ::
  "(timer_phase \<Rightarrow> nat \<Rightarrow> 'h server \<Rightarrow> 'h server option) \<Rightarrow> u8 \<Rightarrow> bool \<Rightarrow> 'h server \<Rightarrow> 'h server option" where
  "logic_iteration hook t timed srv =
     (if timed
      then Option.bind (PreWakeLogicThread hook t srv)
             (\<lambda>s1. Option.bind (OnWakeLogicThread hook t s1) (PostWakeLogicThread hook t))
      else Some srv)"

fun RunLogicThread ::
  "(timer_phase \<Rightarrow> nat \<Rightarrow> 'h server \<Rightarrow> 'h server option) \<Rightarrow> u8 \<Rightarrow> bool list \<Rightarrow> 'h server \<Rightarrow> 'h server option" where
  "RunLogicThread hook t [] srv = Some srv"
| "RunLogicThread hook t (w # ws) srv =
     (if serverIsStop srv then Some srv
      else case logic_iteration hook t w srv of
             None \<Rightarrow> None | Some srv1 \<Rightarrow> RunLogicThread hook t ws srv1)"

text \<open>
  The timer functions of the classes: \<open>Session::OnTimer\<close> runs \<open>ProcessMessage\<close>, and its other two are
  empty; those of \<open>NonNetworkActor\<close> are empty; \<open>MediatorBase::OnTimer\<close> reads the clock once and rolls
  back what is overdue. The virtual functions it calls are empty in \<open>TradeMediator\<close>, the only derived
  class of the repository; the mediator logs their calls. An object of class \<open>MediatorBase\<close> has its
  members: without an entry in \<open>mediators\<close> the call is undefined.
\<close>

definition Session_OnTimer :: "('h, 'h server) executor \<Rightarrow> nat \<Rightarrow> 'h server \<Rightarrow> 'h server option" where
  "Session_OnTimer exec p srv =
     (case objs srv p of
        None \<Rightarrow> Some srv
      | Some ob \<Rightarrow>
          (case ProcessMessage exec (act ob, srv) of
             Some (Done (a, srv')) \<Rightarrow> Some (srv'\<lparr>objs := (objs srv')(p \<mapsto> ob\<lparr>act := a\<rparr>)\<rparr>)
           | _ \<Rightarrow> None))"

definition MediatorBase_OnTimer :: "nat \<Rightarrow> 'h server \<Rightarrow> 'h server option" where
  "MediatorBase_OnTimer p srv =
     (case mediators srv p of
        None \<Rightarrow> None
      | Some m \<Rightarrow> Some (srv\<lparr>mediators := (mediators srv)(p \<mapsto> OnTimer (steadyClock srv 0) m),
                             steadyClock := steadyClock srv \<circ> Suc\<rparr>))"

definition timer_hook ::
  "('h, 'h server) executor \<Rightarrow> timer_phase \<Rightarrow> nat \<Rightarrow> 'h server \<Rightarrow> 'h server option" where
  "timer_hook exec ph p srv =
     (case objs srv p of
        None \<Rightarrow> Some srv
      | Some ob \<Rightarrow>
          (if ph \<noteq> OnTimerPhase then Some srv
           else case kind ob of
                  SessionKind \<Rightarrow> Session_OnTimer exec p srv
                | NonNetworkKind \<Rightarrow> Some srv
                | MediatorKind \<Rightarrow> MediatorBase_OnTimer p srv))"

end
