(* ===== verification/ServerRuns.thy ===== *)
theory ServerRuns
  imports ServerRegistry
begin

text \<open>
  Runs of the registries of \<open>ServerCore\<close>: actors constructed and sessions accepted, non-network actors
  registered and unregistered, releases requested by any thread, the release threads, the logic
  threads, and the containers changing their iteration order. The invariant ties the maps, the user
  count, the thread ids and the calls of \<open>OnDisconnected\<close> together.
\<close>

section \<open>The invariant\<close>

record 'h reg_sys =
  core :: "'h server"
  idGen :: u64
  inserted :: "nat set"

definition obj_info :: "'h obj \<Rightarrow> u64 \<times> u8 \<times> actor_kind \<times> bool" where
  "obj_info ob = (actorId (act ob), threadId (act ob), kind ob, isTesterActor ob)"

definition session_entry :: "'h server \<Rightarrow> nat set \<Rightarrow> nat \<Rightarrow> u64 \<times> nat \<Rightarrow> bool" where
  "session_entry srv ins t e \<longleftrightarrow>
     (\<exists>ob. objs srv (snd e) = Some ob \<and> kind ob = SessionKind \<and> actorId (act ob) = fst e \<and>
        unat (threadId (act ob)) = t) \<and>
     snd e \<in> ins \<and> Disconnected (snd e) \<notin> set (lifecycle srv)"

definition actor_entry :: "'h server \<Rightarrow> nat \<Rightarrow> u64 \<times> nat \<Rightarrow> bool" where
  "actor_entry srv t e \<longleftrightarrow>
     (\<exists>ob. objs srv (snd e) = Some ob \<and> kind ob \<noteq> SessionKind \<and> actorId (act ob) = fst e \<and>
        unat (threadId (act ob)) = t)"

definition objects_ok :: "u8 \<Rightarrow> u64 \<Rightarrow> (nat \<rightharpoonup> 'h obj) \<Rightarrow> bool" where
  "objects_ok n g os \<longleftrightarrow>
     (\<forall>p ob. os p = Some ob \<longrightarrow> unat (actorId (act ob)) \<le> unat g \<and>
        GetTargetThreadId n (actorId (act ob)) = Some (threadId (act ob))) \<and>
     (\<forall>p q ob ob'. os p = Some ob \<and> os q = Some ob' \<and> actorId (act ob) = actorId (act ob') \<longrightarrow> p = q)"

definition buckets_ok :: "(nat \<Rightarrow> u64 \<times> nat \<Rightarrow> bool) \<Rightarrow> (u64, nat) umap list \<Rightarrow> bool" where
  "buckets_ok P ms \<longleftrightarrow> (\<forall>t < length ms. umap_ok (ms ! t) \<and> (\<forall>e \<in> set (ms ! t). P t e))"

definition disconnects_ok :: "nat set \<Rightarrow> lifecycle_event list \<Rightarrow> bool" where
  "disconnects_ok ins es \<longleftrightarrow>
     (\<forall>p. length (filter (\<lambda>e. e = Disconnected p) es) \<le> 1 \<and> (Disconnected p \<in> set es \<longrightarrow> p \<in> ins))"

definition queues_ok :: "'h server \<Rightarrow> bool" where
  "queues_ok srv \<longleftrightarrow>
     (\<forall>q \<in> set (releaseThreadsQueue srv). \<forall>(i, t) \<in> set q. unat t < unat (numOfLogicThread srv))"

definition reg_ok :: "u64 \<Rightarrow> nat set \<Rightarrow> 'h server \<Rightarrow> bool" where
  "reg_ok g ins srv \<longleftrightarrow>
     0 < unat (numOfLogicThread srv) \<and>
     length (sessionMap srv) = unat (numOfLogicThread srv) \<and>
     length (nonNetworkActorMap srv) = unat (numOfLogicThread srv) \<and>
     length (releaseThreadsQueue srv) = unat (numOfLogicThread srv) \<and>
     objects_ok (numOfLogicThread srv) g (objs srv) \<and>
     buckets_ok (session_entry srv ins) (sessionMap srv) \<and>
     buckets_ok (actor_entry srv) (nonNetworkActorMap srv) \<and>
     numOfUser srv = int (sum_list (map length (sessionMap srv))) \<and>
     disconnects_ok ins (lifecycle srv) \<and> queues_ok srv \<and> \<not> serverIsStop srv"

lemma GetTargetThreadId_Some:
  assumes "GetTargetThreadId n i = Some t"
  shows "unat t = unat i mod unat n" and "unat t < unat n"
proof -
  have "n \<noteq> 0" using assms by (auto simp: GetTargetThreadId_def split: if_splits)
  from GetTargetThreadId_unat [OF this, of i] assms
  show "unat t = unat i mod unat n" and "unat t < unat n" by auto
qed

lemma buckets_ok_update:
  assumes "buckets_ok P ms" and "umap_ok m" and "\<And>e. e \<in> set m \<Longrightarrow> P t e"
  shows "buckets_ok P (ms[t := m])"
  unfolding buckets_ok_def
proof (intro allI impI)
  fix u assume "u < length (ms[t := m])"
  then show "umap_ok (ms[t := m] ! u) \<and> (\<forall>e\<in>set (ms[t := m] ! u). P u e)"
    using assms by (cases "u = t") (auto simp: buckets_ok_def)
qed

lemma buckets_ok_mono:
  assumes "buckets_ok P ms" and "\<And>t e. t < length ms \<Longrightarrow> e \<in> set (ms ! t) \<Longrightarrow> P t e \<Longrightarrow> Q t e"
  shows "buckets_ok Q ms"
  using assms by (auto simp: buckets_ok_def)

lemma buckets_okD:
  assumes "buckets_ok P ms" and "t < length ms"
  shows "umap_ok (ms ! t)" and "e \<in> set (ms ! t) \<Longrightarrow> P t e"
  using assms by (auto simp: buckets_ok_def)

lemma sum_length_update:
  assumes "t < length ms"
  shows "sum_list (map length (ms[t := m])) + length (ms ! t) = sum_list (map length ms) + length m"
  using assms by (simp add: map_update sum_list_update) (metis (no_types, lifting) add.commute
      diff_add_inverse2 elem_le_sum_list le_add_diff_inverse2 length_map nth_map trans_le_add1)

section \<open>Each operation keeps it\<close>

lemma reg_okD:
  assumes "reg_ok g ins srv"
  shows "in_range t (sessionMap srv) \<longleftrightarrow> unat t < unat (numOfLogicThread srv)"
    and "in_range t (nonNetworkActorMap srv) \<longleftrightarrow> unat t < unat (numOfLogicThread srv)"
    and "in_range t (releaseThreadsQueue srv) \<longleftrightarrow> unat t < unat (numOfLogicThread srv)"
    and "objects_ok (numOfLogicThread srv) g (objs srv)"
    and "buckets_ok (session_entry srv ins) (sessionMap srv)"
    and "buckets_ok (actor_entry srv) (nonNetworkActorMap srv)"
    and "disconnects_ok ins (lifecycle srv)"
    and "numOfUser srv = int (sum_list (map length (sessionMap srv)))"
  using assms by (auto simp: reg_ok_def in_range_def)

lemma object_range:
  assumes "reg_ok g ins srv" and "objs srv p = Some ob"
  shows "GetTargetThreadId (numOfLogicThread srv) (actorId (act ob)) = Some (threadId (act ob))"
    and "unat (threadId (act ob)) < unat (numOfLogicThread srv)"
proof -
  show "GetTargetThreadId (numOfLogicThread srv) (actorId (act ob)) = Some (threadId (act ob))"
    using assms by (auto simp: reg_ok_def objects_ok_def)
  then show "unat (threadId (act ob)) < unat (numOfLogicThread srv)"
    by (rule GetTargetThreadId_Some(2))
qed

lemma object_unique:
  assumes "reg_ok g ins srv" and "objs srv p = Some ob" and "objs srv q = Some ob'"
    and "actorId (act ob) = actorId (act ob')"
  shows "p = q"
  using assms unfolding reg_ok_def objects_ok_def by blast

text \<open>Finding a session gives a session object of that id, which belongs to that thread.\<close>

lemma FindSession_entry:
  assumes "reg_ok g ins srv" and "FindSession i t srv = Some (Some p)"
  shows "session_entry srv ins (unat t) (i, p)" and "umap_find (sessionMap srv ! unat t) i = Some p"
    and "unat t < length (sessionMap srv)"
proof -
  show f: "umap_find (sessionMap srv ! unat t) i = Some p" and r: "unat t < length (sessionMap srv)"
    using assms(2) by (auto simp: FindSession_def in_range_def split: if_splits)
  from f have "(i, p) \<in> set (sessionMap srv ! unat t)" by (rule umap_find_in_set)
  with buckets_okD(2) [OF reg_okD(5) [OF assms(1)] r] show "session_entry srv ins (unat t) (i, p)" by blast
qed

lemma disconnect_ok:
  assumes ok: "reg_ok g ins srv" and f: "FindSession i t srv = Some (Some p)"
    and e: "EraseSession i t srv = Some srv1"
  shows "reg_ok g ins (log_event (Disconnected p) srv1)"
proof -
  note F = FindSession_entry [OF ok f]
  let ?m = "umap_erase i (sessionMap srv ! unat t)"
  let ?ms = "(sessionMap srv)[unat t := ?m]"
  have srv1: "srv1 = srv\<lparr>sessionMap := ?ms, numOfUser := numOfUser srv - 1\<rparr>"
    using e F(3) by (auto simp: EraseSession_def in_range_def)
  note B = reg_okD(5) [OF ok]
  note okm = buckets_okD(1) [OF B F(3)]
  have len: "length ?m = length (sessionMap srv ! unat t) - 1" and ne: "sessionMap srv ! unat t \<noteq> []"
    using length_umap_erase [OF okm, of i] F(2) by auto
  have other: "p' \<noteq> p" if "t' < length ?ms" "(i', p') \<in> set (?ms ! t')" for t' i' p'
  proof
    assume "p' = p"
    have mem: "(i', p) \<in> set (sessionMap srv ! t')"
      using that \<open>p' = p\<close> F(3) by (cases "t' = unat t") (auto simp: set_umap_erase)
    have "t' < length (sessionMap srv)" using that(1) by simp
    from buckets_okD(2) [OF B this mem] F(1) have "t' = unat t" "i' = i"
      by (auto simp: session_entry_def)
    with that \<open>p' = p\<close> F(3) show False by (auto simp: set_umap_erase)
  qed
  have "buckets_ok (session_entry srv ins) ?ms"
    using B okm buckets_okD(2) [OF B F(3)] by (intro buckets_ok_update) (auto simp: set_umap_erase)
  then have "buckets_ok (session_entry (log_event (Disconnected p) srv1) ins) ?ms"
    by (rule buckets_ok_mono) (use other in \<open>fastforce simp: session_entry_def log_event_def srv1\<close>)
  moreover have "buckets_ok (actor_entry (log_event (Disconnected p) srv1)) (nonNetworkActorMap srv)"
    using reg_okD(6) [OF ok] by (rule buckets_ok_mono) (simp add: actor_entry_def log_event_def srv1)
  moreover have "disconnects_ok ins (lifecycle srv @ [Disconnected p])"
    using reg_okD(7) [OF ok] F(1)
    by (auto simp: disconnects_ok_def session_entry_def filter_empty_conv)
  moreover have "numOfUser srv - 1 = int (sum_list (map length ?ms))"
    using sum_length_update [OF F(3), of ?m] len ne reg_okD(8) [OF ok]
    by (cases "sessionMap srv ! unat t") auto
  ultimately show ?thesis
    using ok unfolding reg_ok_def
    by (simp add: log_event_def srv1 queues_ok_def in_range_def)
qed

lemma release_loop_ok:
  "reg_ok g ins srv \<Longrightarrow> \<forall>(i, t) \<in> set q. unat t < unat (numOfLogicThread srv) \<Longrightarrow>
   \<exists>srv'. release_loop q srv = Some srv' \<and> reg_ok g ins srv' \<and>
     numOfLogicThread srv' = numOfLogicThread srv \<and> releaseThreadsQueue srv' = releaseThreadsQueue srv \<and>
     releaseEvents srv' = releaseEvents srv \<and> objs srv' = objs srv"
proof (induction q srv rule: release_loop.induct)
  case (1 srv)
  then show ?case by simp
next
  case (2 i t q srv)
  then have r: "in_range t (sessionMap srv)" using reg_okD(1) [OF 2(3)] by simp
  show ?case
  proof (cases "umap_find (sessionMap srv ! unat t) i")
    case None
    then have "FindSession i t srv = Some None" using r by (simp add: FindSession_def)
    with 2 show ?thesis by simp
  next
    case (Some p)
    then have f: "FindSession i t srv = Some (Some p)" using r by (simp add: FindSession_def)
    obtain srv1 where e: "EraseSession i t srv = Some srv1" using r by (simp add: EraseSession_def)
    have s1: "numOfLogicThread srv1 = numOfLogicThread srv" "releaseThreadsQueue srv1 = releaseThreadsQueue srv"
      "releaseEvents srv1 = releaseEvents srv" "objs srv1 = objs srv"
      using e by (auto simp: EraseSession_def split: if_splits)
    from 2(2) [OF f _ e] disconnect_ok [OF 2(3) f e] 2(4) s1 f e show ?thesis
      by (auto simp: log_event_def)
  qed
qed

lemma reg_okI_core:
  assumes "reg_ok g ins srv" and "numOfLogicThread srv' = numOfLogicThread srv"
    and "sessionMap srv' = sessionMap srv" and "nonNetworkActorMap srv' = nonNetworkActorMap srv"
    and "numOfUser srv' = numOfUser srv" and "lifecycle srv' = lifecycle srv"
    and "serverIsStop srv' = serverIsStop srv"
    and "\<And>p. map_option obj_info (objs srv' p) = map_option obj_info (objs srv p)"
    and "length (releaseThreadsQueue srv') = length (releaseThreadsQueue srv)" and "queues_ok srv'"
  shows "reg_ok g ins srv'"
proof -
  have info: "\<exists>ob. objs srv p = Some ob \<and> obj_info ob = obj_info ob'" if "objs srv' p = Some ob'" for p ob'
    using assms(8) [of p] that by (cases "objs srv p") auto
  have info': "\<exists>ob'. objs srv' p = Some ob' \<and> obj_info ob' = obj_info ob" if "objs srv p = Some ob" for p ob
    using assms(8) [of p] that by (cases "objs srv' p") auto
  have "objects_ok (numOfLogicThread srv) g (objs srv')"
    unfolding objects_ok_def
  proof (intro conjI allI impI)
    fix p ob' assume "objs srv' p = Some ob'"
    with info obtain ob where o: "objs srv p = Some ob" and i: "obj_info ob = obj_info ob'" by blast
    have "unat (actorId (act ob)) \<le> unat g \<and>
        GetTargetThreadId (numOfLogicThread srv) (actorId (act ob)) = Some (threadId (act ob))"
      using reg_okD(4) [OF assms(1)] o unfolding objects_ok_def by blast
    with i show "unat (actorId (act ob')) \<le> unat g"
      and "GetTargetThreadId (numOfLogicThread srv) (actorId (act ob')) = Some (threadId (act ob'))"
      by (simp_all add: obj_info_def)
  next
    fix p q ob ob' assume "objs srv' p = Some ob \<and> objs srv' q = Some ob' \<and> actorId (act ob) = actorId (act ob')"
    then obtain o1 o2 where "objs srv p = Some o1" "objs srv q = Some o2" "actorId (act o1) = actorId (act o2)"
      using info [of p ob] info [of q ob'] by (auto simp: obj_info_def)
    then show "p = q" by (rule object_unique [OF assms(1)])
  qed
  moreover have "buckets_ok (session_entry srv' ins) (sessionMap srv)"
    using reg_okD(5) [OF assms(1)]
    by (rule buckets_ok_mono) (use info' assms(6) in \<open>fastforce simp: session_entry_def obj_info_def\<close>)
  moreover have "buckets_ok (actor_entry srv') (nonNetworkActorMap srv)"
    using reg_okD(6) [OF assms(1)]
    by (rule buckets_ok_mono) (use info' in \<open>fastforce simp: actor_entry_def obj_info_def\<close>)
  ultimately show ?thesis using assms by (simp add: reg_ok_def)
qed

lemma insert_ok:
  assumes ok: "reg_ok g ins srv" and p: "objs srv p = Some ob" "kind ob = SessionKind" "p \<notin> ins"
    and i: "InsertSession p srv = Some srv'"
  shows "reg_ok g (insert p ins) srv'"
proof -
  let ?t = "unat (threadId (act ob))"
  let ?i = "actorId (act ob)"
  note rng = object_range(2) [OF ok p(1)]
  have lt: "?t < length (sessionMap srv)" using rng ok by (simp add: reg_ok_def)
  let ?ms = "(sessionMap srv)[?t := umap_emplace ?i p (sessionMap srv ! ?t)]"
  have srv': "srv' = srv\<lparr>sessionMap := ?ms, numOfUser := numOfUser srv + 1\<rparr>"
    using i p(1) lt by (simp add: InsertSession_def in_range_def Let_def)
  note B = reg_okD(5) [OF ok]
  note okm = buckets_okD(1) [OF B lt]
  have none: "umap_find (sessionMap srv ! ?t) ?i = None"
  proof (rule ccontr)
    assume "umap_find (sessionMap srv ! ?t) ?i \<noteq> None"
    then obtain q where "(?i, q) \<in> set (sessionMap srv ! ?t)" using umap_find_in_set by fastforce
    from buckets_okD(2) [OF B lt this] object_unique [OF ok p(1), of q] p(3)
    show False by (auto simp: session_entry_def)
  qed
  have nd: "Disconnected p \<notin> set (lifecycle srv)"
    using reg_okD(7) [OF ok] p(3) by (auto simp: disconnects_ok_def)
  have "buckets_ok (session_entry srv (insert p ins)) (sessionMap srv)"
    using B by (rule buckets_ok_mono) (auto simp: session_entry_def)
  then have "buckets_ok (session_entry srv (insert p ins)) ?ms"
  proof (rule buckets_ok_update)
    show "umap_ok (umap_emplace ?i p (sessionMap srv ! ?t))" using okm by simp
    show "session_entry srv (insert p ins) ?t e" if "e \<in> set (umap_emplace ?i p (sessionMap srv ! ?t))" for e
      using subsetD [OF set_umap_emplace that] nd p buckets_okD(2) [OF B lt, of e] by (auto simp: session_entry_def)
  qed
  then have "buckets_ok (session_entry srv' (insert p ins)) ?ms"
    by (rule buckets_ok_mono) (simp add: session_entry_def srv')
  moreover have "buckets_ok (actor_entry srv') (nonNetworkActorMap srv)"
    using reg_okD(6) [OF ok] by (rule buckets_ok_mono) (simp add: actor_entry_def srv')
  moreover have "disconnects_ok (insert p ins) (lifecycle srv)"
    using reg_okD(7) [OF ok] by (auto simp: disconnects_ok_def)
  moreover have "numOfUser srv + 1 = int (sum_list (map length ?ms))"
    using sum_length_update [OF lt, of "umap_emplace ?i p (sessionMap srv ! ?t)"] none reg_okD(8) [OF ok]
    by (simp add: length_umap_emplace)
  ultimately show ?thesis
    using ok unfolding reg_ok_def by (simp add: srv' queues_ok_def)
qed

lemma actors_update_ok:
  assumes ok: "reg_ok g ins srv" and lt: "unat t < length (nonNetworkActorMap srv)"
    and "umap_ok m" and "\<And>e. e \<in> set m \<Longrightarrow> actor_entry srv (unat t) e"
    and ev: "\<And>p. e \<noteq> Disconnected p"
  shows "reg_ok g ins (log_event e (srv\<lparr>nonNetworkActorMap := (nonNetworkActorMap srv)[unat t := m]\<rparr>))"
    (is "reg_ok g ins ?srv")
proof -
  have "buckets_ok (actor_entry srv) ((nonNetworkActorMap srv)[unat t := m])"
    using reg_okD(6) [OF ok] assms(3,4) by (rule buckets_ok_update)
  then have "buckets_ok (actor_entry ?srv) ((nonNetworkActorMap srv)[unat t := m])"
    by (rule buckets_ok_mono) (simp add: actor_entry_def log_event_def)
  moreover have "buckets_ok (session_entry ?srv ins) (sessionMap srv)"
    using reg_okD(5) [OF ok]
    by (rule buckets_ok_mono) (use ev in \<open>auto simp: session_entry_def log_event_def\<close>)
  moreover have "disconnects_ok ins (lifecycle srv @ [e])"
    using reg_okD(7) [OF ok] ev by (auto simp: disconnects_ok_def)
  ultimately show ?thesis
    using ok unfolding reg_ok_def by (simp add: log_event_def queues_ok_def)
qed

lemma lifecycle_call_ok:
  assumes ok: "reg_ok g ins srv" and ev: "\<And>p. e \<noteq> Disconnected p"
  shows "reg_ok g ins (log_event e srv)"
proof -
  have lt: "unat (0 :: u8) < length (nonNetworkActorMap srv)" using ok by (simp add: reg_ok_def)
  have "reg_ok g ins (log_event e (srv\<lparr>nonNetworkActorMap := (nonNetworkActorMap srv)
      [unat (0 :: u8) := nonNetworkActorMap srv ! unat (0 :: u8)]\<rparr>))"
    using buckets_okD [OF reg_okD(6) [OF ok] lt] by (intro actors_update_ok [OF ok lt] ev)
  then show ?thesis by simp
qed

lemma register_ok:
  assumes ok: "reg_ok g ins srv" and p: "objs srv p = Some ob" "kind ob \<noteq> SessionKind"
    and r: "RegisterNonNetworkActor p srv = Some srv'"
  shows "reg_ok g ins srv'"
proof (cases "isTesterActor ob")
  case True
  with assms show ?thesis by (simp add: RegisterNonNetworkActor_def)
next
  case False
  let ?t = "threadId (act ob)"
  have lt: "unat ?t < length (nonNetworkActorMap srv)"
    using object_range(2) [OF ok p(1)] ok by (simp add: reg_ok_def)
  note B = reg_okD(6) [OF ok]
  have "reg_ok g ins (log_event (ActorCreated p) (srv\<lparr>nonNetworkActorMap := (nonNetworkActorMap srv)
      [unat ?t := umap_emplace (actorId (act ob)) p (nonNetworkActorMap srv ! unat ?t)]\<rparr>))"
  proof (rule actors_update_ok [OF ok lt])
    show "umap_ok (umap_emplace (actorId (act ob)) p (nonNetworkActorMap srv ! unat ?t))"
      using buckets_okD(1) [OF B lt] by simp
    show "actor_entry srv (unat ?t) e"
      if "e \<in> set (umap_emplace (actorId (act ob)) p (nonNetworkActorMap srv ! unat ?t))" for e
      using subsetD [OF set_umap_emplace that] buckets_okD(2) [OF B lt] p by (auto simp: actor_entry_def)
  qed simp
  then show ?thesis
    using r False p lt by (simp add: RegisterNonNetworkActor_def core_RegisterNonNetworkActor_def in_range_def)
qed

lemma unregister_ok:
  assumes ok: "reg_ok g ins srv" and p: "objs srv p = Some ob"
    and r: "UnregisterNonNetworkActor p srv = Some srv'"
  shows "reg_ok g ins srv'"
proof (cases "isTesterActor ob \<or> umap_find (nonNetworkActorMap srv ! unat (threadId (act ob))) (actorId (act ob)) = None")
  case True
  with assms show ?thesis
    by (auto simp: UnregisterNonNetworkActor_def core_UnregisterNonNetworkActor_def split: if_splits)
next
  case False
  let ?t = "threadId (act ob)"
  have lt: "unat ?t < length (nonNetworkActorMap srv)"
    using object_range(2) [OF ok p] ok by (simp add: reg_ok_def)
  note B = reg_okD(6) [OF ok]
  have "reg_ok g ins (log_event (ActorDestroyed p) (srv\<lparr>nonNetworkActorMap := (nonNetworkActorMap srv)
      [unat ?t := umap_erase (actorId (act ob)) (nonNetworkActorMap srv ! unat ?t)]\<rparr>))"
    using buckets_okD [OF B lt]
    by (intro actors_update_ok [OF ok lt]) (auto simp: set_umap_erase)
  then show ?thesis
    using r False p lt
    by (auto simp: UnregisterNonNetworkActor_def core_UnregisterNonNetworkActor_def in_range_def)
qed

lemma release_request_ok:
  assumes ok: "reg_ok g ins srv" and r: "ReleaseSession i t srv = Some srv'"
  shows "reg_ok g ins srv'"
proof -
  have lt: "unat t < unat (numOfLogicThread srv)" and lq: "unat t < length (releaseThreadsQueue srv)"
    using r reg_okD(3) [OF ok, of t] by (auto simp: ReleaseSession_def in_range_def split: if_splits)
  let ?q = "queue_push (i, t) (releaseThreadsQueue srv ! unat t)"
  have srv': "srv' = srv\<lparr>releaseThreadsQueue := (releaseThreadsQueue srv)[unat t := ?q],
      releaseEvents := (releaseEvents srv)[unat t := True]\<rparr>"
    using r by (auto simp: ReleaseSession_def split: if_splits)
  have old: "\<forall>(i, t) \<in> set q. unat t < unat (numOfLogicThread srv)" if "q \<in> set (releaseThreadsQueue srv)" for q
    using ok that by (simp add: reg_ok_def queues_ok_def)
  have new: "\<forall>(i, t) \<in> set ?q. unat t < unat (numOfLogicThread srv)"
    using old [of "releaseThreadsQueue srv ! unat t"] lq lt by (auto simp: queue_push_def)
  have "queues_ok srv'"
    unfolding queues_ok_def srv'
  proof (intro ballI)
    fix q x assume "q \<in> set (releaseThreadsQueue (srv\<lparr>releaseThreadsQueue :=
        (releaseThreadsQueue srv)[unat t := ?q], releaseEvents := (releaseEvents srv)[unat t := True]\<rparr>))"
      and x: "x \<in> set q"
    then have "q = ?q \<or> q \<in> set (releaseThreadsQueue srv)"
      using set_update_subset_insert [of "releaseThreadsQueue srv" "unat t" ?q] by auto
    with old new x show "case x of (i, t') \<Rightarrow> unat t' < unat (numOfLogicThread (srv\<lparr>releaseThreadsQueue :=
        (releaseThreadsQueue srv)[unat t := ?q], releaseEvents := (releaseEvents srv)[unat t := True]\<rparr>))"
      by auto
  qed
  then show ?thesis
    by (intro reg_okI_core [OF ok]) (use r in \<open>auto simp: ReleaseSession_def split: if_splits\<close>)
qed

lemma release_iteration_ok:
  assumes ok: "reg_ok g ins srv" and lt: "unat t < unat (numOfLogicThread srv)"
  shows "\<exists>srv'. release_iteration t ReleaseSignalled srv = Some srv' \<and> reg_ok g ins srv'"
proof -
  let ?srv = "srv\<lparr>releaseEvents := (releaseEvents srv)[unat t := False]\<rparr>"
  have ok': "reg_ok g ins ?srv" using ok by (rule reg_okI_core) (use ok in \<open>auto simp: reg_ok_def queues_ok_def\<close>)
  have lq: "unat t < length (releaseThreadsQueue srv)" using lt ok by (simp add: reg_ok_def)
  then have "releaseThreadsQueue srv ! unat t \<in> set (releaseThreadsQueue srv)" by simp
  then have "\<forall>(i, t') \<in> set (releaseThreadsQueue srv ! unat t). unat t' < unat (numOfLogicThread ?srv)"
    using ok by (auto simp: reg_ok_def queues_ok_def)
  from release_loop_ok [OF ok' this] obtain srv' where
    l: "release_loop (releaseThreadsQueue srv ! unat t) ?srv = Some srv'" and ok2: "reg_ok g ins srv'" by blast
  let ?srv' = "srv'\<lparr>releaseThreadsQueue := (releaseThreadsQueue srv')[unat t := []]\<rparr>"
  have "queues_ok ?srv'"
    using ok2 set_update_subset_insert [of "releaseThreadsQueue srv'" "unat t" "[]"]
    by (fastforce simp: reg_ok_def queues_ok_def)
  then have "reg_ok g ins ?srv'" by (intro reg_okI_core [OF ok2]) auto
  with l lq show ?thesis by (simp add: release_iteration_def in_range_def)
qed

section \<open>Runs\<close>

definition registry_kept :: "'h server \<Rightarrow> 'h server \<Rightarrow> bool" where
  "registry_kept srv srv' \<longleftrightarrow>
     numOfLogicThread srv' = numOfLogicThread srv \<and> sessionMap srv' = sessionMap srv \<and>
     nonNetworkActorMap srv' = nonNetworkActorMap srv \<and> numOfUser srv' = numOfUser srv \<and>
     lifecycle srv' = lifecycle srv \<and> serverIsStop srv' = serverIsStop srv \<and>
     releaseThreadsQueue srv' = releaseThreadsQueue srv \<and>
     (\<forall>p. map_option obj_info (objs srv' p) = map_option obj_info (objs srv p))"

definition reg_init :: "'h reg_sys \<Rightarrow> bool" where
  "reg_init s \<longleftrightarrow> idGen s = 0 \<and> inserted s = {} \<and> objs (core s) = Map.empty \<and>
     0 < unat (numOfLogicThread (core s)) \<and> numOfUser (core s) = 0 \<and> lifecycle (core s) = [] \<and>
     \<not> serverIsStop (core s) \<and>
     sessionMap (core s) = replicate (unat (numOfLogicThread (core s))) [] \<and>
     nonNetworkActorMap (core s) = replicate (unat (numOfLogicThread (core s))) [] \<and>
     releaseThreadsQueue (core s) = replicate (unat (numOfLogicThread (core s))) []"

text \<open>
  The accept thread inserts every session it creates once (\<open>insert_session\<close>); \<open>messages\<close> stands for
  everything that only runs or sends messages, the wake-ups of the logic threads among it;
  \<open>lifecycle_call\<close> is a call of \<open>OnActorCreated\<close> or \<open>OnActorDestroyed\<close> of a session. A pass of a release
  thread is one step here, and the stop event is not signalled; \<open>ReleaseThreads\<close> takes the pass apart
  and adds what the release threads do when they are stopped.
\<close>

inductive reg_step :: "'h reg_sys \<Rightarrow> 'h reg_sys \<Rightarrow> bool" where
  construct: "unat (idGen s) < 2 ^ 64 - 1 \<Longrightarrow> objs (core s) p = None \<Longrightarrow>
     Actor_ctor (numOfLogicThread (core s)) (idGen s) = Some (a, g) \<Longrightarrow>
     reg_step s (s\<lparr>core := (core s)\<lparr>objs := (objs (core s))(p \<mapsto> \<lparr>act = a, kind = k, isTesterActor = b\<rparr>)\<rparr>,
                   idGen := g\<rparr>)"
| insert_session: "objs (core s) p = Some ob \<Longrightarrow> kind ob = SessionKind \<Longrightarrow> p \<notin> inserted s \<Longrightarrow>
     InsertSession p (core s) = Some c \<Longrightarrow>
     reg_step s (s\<lparr>core := c, inserted := insert p (inserted s)\<rparr>)"
| release_session: "objs (core s) p = Some ob \<Longrightarrow>
     ReleaseSession (actorId (act ob)) (threadId (act ob)) (core s) = Some c \<Longrightarrow>
     reg_step s (s\<lparr>core := c\<rparr>)"
| release_thread: "unat t < unat (numOfLogicThread (core s)) \<Longrightarrow>
     release_iteration t ReleaseSignalled (core s) = Some c \<Longrightarrow> reg_step s (s\<lparr>core := c\<rparr>)"
| register_actor: "objs (core s) p = Some ob \<Longrightarrow> kind ob \<noteq> SessionKind \<Longrightarrow>
     RegisterNonNetworkActor p (core s) = Some c \<Longrightarrow> reg_step s (s\<lparr>core := c\<rparr>)"
| unregister_actor: "UnregisterNonNetworkActor p (core s) = Some c \<Longrightarrow> reg_step s (s\<lparr>core := c\<rparr>)"
| messages: "registry_kept (core s) c \<Longrightarrow> reg_step s (s\<lparr>core := c\<rparr>)"
| lifecycle_call: "(\<And>p. e \<noteq> Disconnected p) \<Longrightarrow> reg_step s (s\<lparr>core := log_event e (core s)\<rparr>)"
| reorder_sessions: "t < length (sessionMap (core s)) \<Longrightarrow> mset m = mset (sessionMap (core s) ! t) \<Longrightarrow>
     reg_step s (s\<lparr>core := (core s)\<lparr>sessionMap := (sessionMap (core s))[t := m]\<rparr>\<rparr>)"
| reorder_actors: "t < length (nonNetworkActorMap (core s)) \<Longrightarrow>
     mset m = mset (nonNetworkActorMap (core s) ! t) \<Longrightarrow>
     reg_step s (s\<lparr>core := (core s)\<lparr>nonNetworkActorMap := (nonNetworkActorMap (core s))[t := m]\<rparr>\<rparr>)"

definition reg_inv :: "'h reg_sys \<Rightarrow> bool" where
  "reg_inv s \<longleftrightarrow> reg_ok (idGen s) (inserted s) (core s) \<and>
     (\<forall>p \<in> inserted s. objs (core s) p \<noteq> None)"

text \<open>An entry of a release queue is in the queue of its own thread.\<close>

definition queue_placed :: "'h server \<Rightarrow> bool" where
  "queue_placed srv \<longleftrightarrow>
     (\<forall>u < length (releaseThreadsQueue srv). \<forall>e \<in> set (releaseThreadsQueue srv ! u). unat (snd e) = u)"

lemma construct_ok:
  assumes ok: "reg_ok g ins srv" and lt: "unat g < 2 ^ 64 - 1" and p: "objs srv p = None"
    and c: "Actor_ctor (numOfLogicThread srv) g = Some (a, g')"
  shows "reg_ok g' ins (srv\<lparr>objs := (objs srv)(p \<mapsto> \<lparr>act = a, kind = k, isTesterActor = b\<rparr>)\<rparr>)"
    (is "reg_ok g' ins ?srv")
proof -
  have a: "actorId a = g + 1" "g' = g + 1"
    and t: "GetTargetThreadId (numOfLogicThread srv) (g + 1) = Some (threadId a)"
    using c by (auto simp: Actor_ctor_def GenerateActorId_def new_actor_def Let_def split: option.splits)
  have g: "unat (g + 1) = Suc (unat g)" using lt by (intro unat_Suc_no_wrap) simp
  have old: "unat (actorId (act ob)) \<le> unat g" if "objs srv q = Some ob" for q ob
    using reg_okD(4) [OF ok] that unfolding objects_ok_def by blast
  have "objects_ok (numOfLogicThread srv) (g + 1) (objs ?srv)"
    unfolding objects_ok_def
  proof (intro conjI allI impI)
    fix q ob assume q: "objs ?srv q = Some ob"
    show "unat (actorId (act ob)) \<le> unat (g + 1)"
      using q old [of q ob] a g by (cases "q = p") auto
    show "GetTargetThreadId (numOfLogicThread srv) (actorId (act ob)) = Some (threadId (act ob))"
      using q object_range(1) [OF ok, of q ob] a t by (cases "q = p") auto
  next
    fix q r ob ob' assume *: "objs ?srv q = Some ob \<and> objs ?srv r = Some ob' \<and> actorId (act ob) = actorId (act ob')"
    have new: "actorId (act ob'') \<noteq> g + 1" if "objs srv q' = Some ob''" for q' ob''
      using old [OF that] g by auto
    show "q = r"
      using * new [of q ob] new [of r ob'] a object_unique [OF ok, of q ob r ob']
      by (cases "q = p"; cases "r = p") auto
  qed
  moreover have "buckets_ok (session_entry ?srv ins) (sessionMap srv)"
    using reg_okD(5) [OF ok] by (rule buckets_ok_mono) (use p in \<open>auto simp: session_entry_def\<close>)
  moreover have "buckets_ok (actor_entry ?srv) (nonNetworkActorMap srv)"
    using reg_okD(6) [OF ok] by (rule buckets_ok_mono) (use p in \<open>auto simp: actor_entry_def\<close>)
  ultimately show ?thesis using ok a by (simp add: reg_ok_def queues_ok_def)
qed

lemma objs_kept:
  "InsertSession p srv = Some c \<Longrightarrow> objs c = objs srv"
  "ReleaseSession i t srv = Some c \<Longrightarrow> objs c = objs srv"
  "RegisterNonNetworkActor p srv = Some c \<Longrightarrow> objs c = objs srv"
  "UnregisterNonNetworkActor p srv = Some c \<Longrightarrow> objs c = objs srv"
  by (auto simp: InsertSession_def ReleaseSession_def RegisterNonNetworkActor_def log_event_def
      UnregisterNonNetworkActor_def core_RegisterNonNetworkActor_def core_UnregisterNonNetworkActor_def Let_def
      split: option.splits if_splits)

lemma release_loop_objs: "release_loop q srv = Some c \<Longrightarrow> objs c = objs srv"
  by (induction q srv rule: release_loop.induct)
    (auto simp: EraseSession_def log_event_def split: option.splits if_splits)

lemma release_iteration_objs: "release_iteration t ReleaseSignalled srv = Some c \<Longrightarrow> objs c = objs srv"
  by (auto simp: release_iteration_def dest!: release_loop_objs split: if_splits)

lemma permute_bucket:
  assumes "buckets_ok P ms" and "t < length ms" and "mset m = mset (ms ! t)"
  shows "buckets_ok P (ms[t := m])" and "sum_list (map length (ms[t := m])) = sum_list (map length ms)"
proof -
  have "set m = set (ms ! t)" using assms(3) by (metis set_mset_mset)
  then show "buckets_ok P (ms[t := m])"
    using umap_find_perm(1) [OF buckets_okD(1) [OF assms(1,2)] assms(3)] buckets_okD(2) [OF assms(1,2)]
    by (intro buckets_ok_update [OF assms(1)]) auto
  have "length m = length (ms ! t)" using assms(3) by (metis size_mset)
  with sum_length_update [OF assms(2), of m]
  show "sum_list (map length (ms[t := m])) = sum_list (map length ms)" by simp
qed

lemma reg_step_inv: "reg_step s t \<Longrightarrow> reg_inv s \<Longrightarrow> reg_inv t"
proof (induction rule: reg_step.induct)
  case (construct s p a g k b)
  then show ?case by (auto simp: reg_inv_def intro: construct_ok)
next
  case (insert_session s p ob c)
  then show ?case by (auto simp: reg_inv_def objs_kept intro: insert_ok)
next
  case (release_session s p ob c)
  then show ?case by (auto simp: reg_inv_def objs_kept intro: release_request_ok)
next
  case (release_thread t s c)
  then obtain c' where "release_iteration t ReleaseSignalled (core s) = Some c'"
    and "reg_ok (idGen s) (inserted s) c'"
    using release_iteration_ok unfolding reg_inv_def by blast
  with release_thread(2) have "reg_ok (idGen s) (inserted s) c" by simp
  with release_thread show ?case by (simp add: reg_inv_def release_iteration_objs)
next
  case (register_actor s p ob c)
  then show ?case by (auto simp: reg_inv_def objs_kept intro: register_ok)
next
  case (unregister_actor p s c)
  then obtain ob where "objs (core s) p = Some ob"
    by (auto simp: UnregisterNonNetworkActor_def split: option.splits)
  with unregister_actor show ?case by (auto simp: reg_inv_def objs_kept intro: unregister_ok)
next
  case (messages s c)
  then have ok: "reg_ok (idGen s) (inserted s) (core s)" by (simp add: reg_inv_def)
  have "queues_ok c" using ok messages(1) by (simp add: reg_ok_def queues_ok_def registry_kept_def)
  then have "reg_ok (idGen s) (inserted s) c"
    using messages(1) unfolding registry_kept_def by (intro reg_okI_core [OF ok]) simp_all
  moreover have "objs c p \<noteq> None" if "objs (core s) p \<noteq> None" for p
    using messages(1) that unfolding registry_kept_def by (metis option.map_disc_iff)
  ultimately show ?case using messages(2) by (simp add: reg_inv_def)
next
  case (lifecycle_call e s)
  then show ?case using lifecycle_call_ok [of _ _ "core s" e] by (simp add: reg_inv_def) (simp add: log_event_def)
next
  case (reorder_sessions t s m)
  then have ok: "reg_ok (idGen s) (inserted s) (core s)" by (simp add: reg_inv_def)
  note P = permute_bucket [OF reg_okD(5) [OF ok] reorder_sessions(1,2)]
  let ?c = "(core s)\<lparr>sessionMap := (sessionMap (core s))[t := m]\<rparr>"
  have "buckets_ok (session_entry ?c (inserted s)) (sessionMap ?c)"
    using P(1) by (simp add: session_entry_def [abs_def])
  moreover have "buckets_ok (actor_entry ?c) (nonNetworkActorMap ?c)"
    using reg_okD(6) [OF ok] by (simp add: actor_entry_def [abs_def])
  ultimately have "reg_ok (idGen s) (inserted s) ?c"
    using ok P(2) by (simp add: reg_ok_def queues_ok_def)
  with reorder_sessions show ?case by (simp add: reg_inv_def)
next
  case (reorder_actors t s m)
  then have ok: "reg_ok (idGen s) (inserted s) (core s)" by (simp add: reg_inv_def)
  note P = permute_bucket [OF reg_okD(6) [OF ok] reorder_actors(1,2)]
  let ?c = "(core s)\<lparr>nonNetworkActorMap := (nonNetworkActorMap (core s))[t := m]\<rparr>"
  have "buckets_ok (session_entry ?c (inserted s)) (sessionMap ?c)"
    using reg_okD(5) [OF ok] by (simp add: session_entry_def [abs_def])
  moreover have "buckets_ok (actor_entry ?c) (nonNetworkActorMap ?c)"
    using P(1) by (simp add: actor_entry_def [abs_def])
  ultimately have "reg_ok (idGen s) (inserted s) ?c"
    using ok by (simp add: reg_ok_def queues_ok_def)
  with reorder_actors show ?case by (simp add: reg_inv_def)
qed

lemma reg_init_inv: "reg_init s \<Longrightarrow> reg_inv s"
  by (auto simp: reg_init_def reg_inv_def reg_ok_def objects_ok_def buckets_ok_def disconnects_ok_def
      queues_ok_def sum_list_replicate)

interpretation registry_runs: inductive_invariant reg_init reg_step reg_inv
  by unfold_locales (auto intro: reg_init_inv reg_step_inv)

section \<open>Properties of every run\<close>

lemma reach_reg_ok:
  assumes "reach reg_init reg_step s"
  shows "reg_ok (idGen s) (inserted s) (core s)"
  using registry_runs.reach_inv [OF assms] by (simp add: reg_inv_def)

lemma target_of_entry:
  assumes ok: "reg_ok g ins srv" and "objs srv p = Some ob" and "unat (threadId (act ob)) = u"
    and "GetTargetThreadId (numOfLogicThread srv) (actorId (act ob)) = Some t"
  shows "unat t = u"
  using object_range(1) [OF ok assms(2)] assms(3,4) by simp

lemma bucket_lookup:
  assumes ok: "reg_ok g ins srv" and B: "buckets_ok P ms" and len: "length ms = unat (numOfLogicThread srv)"
    and P: "\<And>u e. P u e \<Longrightarrow> \<exists>ob. objs srv (snd e) = Some ob \<and> actorId (act ob) = fst e \<and> unat (threadId (act ob)) = u"
    and t: "GetTargetThreadId (numOfLogicThread srv) i = Some t"
  shows "umap_find (ms ! unat t) i = Some p \<longleftrightarrow> (\<exists>u < length ms. (i, p) \<in> set (ms ! u))"
proof
  have lt: "unat t < length ms" using GetTargetThreadId_Some(2) [OF t] len by simp
  show "umap_find (ms ! unat t) i = Some p \<Longrightarrow> \<exists>u < length ms. (i, p) \<in> set (ms ! u)"
    using lt umap_find_in_set by fast
  assume "\<exists>u < length ms. (i, p) \<in> set (ms ! u)"
  then obtain u where u: "u < length ms" and e: "(i, p) \<in> set (ms ! u)" by blast
  from P [OF buckets_okD(2) [OF B u e]] obtain ob where "objs srv p = Some ob" "actorId (act ob) = i"
    "unat (threadId (act ob)) = u" by auto
  with target_of_entry [OF ok] t have "unat t = u" by blast
  with e umap_find_Some_iff [OF buckets_okD(1) [OF B u]] show "umap_find (ms ! unat t) i = Some p" by simp
qed

lemma target_defined:
  assumes "reg_ok g ins srv"
  obtains t where "GetTargetThreadId (numOfLogicThread srv) i = Some t"
proof -
  have "numOfLogicThread srv \<noteq> 0" using assms by (auto simp: reg_ok_def)
  then show ?thesis by (intro that) (simp add: GetTargetThreadId_def)
qed

text \<open>
  Lookup. In every run, \<open>FindActor\<close> is defined for every id and finds exactly the registered
  actors: the session, or non-network actor, of that id in whichever thread's map it is, although it
  looks only into the map of the thread the id is assigned to.
\<close>

theorem FindActor_exact:
  assumes "reach reg_init reg_step s"
  shows "\<exists>r. FindActor i b (core s) = Some r \<and>
     (r = Some p \<longleftrightarrow>
       (if b then \<exists>t < length (sessionMap (core s)). (i, p) \<in> set (sessionMap (core s) ! t)
        else \<exists>t < length (nonNetworkActorMap (core s)). (i, p) \<in> set (nonNetworkActorMap (core s) ! t)))"
proof -
  note ok = reach_reg_ok [OF assms]
  obtain t where t: "GetTargetThreadId (numOfLogicThread (core s)) i = Some t" by (rule target_defined [OF ok])
  note lt = GetTargetThreadId_Some(2) [OF t]
  have len: "length (sessionMap (core s)) = unat (numOfLogicThread (core s))"
    "length (nonNetworkActorMap (core s)) = unat (numOfLogicThread (core s))"
    using ok by (simp_all add: reg_ok_def)
  have S: "umap_find (sessionMap (core s) ! unat t) i = Some p \<longleftrightarrow>
      (\<exists>u < length (sessionMap (core s)). (i, p) \<in> set (sessionMap (core s) ! u))"
    by (rule bucket_lookup [OF ok reg_okD(5) [OF ok] len(1) _ t]) (auto simp: session_entry_def)
  have N: "umap_find (nonNetworkActorMap (core s) ! unat t) i = Some p \<longleftrightarrow>
      (\<exists>u < length (nonNetworkActorMap (core s)). (i, p) \<in> set (nonNetworkActorMap (core s) ! u))"
    by (rule bucket_lookup [OF ok reg_okD(6) [OF ok] len(2) _ t]) (auto simp: actor_entry_def)
  show ?thesis
    unfolding S [symmetric] N [symmetric]
    using t lt len by (simp add: FindActor_def FindSession_def FindNonNetworkActor_def in_range_def)
qed

lemma distinct_concat_nth:
  assumes "\<And>t. t < length ms \<Longrightarrow> distinct (ms ! t)"
    and "\<And>t t' e. t < length ms \<Longrightarrow> t' < length ms \<Longrightarrow> e \<in> set (ms ! t) \<Longrightarrow> e \<in> set (ms ! t') \<Longrightarrow> t = t'"
  shows "distinct (concat ms)"
  using assms
proof (induction ms)
  case Nil
  show ?case by simp
next
  case (Cons m ms)
  have "distinct (concat ms)"
  proof (rule Cons.IH)
    show "distinct (ms ! t)" if "t < length ms" for t using Cons.prems(1) [of "Suc t"] that by simp
    show "t = t'" if "t < length ms" "t' < length ms" "e \<in> set (ms ! t)" "e \<in> set (ms ! t')" for t t' e
      using Cons.prems(2) [of "Suc t" "Suc t'" e] that by simp
  qed
  moreover have "set m \<inter> set (concat ms) = {}"
  proof -
    have False if em: "e \<in> set m" and em': "m' \<in> set ms" "e \<in> set m'" for e m'
    proof -
      obtain u where "u < length ms" "ms ! u = m'" using em'(1) by (auto simp: in_set_conv_nth)
      then show False using Cons.prems(2) [of 0 "Suc u" e] em em' by simp
    qed
    then show ?thesis by auto
  qed
  ultimately show ?case using Cons.prems(1) [of 0] by simp
qed

lemma set_concat_nth: "e \<in> set (concat ms) \<longleftrightarrow> (\<exists>t < length ms. e \<in> set (ms ! t))"
  by (auto simp: in_set_conv_nth [of _ ms]) (metis in_set_conv_nth)

text \<open>No session object is registered twice.\<close>

lemma distinct_sessions:
  assumes "buckets_ok (session_entry srv ins) ms"
  shows "distinct (map snd (concat ms))"
proof -
  have same: "e = e' \<and> t = t'" if "t < length ms" "t' < length ms" "e \<in> set (ms ! t)" "e' \<in> set (ms ! t')"
    "snd e = snd e'" for e e' t t'
    using buckets_okD(2) [OF assms that(1,3)] buckets_okD(2) [OF assms that(2,4)] that(5)
    by (auto simp: session_entry_def prod_eq_iff)
  have "distinct (ms ! t)" if "t < length ms" for t
    using buckets_okD(1) [OF assms that] by (simp add: umap_ok_def distinct_map)
  then have "distinct (concat ms)" using same by (intro distinct_concat_nth) blast+
  moreover have "inj_on snd (set (concat ms))"
    using same by (intro inj_onI) (simp only: set_concat_nth, blast)
  ultimately show ?thesis by (simp add: distinct_map)
qed

text \<open>
  The user count. In every run in which the stop event is not signalled, \<open>GetUserCount\<close> is the number
  of registered sessions over all logic threads, each counted once; in particular it is never negative.
\<close>

theorem numOfUser_exact:
  assumes "reach reg_init reg_step s"
  shows "numOfUser (core s) = int (card {p. \<exists>i t. t < length (sessionMap (core s)) \<and>
     (i, p) \<in> set (sessionMap (core s) ! t)})"
proof -
  note ok = reach_reg_ok [OF assms]
  let ?c = "concat (sessionMap (core s))"
  have "card (snd ` set ?c) = length ?c"
    using distinct_card [OF distinct_sessions [OF reg_okD(5) [OF ok]]] by simp
  moreover have "snd ` set ?c = {p. \<exists>i t. t < length (sessionMap (core s)) \<and>
      (i, p) \<in> set (sessionMap (core s) ! t)}"
    by (auto simp only: set_concat_nth image_iff) force+
  ultimately show ?thesis using reg_okD(8) [OF ok] by (simp add: length_concat)
qed

lemma release_loop_absent:
  "release_loop q srv = Some srv' \<Longrightarrow> FindSession i t srv = Some None \<Longrightarrow> FindSession i t srv' = Some None"
proof (induction q srv rule: release_loop.induct)
  case (1 srv)
  then show ?case by simp
next
  case (2 i' t' q srv)
  have keep: "FindSession i t (log_event e srv1) = Some None" if "EraseSession i' t' srv = Some srv1" for e srv1
    using that 2(4) by (cases "unat t' = unat t")
      (auto simp: EraseSession_def FindSession_def log_event_def in_range_def store_simps split: if_splits)
  show ?case using 2 keep by (auto split: option.splits)
qed

lemma release_loop_log: "release_loop q srv = Some srv' \<Longrightarrow> \<exists>es. lifecycle srv' = lifecycle srv @ es"
  by (induction q srv rule: release_loop.induct)
    (fastforce simp: EraseSession_def log_event_def split: option.splits if_splits)+

lemma release_loop_disconnects:
  "release_loop q srv = Some srv' \<Longrightarrow> FindSession i t srv = Some (Some p) \<Longrightarrow> (i, t) \<in> set q \<Longrightarrow>
   FindSession i t srv' = Some None \<and> Disconnected p \<in> set (lifecycle srv')"
proof (induction q srv rule: release_loop.induct)
  case (1 srv)
  then show ?case by simp
next
  case (2 i' t' q srv)
  show ?case
  proof (cases "(i', t') = (i, t)")
    case True
    obtain srv1 where e: "EraseSession i t srv = Some srv1"
      and l: "release_loop q (log_event (Disconnected p) srv1) = Some srv'"
      using 2(3,4) True by (auto split: option.splits)
    have "FindSession i t (log_event (Disconnected p) srv1) = Some None"
      using e by (auto simp: EraseSession_def FindSession_def log_event_def in_range_def store_simps
          split: if_splits)
    with release_loop_absent [OF l] release_loop_log [OF l] show ?thesis by (auto simp: log_event_def)
  next
    case False
    have keep: "FindSession i t (log_event e srv1) = Some (Some p)"
      if "EraseSession i' t' srv = Some srv1" for e srv1
      using that 2(4) False by (cases "t' = t")
        (auto simp: word_unat_eq_iff EraseSession_def FindSession_def log_event_def in_range_def store_simps split: if_splits)
    show ?thesis using 2 keep False by (auto split: option.splits)
  qed
qed

lemma release_loop_threads: "release_loop q srv = Some srv' \<Longrightarrow> numOfLogicThread srv' = numOfLogicThread srv"
  by (induction q srv rule: release_loop.induct)
    (auto simp: EraseSession_def log_event_def split: option.splits if_splits)

text \<open>
  A release takes effect. At any point of a run, when the release of a registered session is
  requested and its release thread then wakes, both steps are well defined and the session is gone, its
  \<open>OnDisconnected\<close> has been called exactly once, and the thread's queue is empty.
\<close>

theorem ReleaseSession_takes_effect:
  assumes "reach reg_init reg_step s" and "FindSession i t (core s) = Some (Some p)"
  shows "\<exists>c1 c2. ReleaseSession i t (core s) = Some c1 \<and> release_iteration t ReleaseSignalled c1 = Some c2 \<and>
     FindSession i t c2 = Some None \<and>
     length (filter (\<lambda>e. e = Disconnected p) (lifecycle c2)) = 1 \<and>
     releaseThreadsQueue c2 ! unat t = []"
proof -
  note ok = reach_reg_ok [OF assms(1)]
  have lt: "unat t < unat (numOfLogicThread (core s))"
    using FindSession_entry(3) [OF ok assms(2)] ok by (simp add: reg_ok_def)
  then obtain c1 where c1: "ReleaseSession i t (core s) = Some c1"
    using reg_okD(3) [OF ok, of t] by (simp add: ReleaseSession_def)
  have ok1: "reg_ok (idGen s) (inserted s) c1" by (rule release_request_ok [OF ok c1])
  have n1: "numOfLogicThread c1 = numOfLogicThread (core s)"
    using c1 by (auto simp: ReleaseSession_def split: if_splits)
  from release_iteration_ok [OF ok1, of t] lt n1 obtain c2 where
    c2: "release_iteration t ReleaseSignalled c1 = Some c2" and ok2: "reg_ok (idGen s) (inserted s) c2" by auto
  have r: "in_range t (releaseThreadsQueue (core s))" using lt reg_okD(3) [OF ok] by simp
  then have mem: "(i, t) \<in> set (releaseThreadsQueue c1 ! unat t)"
    and f1: "FindSession i t c1 = Some (Some p)"
    using c1 assms(2)
    by (auto simp: ReleaseSession_def in_range_def queue_push_def FindSession_def split: if_splits)
  from c2 obtain c3 where l: "release_loop (releaseThreadsQueue c1 ! unat t)
      (c1\<lparr>releaseEvents := (releaseEvents c1)[unat t := False]\<rparr>) = Some c3"
    and c23: "c2 = c3\<lparr>releaseThreadsQueue := (releaseThreadsQueue c3)[unat t := []]\<rparr>"
    by (auto simp: release_iteration_def split: if_splits)
  have "FindSession i t (c1\<lparr>releaseEvents := (releaseEvents c1)[unat t := False]\<rparr>) = Some (Some p)"
    using f1 by (simp add: FindSession_def split: if_splits)
  from release_loop_disconnects [OF l this mem] have "FindSession i t c2 = Some None"
    and d: "Disconnected p \<in> set (lifecycle c2)"
    by (auto simp: c23 FindSession_def split: if_splits)
  moreover have "length (filter (\<lambda>e. e = Disconnected p) (lifecycle c2)) = 1"
    using reg_okD(7) [OF ok2] d filter_empty_conv [of "\<lambda>e. e = Disconnected p" "lifecycle c2"]
    by (auto simp: disconnects_ok_def le_Suc_eq)
  moreover have "releaseThreadsQueue c2 ! unat t = []"
  proof -
    have "unat t < length (releaseThreadsQueue c2)"
      using ok2 lt n1 release_loop_threads [OF l] by (simp add: c23 reg_ok_def)
    then show ?thesis by (simp add: c23)
  qed
  ultimately show ?thesis using c1 c2 by blast
qed


section \<open>A sample run\<close>

text \<open>Two logic threads; actors 1 and 2 are constructed as sessions and inserted.\<close>

definition server0 :: "u8 \<Rightarrow> nat server" where
  "server0 n = \<lparr>numOfLogicThread = n, numOfUser = 0, sessionMap = replicate (unat n) [],
     nonNetworkActorMap = replicate (unat n) [], releaseThreadsQueue = replicate (unat n) [],
     releaseEvents = replicate (unat n) False, serverIsStop = False, objs = Map.empty, mediators = Map.empty, steadyClock = (\<lambda>_. 0), lifecycle = []\<rparr>"

definition sample_obj :: "u64 \<Rightarrow> u8 \<Rightarrow> actor_kind \<Rightarrow> nat obj" where
  "sample_obj i t k = \<lparr>act = new_actor i t, kind = k, isTesterActor = False\<rparr>"

definition two_objs :: "actor_kind \<Rightarrow> nat reg_sys" where
  "two_objs k = \<lparr>core = (server0 2)\<lparr>objs := [0 \<mapsto> sample_obj 1 1 SessionKind, 1 \<mapsto> sample_obj 2 0 k]\<rparr>,
     idGen = 2, inserted = {}\<rparr>"

definition two_sessions :: "nat reg_sys" where
  "two_sessions = \<lparr>core = (core (two_objs SessionKind))\<lparr>sessionMap := [[(2, 1)], [(1, 0)]], numOfUser := 2\<rparr>,
     idGen = 2, inserted = {0, 1}\<rparr>"

lemma reach_two_objs: "reach reg_init reg_step (two_objs k)"
proof -
  let ?s0 = "\<lparr>core = server0 2, idGen = 0, inserted = {}\<rparr> :: nat reg_sys"
  let ?s1 = "?s0\<lparr>core := (core ?s0)\<lparr>objs := (objs (core ?s0))(0 \<mapsto>
      \<lparr>act = new_actor 1 1, kind = SessionKind, isTesterActor = False\<rparr>)\<rparr>, idGen := 1\<rparr>"
  have "reach reg_init reg_step ?s0" by (rule reach_init) (simp add: reg_init_def server0_def)
  moreover have "reg_step ?s0 ?s1"
    by (rule reg_step.construct)
      (simp_all add: server0_def Actor_ctor_def GenerateActorId_def GetTargetThreadId_def)
  ultimately have "reach reg_init reg_step ?s1" by (rule reach_step)
  moreover have "reg_step ?s1 (?s1\<lparr>core := (core ?s1)\<lparr>objs := (objs (core ?s1))(1 \<mapsto>
      \<lparr>act = new_actor 2 0, kind = k, isTesterActor = False\<rparr>)\<rparr>, idGen := 2\<rparr>)"
    by (rule reg_step.construct)
      (simp_all add: server0_def Actor_ctor_def GenerateActorId_def GetTargetThreadId_def)
  ultimately have "reach reg_init reg_step (?s1\<lparr>core := (core ?s1)\<lparr>objs := (objs (core ?s1))(1 \<mapsto>
      \<lparr>act = new_actor 2 0, kind = k, isTesterActor = False\<rparr>)\<rparr>, idGen := 2\<rparr>)"
    by (rule reach_step)
  then show ?thesis by (simp add: two_objs_def sample_obj_def server0_def)
qed

lemma replicate_2: "replicate 2 x = [x, x]"
  by (simp add: numeral_2_eq_2)

lemma reach_two_sessions: "reach reg_init reg_step two_sessions"
proof -
  let ?s0 = "two_objs SessionKind"
  let ?s1 = "?s0\<lparr>core := (core ?s0)\<lparr>sessionMap := [[], [(1, 0)]], numOfUser := 1\<rparr>,
      inserted := insert 0 (inserted ?s0)\<rparr>"
  have "reg_step ?s0 ?s1"
    by (rule reg_step.insert_session [of _ 0 "sample_obj 1 1 SessionKind"])
      (simp_all add: replicate_2 two_objs_def sample_obj_def new_actor_def InsertSession_def server0_def in_range_def
        umap_emplace_def Let_def)
  with reach_two_objs have "reach reg_init reg_step ?s1" by (rule reach_step)
  moreover have "reg_step ?s1 (?s1\<lparr>core := (core ?s1)\<lparr>sessionMap := [[(2, 1)], [(1, 0)]], numOfUser := 2\<rparr>,
      inserted := insert 1 (inserted ?s1)\<rparr>)"
    by (rule reg_step.insert_session [of _ 1 "sample_obj 2 0 SessionKind"])
      (simp_all add: replicate_2 two_objs_def sample_obj_def new_actor_def InsertSession_def server0_def in_range_def
        umap_emplace_def Let_def)
  ultimately have "reach reg_init reg_step (?s1\<lparr>core := (core ?s1)\<lparr>sessionMap := [[(2, 1)], [(1, 0)]],
      numOfUser := 2\<rparr>, inserted := insert 1 (inserted ?s1)\<rparr>)" by (rule reach_step)
  moreover have "insert 1 {0} = {0, 1 :: nat}" by auto
  ultimately show ?thesis by (simp add: two_sessions_def two_objs_def)
qed

lemmas two_sessions_simps = two_sessions_def two_objs_def server0_def in_range_def umap_find_def
  FindSession_def

text \<open>
  Stopping one release thread spoils the user count. There is a reachable state with a session on
  each of two logic threads from which \<open>EraseAllSession\<close> of the one thread sets \<open>GetUserCount\<close> to 0 while
  the session of the other is still registered, and the release of that one makes the count negative.
\<close>

theorem EraseAllSession_spoils_count:
  "\<exists>s. reach reg_init reg_step (s :: nat reg_sys) \<and>
     (case EraseAllSession 1 (core s) of
        None \<Rightarrow> False
      | Some c1 \<Rightarrow> FindSession 2 0 c1 = Some (Some 1) \<and> numOfUser c1 = 0 \<and>
          (case EraseSession 2 0 c1 of None \<Rightarrow> False | Some c2 \<Rightarrow> numOfUser c2 = - 1))"
  by (rule exI [of _ two_sessions], rule conjI, rule reach_two_sessions)
    (simp add: two_sessions_simps EraseAllSession_def EraseSession_def log_event_def)

theorem FindActor_exact_witness:
  "FindActor 2 True (core two_sessions) = Some (Some 1) \<and> FindActor 2 False (core two_sessions) \<noteq> Some (Some 1)"
proof -
  have "\<exists>t < length (sessionMap (core two_sessions)). (2, 1) \<in> set (sessionMap (core two_sessions) ! t)"
    by (rule exI [of _ 0]) (simp add: two_sessions_simps)
  moreover have "\<not> (\<exists>t < length (nonNetworkActorMap (core two_sessions)).
      (2, 1) \<in> set (nonNetworkActorMap (core two_sessions) ! t))"
    by (simp add: two_sessions_simps)
  ultimately show ?thesis
    using FindActor_exact [OF reach_two_sessions, of 2 True 1] FindActor_exact [OF reach_two_sessions, of 2 False 1]
    by auto
qed

theorem numOfUser_exact_witness:
  "int (card {p. \<exists>i t. t < length (sessionMap (core two_sessions)) \<and>
     (i, p) \<in> set (sessionMap (core two_sessions) ! t)}) = 2"
  using numOfUser_exact [OF reach_two_sessions] by (simp add: two_sessions_def)

lemma two_sessions_found: "FindSession 2 0 (core two_sessions) = Some (Some 1)"
  by (simp add: two_sessions_simps)

theorem ReleaseSession_takes_effect_witness:
  "\<exists>c1 c2. ReleaseSession 2 0 (core two_sessions) = Some c1 \<and>
     release_iteration 0 ReleaseSignalled c1 = Some c2 \<and> FindSession 2 0 c2 = Some None"
  using ReleaseSession_takes_effect [OF reach_two_sessions two_sessions_found] by blast

text \<open>
  C26. The registries are well typed. In every run, what a session map holds under an id is an existing session
  object with that id, assigned to the thread of the map, and what a map of non-network actors holds is an
  existing object that is not a session, again with its own id and thread.
\<close>

theorem registry_well_typed:
  assumes "reach reg_init reg_step s"
  shows "(\<forall>t < length (sessionMap (core s)). \<forall>(i, p) \<in> set (sessionMap (core s) ! t).
      \<exists>ob. objs (core s) p = Some ob \<and> kind ob = SessionKind \<and> actorId (act ob) = i \<and> unat (threadId (act ob)) = t) \<and>
    (\<forall>t < length (nonNetworkActorMap (core s)). \<forall>(i, p) \<in> set (nonNetworkActorMap (core s) ! t).
      \<exists>ob. objs (core s) p = Some ob \<and> kind ob \<noteq> SessionKind \<and> actorId (act ob) = i \<and> unat (threadId (act ob)) = t)"
  using reg_okD(5,6) [OF reach_reg_ok [OF assms]]
  by (fastforce simp: buckets_ok_def session_entry_def actor_entry_def)

theorem registry_well_typed_witness:
  "\<exists>ob. objs (core two_sessions) 1 = Some ob \<and> kind ob = SessionKind \<and> actorId (act ob) = 2"
proof -
  have "(2, 1) \<in> set (sessionMap (core two_sessions) ! 0)" "0 < length (sessionMap (core two_sessions))"
    by (simp_all add: two_sessions_simps)
  with registry_well_typed [OF reach_two_sessions] show ?thesis by fast
qed

end
