(* ===== verification/ReleaseThreads.thy ===== *)
theory ReleaseThreads
  imports ServerRuns
begin

text \<open>
  The release threads of \<open>ServerCore\<close> one operation at a time: \<open>FindSession\<close>, \<open>EraseSession\<close>,
  \<open>OnDisconnected\<close> and \<open>pop\<close> are separate steps, interleaved with those of the other release threads and with
  everything else the registries do, except that a thread inside its loop holds the mutex of its queue,
  so that nobody pushes to it. A thread that sees the stop event erases all sessions of its map; that
  is one step, as \<open>EraseAllSession\<close> holds the unique lock of the map all the time and every lookup waits
  for it.
\<close>

section \<open>The loop in steps\<close>

text \<open>Where a release thread is, with the locals of its loop.\<close>

datatype release_place =
    AtWait
  | AtFront
  | AtErase u64 u8 nat
  | AtDisconnect u64 u8 nat
  | AtPop

fun release_turn :: "u8 \<Rightarrow> release_place \<Rightarrow> 'h server \<Rightarrow> (release_place \<times> 'h server) option" where
  "release_turn u AtWait srv =
     (if in_range u (releaseThreadsQueue srv)
      then Some (AtFront, srv\<lparr>releaseEvents := (releaseEvents srv)[unat u := False]\<rparr>) else None)"
| "release_turn u AtFront srv =
     (case releaseThreadsQueue srv ! unat u of
        [] \<Rightarrow> Some (AtWait, srv)
      | (i, t) # q \<Rightarrow>
          (case FindSession i t srv of
             None \<Rightarrow> None
           | Some None \<Rightarrow> Some (AtPop, srv)
           | Some (Some p) \<Rightarrow> Some (AtErase i t p, srv)))"
| "release_turn u (AtErase i t p) srv = map_option (\<lambda>c. (AtDisconnect i t p, c)) (EraseSession i t srv)"
| "release_turn u (AtDisconnect i t p) srv = Some (AtPop, log_event (Disconnected p) srv)"
| "release_turn u AtPop srv =
     Some (AtFront, srv\<lparr>releaseThreadsQueue :=
       (releaseThreadsQueue srv)[unat u := tl (releaseThreadsQueue srv ! unat u)]\<rparr>)"

record 'h release_sys =
  reg :: "'h reg_sys"
  places :: "u8 \<Rightarrow> release_place"

definition rel_init :: "'h release_sys \<Rightarrow> bool" where
  "rel_init s \<longleftrightarrow> reg_init (reg s) \<and> places s = (\<lambda>_. AtWait)"

text \<open>
  \<open>others\<close>: a step of the registries that is not a pass of a release thread. The queues only grow, and a
  queue whose mutex a release thread holds stays as it is.
\<close>

inductive rel_step :: "'h release_sys \<Rightarrow> 'h release_sys \<Rightarrow> bool" where
  turn: "unat u < unat (numOfLogicThread (core (reg s))) \<Longrightarrow>
     release_turn u (places s u) (core (reg s)) = Some (pl, c) \<Longrightarrow>
     rel_step s (s\<lparr>reg := (reg s)\<lparr>core := c\<rparr>, places := (places s)(u := pl)\<rparr>)"
| erase_all: "places s u = AtWait \<Longrightarrow> release_iteration u StopSignalled (core (reg s)) = Some c \<Longrightarrow>
     rel_step s (s\<lparr>reg := (reg s)\<lparr>core := c\<rparr>\<rparr>)"
| others: "reg_step (reg s) r \<Longrightarrow>
     (\<And>v. \<exists>q. releaseThreadsQueue (core r) ! v = releaseThreadsQueue (core (reg s)) ! v @ q) \<Longrightarrow>
     (\<And>u. places s u \<noteq> AtWait \<Longrightarrow>
        releaseThreadsQueue (core r) ! unat u = releaseThreadsQueue (core (reg s)) ! unat u) \<Longrightarrow>
     rel_step s (s\<lparr>reg := r\<rparr>)"

section \<open>The user count aside\<close>

text \<open>
  \<open>EraseAllSession\<close> sets the user count to zero, whatever the other maps hold. No operation reads it, so
  the invariant of the registries is kept for the same state with the count put right.
\<close>

definition with_count :: "int \<Rightarrow> 'h server \<Rightarrow> 'h server" where
  "with_count n srv = srv\<lparr>numOfUser := n\<rparr>"

definition session_count :: "'h server \<Rightarrow> int" where
  "session_count srv = int (sum_list (map length (sessionMap srv)))"

definition recount :: "'h reg_sys \<Rightarrow> 'h reg_sys" where
  "recount s = s\<lparr>core := with_count (session_count (core s)) (core s)\<rparr>"

lemma with_count_fields [simp]:
  "sessionMap (with_count n srv) = sessionMap srv" "objs (with_count n srv) = objs srv"
  "nonNetworkActorMap (with_count n srv) = nonNetworkActorMap srv" "lifecycle (with_count n srv) = lifecycle srv"
  "releaseThreadsQueue (with_count n srv) = releaseThreadsQueue srv" "releaseEvents (with_count n srv) = releaseEvents srv"
  "numOfLogicThread (with_count n srv) = numOfLogicThread srv" "serverIsStop (with_count n srv) = serverIsStop srv"
  "numOfUser (with_count n srv) = n"
  by (simp_all add: with_count_def)

lemma recount_fields [simp]:
  "idGen (recount s) = idGen s" "inserted (recount s) = inserted s"
  "sessionMap (core (recount s)) = sessionMap (core s)" "objs (core (recount s)) = objs (core s)"
  "nonNetworkActorMap (core (recount s)) = nonNetworkActorMap (core s)"
  "lifecycle (core (recount s)) = lifecycle (core s)"
  "releaseThreadsQueue (core (recount s)) = releaseThreadsQueue (core s)"
  "numOfLogicThread (core (recount s)) = numOfLogicThread (core s)"
  by (simp_all add: recount_def)

lemma with_count_update:
  "with_count n (srv\<lparr>releaseThreadsQueue := qs\<rparr>) = (with_count n srv)\<lparr>releaseThreadsQueue := qs\<rparr>"
  "with_count n (srv\<lparr>releaseEvents := es\<rparr>) = (with_count n srv)\<lparr>releaseEvents := es\<rparr>"
  "with_count n (srv\<lparr>objs := os\<rparr>) = (with_count n srv)\<lparr>objs := os\<rparr>"
  "with_count n (srv\<lparr>sessionMap := ms\<rparr>) = (with_count n srv)\<lparr>sessionMap := ms\<rparr>"
  "with_count n (srv\<lparr>nonNetworkActorMap := ms\<rparr>) = (with_count n srv)\<lparr>nonNetworkActorMap := ms\<rparr>"
  "with_count n (with_count m srv) = with_count n srv"
  by (cases srv; simp add: with_count_def)+

lemma with_count_ops:
  "FindSession i t (with_count n srv) = FindSession i t srv"
  "log_event e (with_count n srv) = with_count n (log_event e srv)"
  "EraseSession i t (with_count n srv) = map_option (with_count (n - 1)) (EraseSession i t srv)"
  "InsertSession p (with_count n srv) = map_option (with_count (n + 1)) (InsertSession p srv)"
  "ReleaseSession i t (with_count n srv) = map_option (with_count n) (ReleaseSession i t srv)"
  "RegisterNonNetworkActor p (with_count n srv) = map_option (with_count n) (RegisterNonNetworkActor p srv)"
  "UnregisterNonNetworkActor p (with_count n srv) = map_option (with_count n) (UnregisterNonNetworkActor p srv)"
  by (auto simp: with_count_def FindSession_def log_event_def EraseSession_def InsertSession_def ReleaseSession_def
      RegisterNonNetworkActor_def UnregisterNonNetworkActor_def core_RegisterNonNetworkActor_def
      core_UnregisterNonNetworkActor_def Let_def split: option.splits)

lemma release_loop_count: "\<exists>m. release_loop q (with_count n srv) = map_option (with_count m) (release_loop q srv)"
proof (induction q srv arbitrary: n rule: release_loop.induct)
  case (1 srv)
  then show ?case by auto
next
  case (2 i t q srv)
  then show ?case by (auto simp: with_count_ops split: option.splits)
qed

lemma release_iteration_count:
  assumes "release_iteration t ReleaseSignalled srv = Some c"
  shows "\<exists>m. release_iteration t ReleaseSignalled (with_count n srv) = Some (with_count m c)"
proof -
  let ?f = "\<lambda>srv. srv\<lparr>releaseEvents := (releaseEvents srv)[unat t := False]\<rparr>"
  have "?f (with_count n srv) = with_count n (?f srv)" by (simp add: with_count_update)
  with release_loop_count [of "releaseThreadsQueue srv ! unat t" n "?f srv"] assms show ?thesis
    by (auto simp: release_iteration_def with_count_update split: if_splits)
qed

text \<open>A step of the registries is one with any other user count as well.\<close>

lemma reg_step_count:
  assumes "reg_step s r"
  shows "\<exists>m. reg_step (s\<lparr>core := with_count n (core s)\<rparr>) (r\<lparr>core := with_count m (core r)\<rparr>)"
  using assms
proof (cases rule: reg_step.cases)
  case (construct p a g k b)
  then have "reg_step (s\<lparr>core := with_count n (core s)\<rparr>) (r\<lparr>core := with_count n (core r)\<rparr>)"
    using reg_step.construct [of "s\<lparr>core := with_count n (core s)\<rparr>" p a g k b]
    by (cases s) (simp add: with_count_update)
  then show ?thesis ..
next
  case (insert_session p ob c)
  then have "reg_step (s\<lparr>core := with_count n (core s)\<rparr>) (r\<lparr>core := with_count (n + 1) (core r)\<rparr>)"
    using reg_step.insert_session [of "s\<lparr>core := with_count n (core s)\<rparr>" p ob "with_count (n + 1) c"]
    by (cases s) (simp add: with_count_ops)
  then show ?thesis ..
next
  case (release_session p ob c)
  then have "reg_step (s\<lparr>core := with_count n (core s)\<rparr>) (r\<lparr>core := with_count n (core r)\<rparr>)"
    using reg_step.release_session [of "s\<lparr>core := with_count n (core s)\<rparr>" p ob "with_count n c"]
    by (simp add: with_count_ops)
  then show ?thesis ..
next
  case (release_thread t c)
  from release_iteration_count [OF this(3)] obtain m
    where "release_iteration t ReleaseSignalled (with_count n (core s)) = Some (with_count m c)" by blast
  then have "reg_step (s\<lparr>core := with_count n (core s)\<rparr>) (r\<lparr>core := with_count m (core r)\<rparr>)"
    using reg_step.release_thread [of t "s\<lparr>core := with_count n (core s)\<rparr>" "with_count m c"] release_thread
    by simp
  then show ?thesis ..
next
  case (register_actor p ob c)
  then have "reg_step (s\<lparr>core := with_count n (core s)\<rparr>) (r\<lparr>core := with_count n (core r)\<rparr>)"
    using reg_step.register_actor [of "s\<lparr>core := with_count n (core s)\<rparr>" p ob "with_count n c"]
    by (simp add: with_count_ops)
  then show ?thesis ..
next
  case (unregister_actor p c)
  then have "reg_step (s\<lparr>core := with_count n (core s)\<rparr>) (r\<lparr>core := with_count n (core r)\<rparr>)"
    using reg_step.unregister_actor [of p "s\<lparr>core := with_count n (core s)\<rparr>" "with_count n c"]
    by (simp add: with_count_ops)
  then show ?thesis ..
next
  case (messages c)
  then have "registry_kept (with_count n (core s)) (with_count n c)" by (simp add: registry_kept_def)
  then have "reg_step (s\<lparr>core := with_count n (core s)\<rparr>) (r\<lparr>core := with_count n (core r)\<rparr>)"
    using reg_step.messages [of "s\<lparr>core := with_count n (core s)\<rparr>" "with_count n c"] messages by simp
  then show ?thesis ..
next
  case (lifecycle_call e)
  then have "reg_step (s\<lparr>core := with_count n (core s)\<rparr>) (r\<lparr>core := with_count n (core r)\<rparr>)"
    using reg_step.lifecycle_call [of e "s\<lparr>core := with_count n (core s)\<rparr>"] by (simp add: with_count_ops)
  then show ?thesis ..
next
  case (reorder_sessions t m)
  then have "reg_step (s\<lparr>core := with_count n (core s)\<rparr>) (r\<lparr>core := with_count n (core r)\<rparr>)"
    using reg_step.reorder_sessions [of t "s\<lparr>core := with_count n (core s)\<rparr>" m] by (simp add: with_count_update)
  then show ?thesis ..
next
  case (reorder_actors t m)
  then have "reg_step (s\<lparr>core := with_count n (core s)\<rparr>) (r\<lparr>core := with_count n (core r)\<rparr>)"
    using reg_step.reorder_actors [of t "s\<lparr>core := with_count n (core s)\<rparr>" m] by (simp add: with_count_update)
  then show ?thesis ..
qed

lemma reg_ok_count:
  assumes "reg_ok g ins (with_count n srv)"
  shows "n = session_count srv"
  using reg_okD(8) [OF assms] by (simp add: session_count_def)

lemma reg_step_recount:
  assumes "reg_step s r" and inv: "reg_inv (recount s)"
  shows "reg_step (recount s) (recount r)" and "reg_inv (recount r)"
proof -
  from reg_step_count [OF assms(1)] obtain m where
    st: "reg_step (recount s) (r\<lparr>core := with_count m (core r)\<rparr>)" unfolding recount_def by blast
  have i: "reg_inv (r\<lparr>core := with_count m (core r)\<rparr>)" by (rule reg_step_inv [OF st inv])
  then have "reg_ok (idGen r) (inserted r) (with_count m (core r))" by (simp add: reg_inv_def)
  from reg_ok_count [OF this] have "r\<lparr>core := with_count m (core r)\<rparr> = recount r" by (simp add: recount_def)
  with st i show "reg_step (recount s) (recount r)" and "reg_inv (recount r)" by simp_all
qed

section \<open>What the other threads leave alone\<close>

definition in_maps :: "nat \<Rightarrow> 'h server \<Rightarrow> bool" where
  "in_maps p srv \<longleftrightarrow> (\<exists>v < length (sessionMap srv). p \<in> snd ` set (sessionMap srv ! v))"

definition thread_of :: "'h server \<Rightarrow> nat \<Rightarrow> u8 option" where
  "thread_of srv p = map_option (\<lambda>ob. threadId (act ob)) (objs srv p)"

text \<open>
  What a release thread at work relies on: the session it has found stays found, the session it has
  erased stays out of the maps and undisconnected, sessions keep their thread.
\<close>

definition left_alone :: "'h reg_sys \<Rightarrow> 'h reg_sys \<Rightarrow> bool" where
  "left_alone s r \<longleftrightarrow>
     (\<forall>i t p. FindSession i t (core s) = Some (Some p) \<longrightarrow> FindSession i t (core r) = Some (Some p)) \<and>
     (\<forall>p. p \<in> inserted s \<longrightarrow> p \<in> inserted r \<and> (in_maps p (core r) \<longrightarrow> in_maps p (core s))) \<and>
     (\<forall>p. Disconnected p \<in> set (lifecycle (core r)) \<longrightarrow> Disconnected p \<in> set (lifecycle (core s))) \<and>
     (\<forall>p t. thread_of (core s) p = Some t \<longrightarrow> thread_of (core r) p = Some t) \<and>
     (queue_placed (core s) \<longrightarrow> queue_placed (core r)) \<and>
     numOfLogicThread (core r) = numOfLogicThread (core s)"

lemma left_alone_maps:
  assumes "sessionMap (core r) = sessionMap (core s)" and "inserted r = inserted s"
    and "\<And>p. Disconnected p \<in> set (lifecycle (core r)) \<Longrightarrow> Disconnected p \<in> set (lifecycle (core s))"
    and "\<And>p t. thread_of (core s) p = Some t \<Longrightarrow> thread_of (core r) p = Some t"
    and "queue_placed (core s) \<Longrightarrow> queue_placed (core r)"
    and "numOfLogicThread (core r) = numOfLogicThread (core s)"
  shows "left_alone s r"
  using assms by (simp add: left_alone_def FindSession_def in_maps_def)

lemma left_alone_queues:
  assumes "sessionMap (core r) = sessionMap (core s)" and "inserted r = inserted s"
    and "\<And>p. Disconnected p \<in> set (lifecycle (core r)) \<Longrightarrow> Disconnected p \<in> set (lifecycle (core s))"
    and "\<And>p t. thread_of (core s) p = Some t \<Longrightarrow> thread_of (core r) p = Some t"
    and "releaseThreadsQueue (core r) = releaseThreadsQueue (core s)"
    and "numOfLogicThread (core r) = numOfLogicThread (core s)"
  shows "left_alone s r"
  by (rule left_alone_maps [OF assms(1-4) _ assms(6)]) (simp_all add: queue_placed_def assms(5))

lemma insert_left_alone:
  assumes "InsertSession p (core s) = Some c" and "p \<notin> inserted s"
  shows "left_alone s (s\<lparr>core := c, inserted := insert p (inserted s)\<rparr>)"
proof -
  obtain ob where ob: "objs (core s) p = Some ob" using assms(1) by (auto simp: InsertSession_def split: option.splits)
  define u where "u = unat (threadId (act ob))"
  have lt: "u < length (sessionMap (core s))"
    and c: "c = (core s)\<lparr>sessionMap := (sessionMap (core s))[u := umap_emplace (actorId (act ob)) p (sessionMap (core s) ! u)],
      numOfUser := numOfUser (core s) + 1\<rparr>"
    using assms(1) ob by (auto simp: InsertSession_def in_range_def u_def Let_def split: if_splits)
  have "FindSession i t c = Some (Some q)" if "FindSession i t (core s) = Some (Some q)" for i t q
    using that lt by (cases "unat t = u") (auto simp: c FindSession_def in_range_def store_simps split: if_splits)
  moreover have "in_maps q (core s)" if "in_maps q c" "q \<in> inserted s" for q
  proof -
    from that(1) obtain v e where v: "v < length (sessionMap (core s))" "e \<in> set (sessionMap c ! v)" "snd e = q"
      by (auto simp: in_maps_def c)
    have "e \<in> set (sessionMap (core s) ! v)"
    proof (cases "v = u")
      case True
      with v(2) have "e \<in> set (umap_emplace (actorId (act ob)) p (sessionMap (core s) ! u))" using lt by (simp add: c)
      from subsetD [OF set_umap_emplace this] v(3) that(2) assms(2) True show ?thesis by auto
    qed (use v(2) in \<open>simp add: c\<close>)
    with v show ?thesis unfolding in_maps_def by blast
  qed
  ultimately show ?thesis by (simp add: left_alone_def c thread_of_def queue_placed_def)
qed

lemma release_request_left_alone:
  assumes "ReleaseSession i t (core s) = Some c"
  shows "left_alone s (s\<lparr>core := c\<rparr>)"
proof -
  have lt: "unat t < length (releaseThreadsQueue (core s))"
    and c: "c = (core s)\<lparr>releaseThreadsQueue := (releaseThreadsQueue (core s))
        [unat t := releaseThreadsQueue (core s) ! unat t @ [(i, t)]],
        releaseEvents := (releaseEvents (core s))[unat t := True]\<rparr>"
    using assms by (auto simp: ReleaseSession_def in_range_def queue_push_def split: if_splits)
  have "queue_placed c" if "queue_placed (core s)"
    using that lt by (auto simp: queue_placed_def c nth_list_update)
  then show ?thesis by (intro left_alone_maps) (simp_all add: c thread_of_def)
qed

lemma reorder_left_alone:
  assumes ok: "umap_ok (sessionMap (core s) ! v)" and "v < length (sessionMap (core s))"
    and m: "mset m = mset (sessionMap (core s) ! v)"
  shows "left_alone s (s\<lparr>core := (core s)\<lparr>sessionMap := (sessionMap (core s))[v := m]\<rparr>\<rparr>)"
proof -
  have set: "set m = set (sessionMap (core s) ! v)" using m by (metis set_mset_mset)
  have "in_maps p (core s)" if "in_maps p ((core s)\<lparr>sessionMap := (sessionMap (core s))[v := m]\<rparr>)" for p
    using that assms(2) set unfolding in_maps_def by (auto simp: nth_list_update split: if_splits)
  moreover have "FindSession i t ((core s)\<lparr>sessionMap := (sessionMap (core s))[v := m]\<rparr>) = FindSession i t (core s)" for i t
    using umap_find_perm(2) [OF ok m] assms(2) by (simp add: FindSession_def in_range_def nth_list_update)
  ultimately show ?thesis by (simp add: left_alone_def thread_of_def queue_placed_def)
qed

lemma reg_step_left_alone:
  assumes st: "reg_step s r" and inv: "reg_inv (recount s)"
    and grow: "\<And>v. \<exists>q. releaseThreadsQueue (core r) ! v = releaseThreadsQueue (core s) ! v @ q"
  shows "left_alone s r"
  using st
proof (cases rule: reg_step.cases)
  case (construct p a g k b)
  then show ?thesis by (intro left_alone_queues) (auto simp: thread_of_def)
next
  case (insert_session p ob c)
  then show ?thesis using insert_left_alone by blast
next
  case (release_session p ob c)
  then show ?thesis using release_request_left_alone by blast
next
  case (release_thread t c)
  have ok: "reg_ok (idGen s) (inserted s) (core (recount s))" using inv by (simp add: reg_inv_def)
  have lt: "unat t < length (releaseThreadsQueue (core s))" using ok release_thread(2) by (simp add: reg_ok_def)
  obtain c' where l: "release_loop (releaseThreadsQueue (core s) ! unat t)
      ((core s)\<lparr>releaseEvents := (releaseEvents (core s))[unat t := False]\<rparr>) = Some c'"
    and c: "c = c'\<lparr>releaseThreadsQueue := (releaseThreadsQueue c')[unat t := []]\<rparr>"
    using release_thread(3) by (auto simp: release_iteration_def split: if_splits)
  have "length (releaseThreadsQueue (core r)) = length (releaseThreadsQueue (core s))"
    using reg_step_recount(2) [OF st inv] ok release_loop_threads [OF l]
    by (simp add: reg_inv_def reg_ok_def release_thread(1) c)
  with grow [of "unat t"] lt have "releaseThreadsQueue (core s) ! unat t = []"
    by (simp add: release_thread(1) c)
  then have c': "c' = (core s)\<lparr>releaseEvents := (releaseEvents (core s))[unat t := False]\<rparr>"
    and same: "(releaseThreadsQueue (core s))[unat t := []] = releaseThreadsQueue (core s)"
    using l by (simp, metis list_update_id)
  show ?thesis unfolding release_thread(1) c c'
    by (intro left_alone_queues) (simp_all add: thread_of_def same)
next
  case (register_actor p ob c)
  then show ?thesis
    by (intro left_alone_queues) (auto simp: RegisterNonNetworkActor_def core_RegisterNonNetworkActor_def log_event_def
        thread_of_def split: option.splits if_splits)
next
  case (unregister_actor p c)
  then show ?thesis
    by (intro left_alone_queues) (auto simp: UnregisterNonNetworkActor_def core_UnregisterNonNetworkActor_def log_event_def
        thread_of_def split: option.splits if_splits)
next
  case (messages c)
  have "thread_of c p = thread_of (core s) p" for p
  proof -
    have "map_option obj_info (objs c p) = map_option obj_info (objs (core s) p)"
      using messages(2) by (simp add: registry_kept_def)
    then show ?thesis by (cases "objs c p"; cases "objs (core s) p") (simp_all add: thread_of_def obj_info_def)
  qed
  with messages show ?thesis by (intro left_alone_queues) (simp_all add: registry_kept_def)
next
  case (lifecycle_call e)
  then show ?thesis by (intro left_alone_queues) (auto simp: log_event_def thread_of_def)
next
  case (reorder_sessions t m)
  have "reg_ok (idGen s) (inserted s) (core (recount s))" using inv by (simp add: reg_inv_def)
  from buckets_okD(1) [OF reg_okD(5) [OF this], of t] reorder_sessions(2)
  have "umap_ok (sessionMap (core s) ! t)" by simp
  with reorder_sessions show ?thesis using reorder_left_alone by blast
next
  case (reorder_actors t m)
  then show ?thesis by (intro left_alone_queues) (auto simp: thread_of_def)
qed

section \<open>The operations of a release thread\<close>

lemma erase_ok:
  assumes ok: "reg_ok g ins srv" and f: "FindSession i t srv = Some (Some p)" and e: "EraseSession i t srv = Some c"
  shows "reg_ok g ins c" and "p \<in> ins" and "Disconnected p \<notin> set (lifecycle c)" and "thread_of c p = Some t"
    and "\<not> in_maps p c" and "in_maps q c \<Longrightarrow> in_maps q srv"
    and "t' \<noteq> t \<Longrightarrow> FindSession j t' c = FindSession j t' srv"
    and "lifecycle c = lifecycle srv" and "objs c = objs srv" and "releaseThreadsQueue c = releaseThreadsQueue srv"
proof -
  note F = FindSession_entry [OF ok f] and B = reg_okD(5) [OF ok]
  let ?m = "umap_erase i (sessionMap srv ! unat t)"
  let ?ms = "(sessionMap srv)[unat t := ?m]"
  have c: "c = srv\<lparr>sessionMap := ?ms, numOfUser := numOfUser srv - 1\<rparr>"
    using e F(3) by (auto simp: EraseSession_def in_range_def)
  have sub: "x \<in> set (sessionMap srv ! v)" if "v < length (sessionMap srv)" "x \<in> set (?ms ! v)" for x v
    using that F(3) by (cases "v = unat t") (auto simp: set_umap_erase)
  show "p \<in> ins" and "Disconnected p \<notin> set (lifecycle c)" and "thread_of c p = Some t"
    using F(1) by (auto simp: session_entry_def c thread_of_def word_unat_eq_iff)
  show "lifecycle c = lifecycle srv" and "objs c = objs srv" and "releaseThreadsQueue c = releaseThreadsQueue srv"
    by (simp_all add: c)
  show "in_maps q srv" if q: "in_maps q c"
  proof -
    from q obtain v x where "v < length (sessionMap srv)" "x \<in> set (?ms ! v)" "snd x = q" by (auto simp: in_maps_def c)
    with sub [of v x] show ?thesis unfolding in_maps_def by blast
  qed
  show "t' \<noteq> t \<Longrightarrow> FindSession j t' c = FindSession j t' srv"
    by (simp add: c FindSession_def in_range_def word_unat_eq_iff)
  show "\<not> in_maps p c"
  proof
    assume "in_maps p c"
    then obtain v x where v: "v < length (sessionMap srv)" "x \<in> set (?ms ! v)" "snd x = p" by (auto simp: in_maps_def c)
    from buckets_okD(2) [OF B v(1) sub [OF v(1,2)]] F(1) v(3) have "v = unat t" "fst x = i"
      by (auto simp: session_entry_def)
    with v F(3) show False by (auto simp: set_umap_erase)
  qed
  have "buckets_ok (session_entry srv ins) ?ms"
    using buckets_okD [OF B F(3)] by (intro buckets_ok_update [OF B]) (auto simp: set_umap_erase)
  then have "buckets_ok (session_entry c ins) ?ms" by (rule buckets_ok_mono) (simp add: session_entry_def c)
  moreover have "buckets_ok (actor_entry c) (nonNetworkActorMap srv)"
    using reg_okD(6) [OF ok] by (rule buckets_ok_mono) (simp add: actor_entry_def c)
  moreover have "sessionMap srv ! unat t \<noteq> []" and len: "length ?m = length (sessionMap srv ! unat t) - 1"
    using length_umap_erase [OF buckets_okD(1) [OF B F(3)], of i] F(2) by auto
  then have "numOfUser srv - 1 = int (sum_list (map length ?ms))"
    using sum_length_update [OF F(3), of ?m] reg_okD(8) [OF ok] by (cases "sessionMap srv ! unat t") auto
  ultimately show "reg_ok g ins c" using ok unfolding reg_ok_def by (simp add: c queues_ok_def)
qed

lemma disconnect_log_ok:
  assumes ok: "reg_ok g ins srv" and p: "p \<in> ins" "Disconnected p \<notin> set (lifecycle srv)" "\<not> in_maps p srv"
  shows "reg_ok g ins (log_event (Disconnected p) srv)"
proof -
  have "snd x \<noteq> p" if "v < length (sessionMap srv)" "x \<in> set (sessionMap srv ! v)" for v x
    using p(3) that by (auto simp: in_maps_def)
  then have "buckets_ok (session_entry (log_event (Disconnected p) srv) ins) (sessionMap srv)"
    by (intro buckets_ok_mono [OF reg_okD(5) [OF ok]]) (auto simp: session_entry_def log_event_def)
  moreover have "buckets_ok (actor_entry (log_event (Disconnected p) srv)) (nonNetworkActorMap srv)"
    using reg_okD(6) [OF ok] by (rule buckets_ok_mono) (simp add: actor_entry_def log_event_def)
  moreover have "disconnects_ok ins (lifecycle srv @ [Disconnected p])"
    using reg_okD(7) [OF ok] p by (auto simp: disconnects_ok_def filter_empty_conv)
  ultimately show ?thesis using ok unfolding reg_ok_def by (simp add: log_event_def queues_ok_def)
qed

lemma fold_disconnected:
  "fold (\<lambda>(_, p). log_event (Disconnected p)) m srv = srv\<lparr>lifecycle := lifecycle srv @ map (\<lambda>e. Disconnected (snd e)) m\<rparr>"
  by (induction m arbitrary: srv) (auto simp: log_event_def)

lemma EraseAllSession_eq:
  "EraseAllSession t srv =
     (if in_range t (sessionMap srv)
      then Some (srv\<lparr>lifecycle := lifecycle srv @ map (\<lambda>e. Disconnected (snd e)) (sessionMap srv ! unat t),
                    sessionMap := (sessionMap srv)[unat t := []], numOfUser := 0\<rparr>)
      else None)"
  by (simp add: EraseAllSession_def fold_disconnected Let_def)

text \<open>No two entries of the session maps hold the same session.\<close>

lemma session_entry_unique:
  assumes "buckets_ok (session_entry srv ins) (sessionMap srv)"
    and "v < length (sessionMap srv)" "x \<in> set (sessionMap srv ! v)"
    and "w < length (sessionMap srv)" "y \<in> set (sessionMap srv ! w)" and "snd x = snd y"
  shows "v = w" and "x = y"
  using buckets_okD(2) [OF assms(1,2,3)] buckets_okD(2) [OF assms(1,4,5)] assms(6)
  by (auto simp: session_entry_def prod_eq_iff)

lemma once_disconnected:
  assumes "disconnects_ok ins es" and "distinct (map snd m)"
    and "\<And>e. e \<in> set m \<Longrightarrow> snd e \<in> ins \<and> Disconnected (snd e) \<notin> set es"
  shows "disconnects_ok ins (es @ map (\<lambda>e. Disconnected (snd e)) m)"
  unfolding disconnects_ok_def
proof (intro allI conjI)
  fix p
  have new: "length (filter (\<lambda>e. e = Disconnected p) (map (\<lambda>e. Disconnected (snd e)) m)) = count_list (map snd m) p"
    by (induction m) (auto simp: eq_commute)
  have le: "distinct xs \<Longrightarrow> count_list xs p \<le> 1" for xs
    by (induction xs) auto
  show "length (filter (\<lambda>e. e = Disconnected p) (es @ map (\<lambda>e. Disconnected (snd e)) m)) \<le> 1"
  proof (cases "p \<in> snd ` set m")
    case True
    then have "Disconnected p \<notin> set es" using assms(3) by auto
    then have "filter (\<lambda>e. e = Disconnected p) es = []" by (auto simp: filter_empty_conv)
    with new le [OF assms(2)] show ?thesis by simp
  next
    case False
    then have "count_list (map snd m) p = 0" by simp
    with new show ?thesis using assms(1) by (simp add: disconnects_ok_def)
  qed
  show "Disconnected p \<in> set (es @ map (\<lambda>e. Disconnected (snd e)) m) \<longrightarrow> p \<in> ins"
    using assms(1,3) by (auto simp: disconnects_ok_def)
qed

lemma erase_all_ok:
  assumes ok: "reg_ok g ins srv" and e: "EraseAllSession t srv = Some c"
  shows "reg_ok g ins (with_count (session_count c) c)" and "in_maps q c \<Longrightarrow> in_maps q srv"
    and "t' \<noteq> t \<Longrightarrow> FindSession j t' c = FindSession j t' srv"
    and "Disconnected p \<in> set (lifecycle c) \<Longrightarrow> Disconnected p \<in> set (lifecycle srv) \<or> in_maps p srv"
    and "objs c = objs srv" and "releaseThreadsQueue c = releaseThreadsQueue srv"
    and "numOfLogicThread c = numOfLogicThread srv"
proof -
  note B = reg_okD(5) [OF ok]
  let ?m = "sessionMap srv ! unat t"
  let ?es = "lifecycle srv @ map (\<lambda>e. Disconnected (snd e)) ?m"
  let ?ms = "(sessionMap srv)[unat t := []]"
  have lt: "unat t < length (sessionMap srv)"
    and c: "c = srv\<lparr>lifecycle := ?es, sessionMap := ?ms, numOfUser := 0\<rparr>"
    using e by (auto simp: EraseAllSession_eq in_range_def split: if_splits)
  have sub: "v \<noteq> unat t \<and> x \<in> set (sessionMap srv ! v)" if "v < length (sessionMap srv)" "x \<in> set (?ms ! v)" for x v
    using that lt by (cases "v = unat t") auto
  show "in_maps q srv" if q: "in_maps q c"
  proof -
    from q obtain v x where "v < length (sessionMap srv)" "x \<in> set (?ms ! v)" "snd x = q" by (auto simp: in_maps_def c)
    with sub [of v x] show ?thesis unfolding in_maps_def by blast
  qed
  show "t' \<noteq> t \<Longrightarrow> FindSession j t' c = FindSession j t' srv"
    by (simp add: c FindSession_def in_range_def word_unat_eq_iff)
  show "Disconnected p \<in> set (lifecycle c) \<Longrightarrow> Disconnected p \<in> set (lifecycle srv) \<or> in_maps p srv"
    using lt by (auto simp: c in_maps_def)
  show "objs c = objs srv" and "releaseThreadsQueue c = releaseThreadsQueue srv"
    and "numOfLogicThread c = numOfLogicThread srv" by (simp_all add: c)
  have B': "buckets_ok (session_entry srv ins) ?ms" by (rule buckets_ok_update [OF B]) simp_all
  have out: "Disconnected (snd x) \<notin> set ?es" if v: "v < length ?ms" "x \<in> set (?ms ! v)" for v x
  proof -
    have x: "v < length (sessionMap srv)" "v \<noteq> unat t" "x \<in> set (sessionMap srv ! v)" using v sub [of v x] by auto
    have "snd x \<notin> snd ` set ?m"
    proof
      assume "snd x \<in> snd ` set ?m"
      then obtain y where "y \<in> set ?m" "snd y = snd x" by auto
      from session_entry_unique(1) [OF B lt this(1) x(1,3) this(2)] x(2) show False by simp
    qed
    moreover have "Disconnected (snd x) \<notin> set (lifecycle srv)"
      using buckets_okD(2) [OF B x(1,3)] by (simp add: session_entry_def)
    ultimately show ?thesis by (auto simp: image_iff)
  qed
  have "buckets_ok (session_entry (with_count (session_count c) c) ins) ?ms"
    using B' by (rule buckets_ok_mono) (use out in \<open>auto simp: session_entry_def c with_count_def\<close>)
  moreover have "buckets_ok (actor_entry (with_count (session_count c) c)) (nonNetworkActorMap srv)"
    using reg_okD(6) [OF ok] by (rule buckets_ok_mono) (simp add: actor_entry_def c)
  moreover have "disconnects_ok ins ?es"
  proof (rule once_disconnected [OF reg_okD(7) [OF ok]])
    have "distinct (concat (map (map snd) (sessionMap srv)))"
      using distinct_sessions [OF B] by (simp add: map_concat)
    then show "distinct (map snd ?m)" using lt by (auto dest!: distinct_concat_iff [THEN iffD1])
    show "snd x \<in> ins \<and> Disconnected (snd x) \<notin> set (lifecycle srv)" if "x \<in> set ?m" for x
      using buckets_okD(2) [OF B lt that] by (simp add: session_entry_def)
  qed
  ultimately show "reg_ok g ins (with_count (session_count c) c)"
    using ok unfolding reg_ok_def by (simp add: c queues_ok_def session_count_def)
qed

section \<open>The invariant\<close>

text \<open>
  A thread about to erase has found the session in the map of its own index; a thread about to
  disconnect has taken the session out of the maps, and nobody has disconnected it.
\<close>

fun place_ok :: "u8 \<Rightarrow> release_place \<Rightarrow> 'h reg_sys \<Rightarrow> bool" where
  "place_ok u (AtErase i t p) s \<longleftrightarrow> t = u \<and> FindSession i t (core s) = Some (Some p)"
| "place_ok u (AtDisconnect i t p) s \<longleftrightarrow> p \<in> inserted s \<and> Disconnected p \<notin> set (lifecycle (core s)) \<and>
     \<not> in_maps p (core s) \<and> thread_of (core s) p = Some u"
| "place_ok u _ s \<longleftrightarrow> True"

definition rel_inv :: "'h release_sys \<Rightarrow> bool" where
  "rel_inv s \<longleftrightarrow> reg_inv (recount (reg s)) \<and> queue_placed (core (reg s)) \<and> (\<forall>u. place_ok u (places s u) (reg s))"

lemma place_ok_left_alone: "left_alone s r \<Longrightarrow> place_ok u pl s \<Longrightarrow> place_ok u pl r"
  by (cases pl) (auto simp: left_alone_def)

lemma FindSession_in_maps: "FindSession i t srv = Some (Some p) \<Longrightarrow> in_maps p srv"
  by (auto simp: FindSession_def in_maps_def in_range_def split: if_splits dest!: umap_find_in_set)
    (metis image_eqI snd_conv)

lemma count_views [simp]:
  "in_maps p (with_count n srv) = in_maps p srv" "thread_of (with_count n srv) = thread_of srv"
  "FindSession i t (with_count n srv) = FindSession i t srv"
  by (simp_all add: in_maps_def thread_of_def [abs_def] FindSession_def)

lemma recountI:
  assumes "reg_inv (recount s)" and ok: "reg_ok (idGen s) (inserted s) (with_count n c)" and "objs c = objs (core s)"
  shows "reg_inv (recount (s\<lparr>core := c\<rparr>))"
proof -
  have "n = session_count c" using reg_ok_count [OF ok] by simp
  with assms show ?thesis by (simp add: reg_inv_def recount_def)
qed

lemma recount_ok: "reg_inv (recount s) \<Longrightarrow> reg_ok (idGen s) (inserted s) (with_count (session_count (core s)) (core s))"
  by (simp add: reg_inv_def recount_def)

text \<open>What thread \<open>u\<close> does to its own map and to sessions of its own leaves the places of the others valid.\<close>

lemma place_ok_other:
  assumes "place_ok v pl s" and "v \<noteq> u"
    and "\<And>j t. t \<noteq> u \<Longrightarrow> FindSession j t c = FindSession j t (core s)"
    and "\<And>q. in_maps q c \<Longrightarrow> in_maps q (core s)"
    and "\<And>q. Disconnected q \<in> set (lifecycle c) \<Longrightarrow>
       Disconnected q \<in> set (lifecycle (core s)) \<or> in_maps q (core s) \<or> thread_of (core s) q = Some u"
    and "objs c = objs (core s)"
  shows "place_ok v pl (s\<lparr>core := c\<rparr>)"
proof (cases pl)
  case (AtErase i t p)
  with assms(1,2) have "t \<noteq> u" "FindSession i t (core s) = Some (Some p)" "t = v" by auto
  with assms(3) show ?thesis by (simp add: AtErase)
next
  case (AtDisconnect i t p)
  with assms(1,2) have p: "p \<in> inserted s" "Disconnected p \<notin> set (lifecycle (core s))" "\<not> in_maps p (core s)"
    "thread_of (core s) p = Some v" by auto
  with assms(2) assms(5) [of p] have "Disconnected p \<notin> set (lifecycle c)" by auto
  moreover have "thread_of c p = Some v" using p(4) assms(6) by (simp add: thread_of_def)
  ultimately show ?thesis using AtDisconnect p assms(4) [of p] by auto
qed simp_all

text \<open>A step of thread \<open>u\<close>, from what it does to the registries and where it comes to.\<close>

lemma rel_invI:
  assumes inv: "rel_inv s" and ok: "reg_ok (idGen (reg s)) (inserted (reg s)) (with_count n c)"
    and o: "objs c = objs (core (reg s))" and q: "queue_placed c"
    and own: "place_ok u pl ((reg s)\<lparr>core := c\<rparr>)"
    and find: "\<And>j t. t \<noteq> u \<Longrightarrow> FindSession j t c = FindSession j t (core (reg s))"
    and maps: "\<And>q. in_maps q c \<Longrightarrow> in_maps q (core (reg s))"
    and logged: "\<And>q. Disconnected q \<in> set (lifecycle c) \<Longrightarrow> Disconnected q \<in> set (lifecycle (core (reg s))) \<or>
       in_maps q (core (reg s)) \<or> thread_of (core (reg s)) q = Some u"
  shows "rel_inv (s\<lparr>reg := (reg s)\<lparr>core := c\<rparr>, places := (places s)(u := pl)\<rparr>)"
proof -
  have "place_ok v (((places s)(u := pl)) v) ((reg s)\<lparr>core := c\<rparr>)" for v
  proof (cases "v = u")
    case False
    have "place_ok v (places s v) (reg s)" using inv by (simp add: rel_inv_def)
    from place_ok_other [OF this False find maps logged o] show ?thesis using False by simp
  qed (use own in simp)
  moreover have "reg_inv (recount ((reg s)\<lparr>core := c\<rparr>))"
    by (rule recountI [OF _ ok o]) (use inv in \<open>simp add: rel_inv_def\<close>)
  ultimately show ?thesis using q by (simp add: rel_inv_def)
qed

lemma queue_only_ok:
  assumes ok: "reg_ok g ins srv" and qs: "length qs = length (releaseThreadsQueue srv)"
    and sub: "\<And>v. v < length qs \<Longrightarrow> set (qs ! v) \<subseteq> set (releaseThreadsQueue srv ! v)"
  shows "reg_ok g ins (srv\<lparr>releaseThreadsQueue := qs, releaseEvents := es\<rparr>)"
proof (rule reg_okI_core [OF ok])
  have "queues_ok srv" using ok by (simp add: reg_ok_def)
  show "queues_ok (srv\<lparr>releaseThreadsQueue := qs, releaseEvents := es\<rparr>)"
    unfolding queues_ok_def
  proof (intro ballI)
    fix q x assume "q \<in> set (releaseThreadsQueue (srv\<lparr>releaseThreadsQueue := qs, releaseEvents := es\<rparr>))" and x: "x \<in> set q"
    then obtain v where v: "v < length qs" "qs ! v = q" by (auto simp: in_set_conv_nth)
    with sub [OF v(1)] x have "x \<in> set (releaseThreadsQueue srv ! v)" by auto
    moreover have "releaseThreadsQueue srv ! v \<in> set (releaseThreadsQueue srv)" using v(1) qs by simp
    ultimately show "case x of (i, t) \<Rightarrow> unat t < unat (numOfLogicThread (srv\<lparr>releaseThreadsQueue := qs, releaseEvents := es\<rparr>))"
      using \<open>queues_ok srv\<close> by (fastforce simp: queues_ok_def)
  qed
qed (simp_all add: qs)

lemma turn_inv:
  assumes inv: "rel_inv s" and u: "unat u < unat (numOfLogicThread (core (reg s)))"
    and t: "release_turn u (places s u) (core (reg s)) = Some (pl, c)"
  shows "rel_inv (s\<lparr>reg := (reg s)\<lparr>core := c\<rparr>, places := (places s)(u := pl)\<rparr>)"
proof -
  let ?srv = "core (reg s)" and ?n = "session_count (core (reg s))"
  have ok: "reg_ok (idGen (reg s)) (inserted (reg s)) (with_count ?n ?srv)"
    and qp: "queue_placed ?srv" and here: "place_ok u (places s u) (reg s)"
    using inv recount_ok by (auto simp: rel_inv_def)
  have lq: "unat u < length (releaseThreadsQueue ?srv)" using u ok by (simp add: reg_ok_def)
  show ?thesis
  proof (cases "places s u")
    case AtWait
    with t lq have c: "pl = AtFront" "c = ?srv\<lparr>releaseEvents := (releaseEvents ?srv)[unat u := False]\<rparr>"
      by (auto simp: in_range_def)
    have "(with_count ?n ?srv)\<lparr>releaseThreadsQueue := releaseThreadsQueue ?srv,
        releaseEvents := (releaseEvents ?srv)[unat u := False]\<rparr> = with_count ?n c"
      by (cases "core (reg s)") (simp add: c with_count_def)
    with queue_only_ok [OF ok, of "releaseThreadsQueue ?srv" "(releaseEvents ?srv)[unat u := False]"]
    have "reg_ok (idGen (reg s)) (inserted (reg s)) (with_count ?n c)" by simp
    then show ?thesis
      by (rule rel_invI [OF inv]) (use qp in \<open>simp_all add: c queue_placed_def FindSession_def in_maps_def\<close>)
  next
    case AtFront
    have "pl \<in> {AtWait, AtPop} \<or> (\<exists>i p. pl = AtErase i u p \<and> FindSession i u ?srv = Some (Some p))" and c: "c = ?srv"
    proof -
      have "t = u" if "releaseThreadsQueue ?srv ! unat u = (i, t) # q" for i t q
        using qp lq that by (auto simp: queue_placed_def word_unat_eq_iff)
      with t AtFront show "pl \<in> {AtWait, AtPop} \<or> (\<exists>i p. pl = AtErase i u p \<and> FindSession i u ?srv = Some (Some p))"
        and "c = ?srv" by (auto split: list.splits option.splits)
    qed
    then have "place_ok u pl ((reg s)\<lparr>core := c\<rparr>)" by auto
    then show ?thesis by (intro rel_invI [OF inv ok [folded c]]) (use qp in \<open>simp_all add: c\<close>)
  next
    case (AtErase i t' p)
    with here t obtain f: "FindSession i u ?srv = Some (Some p)" and e: "EraseSession i u ?srv = Some c"
      and pl: "pl = AtDisconnect i u p" and "t' = u" by auto
    have "EraseSession i u (with_count ?n ?srv) = Some (with_count (?n - 1) c)" by (simp add: with_count_ops e)
    note E = erase_ok [OF ok _ this, simplified, OF f]
    show ?thesis
      by (rule rel_invI [OF inv E(1)]) (use E qp in \<open>simp_all add: pl queue_placed_def\<close>)
  next
    case (AtDisconnect i t' p)
    with here t have p: "p \<in> inserted (reg s)" "Disconnected p \<notin> set (lifecycle ?srv)" "\<not> in_maps p ?srv"
      "thread_of ?srv p = Some u" and c: "c = log_event (Disconnected p) ?srv" "pl = AtPop" by auto
    have "reg_ok (idGen (reg s)) (inserted (reg s)) (log_event (Disconnected p) (with_count ?n ?srv))"
      by (rule disconnect_log_ok [OF ok]) (simp_all add: p)
    then have "reg_ok (idGen (reg s)) (inserted (reg s)) (with_count ?n c)" by (simp add: c with_count_ops)
    then show ?thesis
      by (rule rel_invI [OF inv])
         (use p qp in \<open>auto simp: c log_event_def queue_placed_def FindSession_def in_maps_def\<close>)
  next
    case AtPop
    let ?qs = "(releaseThreadsQueue ?srv)[unat u := tl (releaseThreadsQueue ?srv ! unat u)]"
    from t AtPop have c: "c = ?srv\<lparr>releaseThreadsQueue := ?qs\<rparr>" "pl = AtFront" by auto
    have sub: "set (?qs ! v) \<subseteq> set (releaseThreadsQueue ?srv ! v)" if "v < length ?qs" for v
      using that by (cases "v = unat u") (auto intro: list.set_sel(2))
    from queue_only_ok [OF ok, of ?qs "releaseEvents ?srv"] sub
    have "reg_ok (idGen (reg s)) (inserted (reg s)) ((with_count ?n ?srv)\<lparr>releaseThreadsQueue := ?qs, releaseEvents := releaseEvents ?srv\<rparr>)"
      by simp
    moreover have "(with_count ?n ?srv)\<lparr>releaseThreadsQueue := ?qs, releaseEvents := releaseEvents ?srv\<rparr> = with_count ?n c"
      by (cases "core (reg s)") (simp add: c with_count_def)
    ultimately have ok': "reg_ok (idGen (reg s)) (inserted (reg s)) (with_count ?n c)" by simp
    have "queue_placed c"
      unfolding queue_placed_def
    proof (intro allI impI ballI)
      fix v e assume v: "v < length (releaseThreadsQueue c)" and e: "e \<in> set (releaseThreadsQueue c ! v)"
      with sub [of v] have "e \<in> set (releaseThreadsQueue ?srv ! v)" by (auto simp: c)
      with v qp show "unat (snd e) = v" by (simp add: queue_placed_def c)
    qed
    with ok' show ?thesis by (intro rel_invI [OF inv ok']) (simp_all add: c FindSession_def in_maps_def)
  qed
qed

lemma erase_all_inv:
  assumes inv: "rel_inv s" and u: "places s u = AtWait" and e: "EraseAllSession u (core (reg s)) = Some c"
  shows "rel_inv (s\<lparr>reg := (reg s)\<lparr>core := c\<rparr>\<rparr>)"
proof -
  let ?srv = "core (reg s)" and ?n = "session_count (core (reg s))"
  have ok: "reg_ok (idGen (reg s)) (inserted (reg s)) (with_count ?n ?srv)" and qp: "queue_placed ?srv"
    using inv recount_ok by (auto simp: rel_inv_def)
  have "EraseAllSession u (with_count ?n ?srv) = Some c"
    using e by (auto simp: EraseAllSession_eq with_count_def split: if_splits)
  note E = erase_all_ok [OF ok this, simplified]
  have "rel_inv (s\<lparr>reg := (reg s)\<lparr>core := c\<rparr>, places := (places s)(u := AtWait)\<rparr>)"
    by (rule rel_invI [OF inv E(1)]) (use E qp in \<open>auto simp: queue_placed_def\<close>)
  moreover have "(places s)(u := AtWait) = places s" using u by auto
  ultimately show ?thesis by simp
qed

lemma rel_step_inv:
  assumes "rel_step s t" and inv: "rel_inv s"
  shows "rel_inv t"
  using assms(1)
proof (cases rule: rel_step.cases)
  case (turn u pl c)
  then show ?thesis using turn_inv [OF inv] by blast
next
  case (erase_all u c)
  then have "EraseAllSession u (core (reg s)) = Some c" by (simp add: release_iteration_def)
  with erase_all show ?thesis using erase_all_inv [OF inv] by blast
next
  case (others r)
  have ri: "reg_inv (recount (reg s))" and qp: "queue_placed (core (reg s))"
    and places: "\<And>u. place_ok u (places s u) (reg s)" using inv by (simp_all add: rel_inv_def)
  have alone: "left_alone (reg s) r" by (rule reg_step_left_alone [OF others(2) ri others(3)])
  have "place_ok u (places s u) r" for u by (rule place_ok_left_alone [OF alone places])
  moreover have "queue_placed r_core" if "r_core = core r" for r_core using alone qp that by (simp add: left_alone_def)
  ultimately show ?thesis using reg_step_recount(2) [OF others(2) ri] others(1) by (simp add: rel_inv_def)
qed

lemma rel_init_inv:
  assumes "rel_init s"
  shows "rel_inv s"
proof -
  have i: "reg_init (reg s)" and p: "places s = (\<lambda>_. AtWait)" using assms by (simp_all add: rel_init_def)
  have "session_count (core (reg s)) = numOfUser (core (reg s))"
    using reg_okD(8) [of "idGen (reg s)" "inserted (reg s)" "core (reg s)"] reg_init_inv [OF i]
    by (simp add: reg_inv_def session_count_def)
  then have "recount (reg s) = reg s" by (simp add: recount_def with_count_def)
  with reg_init_inv [OF i] have "reg_inv (recount (reg s))" by simp
  moreover have "queue_placed (core (reg s))" using i by (auto simp: reg_init_def queue_placed_def)
  ultimately show ?thesis using p by (simp add: rel_inv_def)
qed

interpretation release_runs: inductive_invariant rel_init rel_step rel_inv
  by unfold_locales (auto intro: rel_init_inv rel_step_inv)

text \<open>A release thread never stands before an undefined operation.\<close>

lemma release_turn_defined:
  assumes "reach rel_init rel_step s" and "unat u < unat (numOfLogicThread (core (reg s)))"
  shows "release_turn u (places s u) (core (reg s)) \<noteq> None"
proof -
  have inv: "rel_inv s" by (rule release_runs.reach_inv [OF assms(1)])
  then have ok: "reg_ok (idGen (reg s)) (inserted (reg s)) (with_count (session_count (core (reg s))) (core (reg s)))"
    and qp: "queue_placed (core (reg s))" and here: "place_ok u (places s u) (reg s)"
    using recount_ok by (auto simp: rel_inv_def)
  have r: "in_range u (sessionMap (core (reg s)))" "in_range u (releaseThreadsQueue (core (reg s)))"
    using ok assms(2) by (simp_all add: reg_ok_def in_range_def)
  have "FindSession i t (core (reg s)) \<noteq> None" if "(i, t) \<in> set (releaseThreadsQueue (core (reg s)) ! unat u)" for i t
  proof -
    have "unat t = unat u" using qp r(2) that by (fastforce simp: queue_placed_def in_range_def)
    with r(1) show ?thesis by (simp add: in_range_def FindSession_def)
  qed
  then have "FindSession i t (core (reg s)) \<noteq> None" if "releaseThreadsQueue (core (reg s)) ! unat u = (i, t) # q" for i t q
    using that by simp
  with here r show ?thesis
    by (cases "places s u") (auto simp: EraseSession_def simp del: not_None_eq split: list.split option.split)
qed

section \<open>Passes as one step\<close>

text \<open>
  \<open>ServerRuns\<close> takes a whole pass of a release thread as one step (\<open>release_iteration\<close>). Such a pass is
  what the thread does when nobody else takes a step, so the runs of \<open>ServerRuns\<close> are among those here.
\<close>

lemma release_loop_queues:
  "release_loop q (srv\<lparr>releaseThreadsQueue := qs\<rparr>) = map_option (\<lambda>c. c\<lparr>releaseThreadsQueue := qs\<rparr>) (release_loop q srv)"
proof (induction q srv rule: release_loop.induct)
  case (1 srv)
  then show ?case by simp
next
  case (2 i t q srv)
  have f: "FindSession i t (srv\<lparr>releaseThreadsQueue := qs\<rparr>) = FindSession i t srv" by (simp add: FindSession_def)
  have e: "EraseSession i t (srv\<lparr>releaseThreadsQueue := qs\<rparr>) =
      map_option (\<lambda>c. c\<lparr>releaseThreadsQueue := qs\<rparr>) (EraseSession i t srv)"
    by (cases srv) (simp add: EraseSession_def)
  have l: "log_event ev (c\<lparr>releaseThreadsQueue := qs\<rparr>) = (log_event ev c)\<lparr>releaseThreadsQueue := qs\<rparr>" for ev c
    by (cases c) (simp add: log_event_def)
  show ?case using 2 by (simp add: f e l option.map_comp o_def split: option.split)
qed

lemma EraseSession_queues: "EraseSession i t srv = Some c \<Longrightarrow> releaseThreadsQueue c = releaseThreadsQueue srv"
  by (auto simp: EraseSession_def split: if_splits)

lemma three_steps:
  "rel_step s1 s2 \<Longrightarrow> rel_step\<^sup>*\<^sup>* s2 s3 \<Longrightarrow> rel_step s3 s4 \<Longrightarrow> rel_step\<^sup>*\<^sup>* s1 s4"
  by (rule rtranclp.rtrancl_into_rtrancl [OF converse_rtranclp_into_rtranclp])

lemma release_turns:
  assumes "unat u < unat (numOfLogicThread (core (reg s)))" and "places s u = AtFront"
    and "unat u < length (releaseThreadsQueue (core (reg s)))"
    and "releaseThreadsQueue (core (reg s)) ! unat u = q" and "release_loop q (core (reg s)) = Some c"
  shows "rel_step\<^sup>*\<^sup>* s (s\<lparr>reg := (reg s)\<lparr>core := c\<lparr>releaseThreadsQueue :=
    (releaseThreadsQueue (core (reg s)))[unat u := []]\<rparr>\<rparr>\<rparr>)"
  using assms
proof (induction q arbitrary: s c)
  case Nil
  then have "c = core (reg s)" and "(releaseThreadsQueue (core (reg s)))[unat u := []] = releaseThreadsQueue (core (reg s))"
    by (simp, metis list_update_id)
  then show ?case by simp
next
  case (Cons e q)
  obtain i t where e: "e = (i, t)" by fastforce
  let ?srv = "core (reg s)"
  let ?qs = "(releaseThreadsQueue ?srv)[unat u := q]"
  let ?to = "\<lambda>pl c. s\<lparr>reg := (reg s)\<lparr>core := c\<rparr>, places := (places s)(u := pl)\<rparr>"
  have again: "(places s)(u := AtFront) = places s" using Cons.prems(2) by auto
  have pop: "rel_step\<^sup>*\<^sup>* s (s\<lparr>reg := (reg s)\<lparr>core := c\<lparr>releaseThreadsQueue :=
      (releaseThreadsQueue ?srv)[unat u := []]\<rparr>\<rparr>\<rparr>)"
    if to: "rel_step\<^sup>*\<^sup>* s (?to AtPop c1)" and c1: "releaseThreadsQueue c1 = releaseThreadsQueue ?srv"
      "numOfLogicThread c1 = numOfLogicThread ?srv" "release_loop q c1 = Some c" for c1
  proof -
    have tl: "c1\<lparr>releaseThreadsQueue := (releaseThreadsQueue c1)[unat u := tl (releaseThreadsQueue c1 ! unat u)]\<rparr> =
        c1\<lparr>releaseThreadsQueue := ?qs\<rparr>" using Cons.prems(4) c1(1) by simp
    have "rel_step (?to AtPop c1) ((?to AtPop c1)\<lparr>reg := (reg (?to AtPop c1))\<lparr>core := c1\<lparr>releaseThreadsQueue := ?qs\<rparr>\<rparr>,
        places := (places (?to AtPop c1))(u := AtFront)\<rparr>)"
      by (rule rel_step.turn) (use Cons.prems(1) c1(2) tl in simp_all)
    also have "\<dots> = s\<lparr>reg := (reg s)\<lparr>core := c1\<lparr>releaseThreadsQueue := ?qs\<rparr>\<rparr>\<rparr>" by (simp add: again)
    also have "rel_step\<^sup>*\<^sup>* \<dots> (s\<lparr>reg := (reg s)\<lparr>core := c\<lparr>releaseThreadsQueue := (releaseThreadsQueue ?srv)[unat u := []]\<rparr>\<rparr>\<rparr>)"
      using Cons.IH [of "s\<lparr>reg := (reg s)\<lparr>core := c1\<lparr>releaseThreadsQueue := ?qs\<rparr>\<rparr>\<rparr>"
          "c\<lparr>releaseThreadsQueue := ?qs\<rparr>"] Cons.prems(1-3) c1(2,3) by (simp add: release_loop_queues)
    finally have rest: "rel_step\<^sup>*\<^sup>* (?to AtPop c1) (s\<lparr>reg := (reg s)\<lparr>core := c\<lparr>releaseThreadsQueue :=
        (releaseThreadsQueue ?srv)[unat u := []]\<rparr>\<rparr>\<rparr>)" .
    show ?thesis by (rule rtranclp_trans [OF to rest])
  qed
  show ?case
  proof (cases "FindSession i t ?srv")
    case None
    with Cons.prems(5) e show ?thesis by simp
  next
    case (Some r)
    show ?thesis
    proof (cases r)
      case None
      have "rel_step s (?to AtPop ?srv)"
        by (rule rel_step.turn) (use Cons.prems(1,2,4) e Some None in simp_all)
      then have "rel_step\<^sup>*\<^sup>* s (?to AtPop ?srv)" ..
      then show ?thesis by (rule pop) (use Cons.prems(5) e Some None in simp_all)
    next
      case found: (Some p)
      with Cons.prems(5) e Some obtain c1 where er: "EraseSession i t ?srv = Some c1"
        and l: "release_loop q (log_event (Disconnected p) c1) = Some c" by (auto split: option.splits)
      have n1: "numOfLogicThread c1 = numOfLogicThread ?srv" using er by (auto simp: EraseSession_def split: if_splits)
      have t1: "rel_step s (?to (AtErase i t p) ?srv)"
        by (rule rel_step.turn) (use Cons.prems(1,2,4) e Some found in simp_all)
      have t2: "rel_step (?to (AtErase i t p) ?srv) (?to (AtDisconnect i t p) c1)"
        using rel_step.turn [of u "?to (AtErase i t p) ?srv" "AtDisconnect i t p" c1] Cons.prems(1) er by simp
      have t3: "rel_step (?to (AtDisconnect i t p) c1) (?to AtPop (log_event (Disconnected p) c1))"
        using rel_step.turn [of u "?to (AtDisconnect i t p) c1" AtPop "log_event (Disconnected p) c1"]
          Cons.prems(1) n1 by simp
      show ?thesis
        by (rule pop [OF three_steps [of s "?to (AtErase i t p) ?srv" "?to (AtDisconnect i t p) c1"
            "?to AtPop (log_event (Disconnected p) c1)", OF t1 r_into_rtranclp [of rel_step, OF t2] t3]])
          (use l n1 EraseSession_queues [OF er] in \<open>simp_all add: log_event_def\<close>)
    qed
  qed
qed

lemma release_pass_steps:
  assumes u: "unat u < unat (numOfLogicThread (core (reg s)))" and w: "places s u = AtWait"
    and i: "release_iteration u ReleaseSignalled (core (reg s)) = Some c"
  shows "rel_step\<^sup>*\<^sup>* s (s\<lparr>reg := (reg s)\<lparr>core := c\<rparr>\<rparr>)"
proof -
  let ?srv = "(core (reg s))\<lparr>releaseEvents := (releaseEvents (core (reg s)))[unat u := False]\<rparr>"
  let ?s1 = "s\<lparr>reg := (reg s)\<lparr>core := ?srv\<rparr>, places := (places s)(u := AtFront)\<rparr>"
  obtain c1 where r: "in_range u (releaseThreadsQueue (core (reg s)))"
    and l: "release_loop (releaseThreadsQueue (core (reg s)) ! unat u) ?srv = Some c1"
    and c: "c = c1\<lparr>releaseThreadsQueue := (releaseThreadsQueue c1)[unat u := []]\<rparr>"
    using i by (auto simp: release_iteration_def split: if_splits)
  have "c1 = c1\<lparr>releaseThreadsQueue := releaseThreadsQueue (core (reg s))\<rparr>"
    using l release_loop_queues [where q = "releaseThreadsQueue (core (reg s)) ! unat u"
      and srv = ?srv and qs = "releaseThreadsQueue (core (reg s))"] by simp
  then have "releaseThreadsQueue c1 = releaseThreadsQueue (c1\<lparr>releaseThreadsQueue := releaseThreadsQueue (core (reg s))\<rparr>)"
    by (rule arg_cong)
  then have q1: "releaseThreadsQueue c1 = releaseThreadsQueue (core (reg s))" by simp
  let ?s2 = "?s1\<lparr>reg := (reg ?s1)\<lparr>core := c\<rparr>\<rparr>"
  have t1: "rel_step s ?s1" by (rule rel_step.turn [OF u]) (use w r in simp)
  have t2: "rel_step\<^sup>*\<^sup>* ?s1 ?s2"
    using release_turns [of u ?s1 _ c1] u r l by (simp add: c q1 in_range_def)
  have t3: "rel_step ?s2 (?s2\<lparr>reg := (reg ?s2)\<lparr>core := c\<rparr>, places := (places ?s2)(u := AtWait)\<rparr>)"
    by (rule rel_step.turn)
      (use u r release_loop_threads [OF l] in \<open>simp_all add: c q1 in_range_def\<close>)
  have "?s2\<lparr>reg := (reg ?s2)\<lparr>core := c\<rparr>, places := (places ?s2)(u := AtWait)\<rparr> = s\<lparr>reg := (reg s)\<lparr>core := c\<rparr>\<rparr>"
    using w by (cases s) (simp add: fun_upd_idem)
  with three_steps [of s ?s1 ?s2, OF t1 t2 t3] show ?thesis by (simp only:)
qed

text \<open>Every other step of the registries leaves the queues or adds to one.\<close>

lemma reg_step_queues:
  assumes "reg_step s r"
  shows "(\<exists>t c. unat t < unat (numOfLogicThread (core s)) \<and>
       release_iteration t ReleaseSignalled (core s) = Some c \<and> r = s\<lparr>core := c\<rparr>) \<or>
     (\<forall>v. \<exists>q. releaseThreadsQueue (core r) ! v = releaseThreadsQueue (core s) ! v @ q)"
  using assms
proof (cases rule: reg_step.cases)
  case (release_thread t c)
  then show ?thesis by blast
next
  case (insert_session p ob c)
  then have "releaseThreadsQueue (core r) = releaseThreadsQueue (core s)"
    by (auto simp: InsertSession_def Let_def split: if_splits)
  then show ?thesis by simp
next
  case (release_session p ob c)
  then show ?thesis
    by (auto simp: ReleaseSession_def queue_push_def in_range_def nth_list_update split: if_splits)
next
  case (register_actor p ob c)
  then have "releaseThreadsQueue (core r) = releaseThreadsQueue (core s)"
    by (auto simp: RegisterNonNetworkActor_def core_RegisterNonNetworkActor_def log_event_def split: if_splits)
  then show ?thesis by simp
next
  case (unregister_actor p c)
  then have "releaseThreadsQueue (core r) = releaseThreadsQueue (core s)"
    by (auto simp: UnregisterNonNetworkActor_def core_UnregisterNonNetworkActor_def log_event_def
        split: option.splits if_splits)
  then show ?thesis by simp
qed (simp_all add: registry_kept_def log_event_def)

lemma atomic_runs_included:
  assumes "reach reg_init reg_step r"
  shows "reach rel_init rel_step \<lparr>reg = r, places = (\<lambda>_. AtWait)\<rparr>"
  using assms
proof (induction rule: reach.induct)
  case (reach_init r)
  then show ?case by (intro reach.reach_init) (simp add: rel_init_def)
next
  case (reach_step r r')
  let ?s = "\<lparr>reg = r, places = (\<lambda>_. AtWait)\<rparr>"
  from reg_step_queues [OF reach_step(2)] have "rel_step\<^sup>*\<^sup>* ?s \<lparr>reg = r', places = (\<lambda>_. AtWait)\<rparr>"
  proof (elim disjE exE conjE)
    fix t c assume t: "unat t < unat (numOfLogicThread (core r))"
      "release_iteration t ReleaseSignalled (core r) = Some c" "r' = r\<lparr>core := c\<rparr>"
    then show ?thesis using release_pass_steps [of t ?s c] by simp
  next
    assume "\<forall>v. \<exists>q. releaseThreadsQueue (core r') ! v = releaseThreadsQueue (core r) ! v @ q"
    then have "rel_step ?s (?s\<lparr>reg := r'\<rparr>)" by (intro rel_step.others) (use reach_step(2) in simp_all)
    then show ?thesis by simp
  qed
  then show ?case using reach_step.IH by (rule reach_rtranclp [rotated])
qed

section \<open>Disconnection\<close>

text \<open>
  C12. Disconnection happens once, and only after the session is out of reach. In every run, with the
  release threads interleaved operation by operation and also after the stop event, \<open>OnDisconnected\<close> is called
  at most once for each session, however often its release is requested and whether a release thread
  or \<open>EraseAllSession\<close> gets to it; from the moment it is called the session is not found any more, not even
  before its release thread goes on to the next entry.
\<close>

theorem session_disconnected_once:
  assumes "reach rel_init rel_step s"
  shows "length (filter (\<lambda>e. e = Disconnected p) (lifecycle (core (reg s)))) \<le> 1 \<and>
     \<not> (Disconnected p \<in> set (lifecycle (core (reg s))) \<and> FindSession i t (core (reg s)) = Some (Some p))"
proof -
  have "reg_inv (recount (reg s))" using release_runs.reach_inv [OF assms] by (simp add: rel_inv_def)
  from recount_ok [OF this] have ok: "reg_ok (idGen (reg s)) (inserted (reg s))
      (with_count (session_count (core (reg s))) (core (reg s)))" .
  show ?thesis
    using reg_okD(7) [OF ok] FindSession_entry(1) [OF ok, of i t p]
    by (auto simp: disconnects_ok_def session_entry_def)
qed

text \<open>
  One logic thread and one session, whose release is requested and carried out up to the call of
  \<open>OnDisconnected\<close>.
\<close>

definition sample_rel ::
  "(nat \<rightharpoonup> nat obj) \<Rightarrow> u64 \<Rightarrow> nat set \<Rightarrow> (u64, nat) umap \<Rightarrow> (u64 \<times> u8) list \<Rightarrow> bool \<Rightarrow>
     lifecycle_event list \<Rightarrow> release_place \<Rightarrow> nat release_sys" where
  "sample_rel os g ins m q ev lc pl =
     \<lparr>reg = \<lparr>core = (server0 1)\<lparr>numOfUser := int (length m), sessionMap := [m], releaseThreadsQueue := [q],
        releaseEvents := [ev], objs := os, lifecycle := lc\<rparr>, idGen = g, inserted = ins\<rparr>,
      places = (\<lambda>_. AtWait)(0 := pl)\<rparr>"

abbreviation one_session :: "nat \<rightharpoonup> nat obj" where
  "one_session \<equiv> [0 \<mapsto> sample_obj 1 0 SessionKind]"

lemma sample_rel_reg:
  assumes "reg_step (reg (sample_rel os g ins m q ev lc AtWait)) (reg (sample_rel os' g' ins' m' (q @ q') ev' lc' AtWait))"
  shows "rel_step (sample_rel os g ins m q ev lc AtWait) (sample_rel os' g' ins' m' (q @ q') ev' lc' AtWait)"
proof -
  have "\<exists>x. [q @ q'] ! v = [q] ! v @ x" for v by (cases v) auto
  with rel_step.others [OF assms] show ?thesis by (simp add: sample_rel_def)
qed

lemma sample_rel_turn:
  assumes "release_turn 0 pl (core (reg (sample_rel os g ins m q ev lc pl))) =
     Some (pl', core (reg (sample_rel os g ins m' q' ev' lc' pl')))"
  shows "rel_step (sample_rel os g ins m q ev lc pl) (sample_rel os g ins m' q' ev' lc' pl')"
  using rel_step.turn [of 0 "sample_rel os g ins m q ev lc pl", OF _ ] assms
  by (simp add: sample_rel_def server0_def)

lemma sample_rel_run:
  "reach rel_init rel_step (sample_rel one_session 1 {0} [] [(1, 0)] False [Disconnected 0] AtPop)"
proof -
  have "reach rel_init rel_step (sample_rel Map.empty 0 {} [] [] False [] AtWait)"
    by (rule reach_init) (auto simp: rel_init_def reg_init_def sample_rel_def server0_def)
  moreover have "rel_step (sample_rel Map.empty 0 {} [] [] False [] AtWait) (sample_rel one_session 1 {} [] [] False [] AtWait)"
    by (rule sample_rel_reg [where q = "[]" and q' = "[]", unfolded append_Nil])
      (use reg_step.construct [of "reg (sample_rel Map.empty 0 {} [] [] False [] AtWait)" 0 "new_actor 1 0" 1 SessionKind False] in
        \<open>simp add: sample_rel_def server0_def Actor_ctor_def GenerateActorId_def GetTargetThreadId_def sample_obj_def\<close>)
  ultimately have "reach rel_init rel_step (sample_rel one_session 1 {} [] [] False [] AtWait)" by (rule reach_step)
  moreover have "rel_step (sample_rel one_session 1 {} [] [] False [] AtWait) (sample_rel one_session 1 {0} [(1, 0)] [] False [] AtWait)"
    by (rule sample_rel_reg [where q = "[]" and q' = "[]", unfolded append_Nil])
      (use reg_step.insert_session [of "reg (sample_rel one_session 1 {} [] [] False [] AtWait)" 0 "sample_obj 1 0 SessionKind"] in
        \<open>simp add: sample_rel_def server0_def InsertSession_def sample_obj_def new_actor_def in_range_def
          umap_emplace_def Let_def\<close>)
  ultimately have "reach rel_init rel_step (sample_rel one_session 1 {0} [(1, 0)] [] False [] AtWait)" by (rule reach_step)
  moreover have "rel_step (sample_rel one_session 1 {0} [(1, 0)] [] False [] AtWait)
      (sample_rel one_session 1 {0} [(1, 0)] [(1, 0)] True [] AtWait)"
    by (rule sample_rel_reg [where q = "[]" and q' = "[(1, 0)]", unfolded append_Nil])
      (use reg_step.release_session [of "reg (sample_rel one_session 1 {0} [(1, 0)] [] False [] AtWait)" 0 "sample_obj 1 0 SessionKind"] in
        \<open>simp add: sample_rel_def server0_def ReleaseSession_def sample_obj_def new_actor_def in_range_def queue_push_def\<close>)
  ultimately have "reach rel_init rel_step (sample_rel one_session 1 {0} [(1, 0)] [(1, 0)] True [] AtWait)" by (rule reach_step)
  moreover have "rel_step (sample_rel one_session 1 {0} [(1, 0)] [(1, 0)] True [] AtWait)
      (sample_rel one_session 1 {0} [(1, 0)] [(1, 0)] False [] AtFront)"
    by (rule sample_rel_turn) (simp add: sample_rel_def in_range_def)
  ultimately have "reach rel_init rel_step (sample_rel one_session 1 {0} [(1, 0)] [(1, 0)] False [] AtFront)" by (rule reach_step)
  moreover have "rel_step (sample_rel one_session 1 {0} [(1, 0)] [(1, 0)] False [] AtFront)
      (sample_rel one_session 1 {0} [(1, 0)] [(1, 0)] False [] (AtErase 1 0 0))"
    by (rule sample_rel_turn) (simp add: sample_rel_def in_range_def FindSession_def umap_find_def)
  ultimately have "reach rel_init rel_step (sample_rel one_session 1 {0} [(1, 0)] [(1, 0)] False [] (AtErase 1 0 0))" by (rule reach_step)
  moreover have "rel_step (sample_rel one_session 1 {0} [(1, 0)] [(1, 0)] False [] (AtErase 1 0 0))
      (sample_rel one_session 1 {0} [] [(1, 0)] False [] (AtDisconnect 1 0 0))"
    by (rule sample_rel_turn) (simp add: sample_rel_def in_range_def EraseSession_def umap_erase_filter)
  ultimately have "reach rel_init rel_step (sample_rel one_session 1 {0} [] [(1, 0)] False [] (AtDisconnect 1 0 0))" by (rule reach_step)
  moreover have "rel_step (sample_rel one_session 1 {0} [] [(1, 0)] False [] (AtDisconnect 1 0 0))
      (sample_rel one_session 1 {0} [] [(1, 0)] False [Disconnected 0] AtPop)"
    by (rule sample_rel_turn) (simp add: sample_rel_def log_event_def)
  ultimately show ?thesis by (rule reach_step)
qed

theorem session_disconnected_once_witness:
  "\<exists>s :: nat release_sys. reach rel_init rel_step s \<and> Disconnected 0 \<in> set (lifecycle (core (reg s))) \<and>
     places s 0 = AtPop \<and> FindSession 1 0 (core (reg s)) \<noteq> Some (Some 0)"
  using session_disconnected_once [OF sample_rel_run, of 0 1 0] sample_rel_run
  by (intro exI [of _ "sample_rel one_session 1 {0} [] [(1, 0)] False [Disconnected 0] AtPop"])
    (simp add: sample_rel_def)

end
