(* ===== verification/LogicThreads.thy ===== *)
theory LogicThreads
  imports ServerRuns
begin

text \<open>
  What a logic thread does to the mailboxes, with the timer functions of the program's own classes.
  Message handlers are arbitrary, except that they touch the mailboxes of other actors only by sending
  to them (\<open>sends_only\<close>) and their own only through \<open>SendMessage\<close> (\<open>consumer_private\<close>).
\<close>

text \<open>The mailbox of \<open>p\<close> has lost nothing: its class and \<open>consumerQueue\<close> are the same, \<open>storeQueue\<close> grew.\<close>

definition mail_kept :: "nat \<Rightarrow> 'h server \<Rightarrow> 'h server \<Rightarrow> bool" where
  "mail_kept p srv srv' \<longleftrightarrow>
     (case objs srv p of
        None \<Rightarrow> True
      | Some ob \<Rightarrow> (\<exists>ob' ms. objs srv' p = Some ob' \<and> kind ob' = kind ob \<and>
          consumerQueue (act ob') = consumerQueue (act ob) \<and> storeQueue (act ob') = storeQueue (act ob) @ ms))"

definition sends_only :: "('h, 'h server) executor \<Rightarrow> bool" where
  "sends_only exec \<longleftrightarrow> (\<forall>f args a w p. mail_kept p w (snd (final (exec f args (a, w)))))"

lemma mail_kept_refl: "mail_kept p srv srv"
  by (auto simp: mail_kept_def split: option.splits)

lemma mail_kept_trans:
  assumes "mail_kept p s1 s2" and "mail_kept p s2 s3"
  shows "mail_kept p s1 s3"
  using assms by (fastforce simp: mail_kept_def split: option.splits)

lemma run_message_mail:
  assumes "sends_only exec"
  shows "mail_kept p w (snd (final (run_message exec m (a, w))))"
  using assms by (cases m) (auto simp: sends_only_def mail_kept_refl)

lemma run_batch_mail:
  assumes "sends_only exec"
  shows "mail_kept p w (snd (final (fst (run_batch exec ms (a, w)))))"
proof (induction ms arbitrary: a w)
  case Nil
  show ?case by (simp add: mail_kept_refl)
next
  case (Cons m ms)
  obtain a' w' where f: "final (run_message exec m (a, w)) = (a', w')" by fastforce
  have "mail_kept p w w'" using run_message_mail [OF assms, of p w m a] f by simp
  with Cons.IH [of w' a'] Cons.IH [of w a] f show ?case
    by (auto simp: Let_def intro: mail_kept_trans)
qed

lemma ProcessMessage_mail:
  assumes "sends_only exec" and "consumer_private exec" and "ProcessMessage exec (a, w) = Some r"
  shows "mail_kept p w (snd (final r))"
proof (cases "isStop a")
  case True
  with assms(3) show ?thesis by (auto simp: ProcessMessage_def mail_kept_refl)
next
  case False
  let ?a = "swap_queues a"
  have "ProcessMessage exec (a, w) = ProcessLoop exec (?a, w)"
    using False by (simp add: ProcessMessage_def)
  also have "\<dots> = Some (map_outcome (apfst (set_consumer (snd (run_batch exec (consumerQueue ?a) (?a, w)))))
      (fst (run_batch exec (consumerQueue ?a) (?a, w))))"
    using ProcessLoop_run_batch [OF assms(2), of "consumerQueue ?a" ?a w] by (simp add: case_prod_beta)
  finally have "r = map_outcome (apfst (set_consumer (snd (run_batch exec (consumerQueue ?a) (?a, w)))))
      (fst (run_batch exec (consumerQueue ?a) (?a, w)))"
    using assms(3) by simp
  then show ?thesis using run_batch_mail [OF assms(1), of p w "consumerQueue ?a" ?a] by simp
qed

lemma timer_hook_mail:
  assumes "sends_only exec" and "consumer_private exec"
    and "objs srv p = Some ob" and "kind ob \<noteq> SessionKind"
    and "timer_hook exec ph q srv = Some srv'"
  shows "mail_kept p srv srv'"
proof (cases "\<exists>ob'. objs srv q = Some ob' \<and> ph = OnTimerPhase \<and> kind ob' = SessionKind")
  case False
  have "mail_kept p srv srv1" if "MediatorBase_OnTimer q srv = Some srv1" for srv1
    using that by (auto simp: MediatorBase_OnTimer_def mail_kept_def split: option.splits)
  with False assms(5) show ?thesis
    by (auto simp: timer_hook_def mail_kept_refl split: option.splits if_splits actor_kind.splits)
next
  case True
  then obtain ob' where q: "objs srv q = Some ob'" "kind ob' = SessionKind" "ph = OnTimerPhase" by blast
  with assms(3,4) have ne: "q \<noteq> p" by auto
  from assms(5) q obtain a w where r: "ProcessMessage exec (act ob', srv) = Some (Done (a, w))"
    and srv': "srv' = w\<lparr>objs := (objs w)(q \<mapsto> ob'\<lparr>act := a\<rparr>)\<rparr>"
    by (auto simp: timer_hook_def Session_OnTimer_def split: option.splits outcome.splits)
  have "mail_kept p srv w" using ProcessMessage_mail [OF assms(1,2) r] by simp
  then show ?thesis using ne by (auto simp: mail_kept_def srv' split: option.splits)
qed

text \<open>An actor that is not a session, and hooks that keep its mail.\<close>

definition plain :: "nat \<Rightarrow> 'h server \<Rightarrow> bool" where
  "plain p srv \<longleftrightarrow> (\<exists>ob. objs srv p = Some ob \<and> kind ob \<noteq> SessionKind)"

definition hook_keeps :: "nat \<Rightarrow> (nat \<Rightarrow> 'h server \<Rightarrow> 'h server option) \<Rightarrow> bool" where
  "hook_keeps p f \<longleftrightarrow> (\<forall>q s s'. plain p s \<and> f q s = Some s' \<longrightarrow> mail_kept p s s')"

lemma plain_next: "plain p s \<Longrightarrow> mail_kept p s s' \<Longrightarrow> plain p s'"
  by (auto simp: plain_def mail_kept_def)

lemma run_hooks_mail:
  assumes "hook_keeps p f"
  shows "run_hooks f ps s = Some s' \<Longrightarrow> plain p s \<Longrightarrow> mail_kept p s s'"
proof (induction ps arbitrary: s)
  case Nil
  then show ?case by (simp add: mail_kept_refl)
next
  case (Cons q ps)
  from Cons.prems(1) obtain s1 where s1: "f q s = Some s1" and r: "run_hooks f ps s1 = Some s'"
    by (auto split: option.splits)
  have k: "mail_kept p s s1" using assms Cons.prems(2) s1 unfolding hook_keeps_def by blast
  show ?case by (rule mail_kept_trans [OF k Cons.IH [OF r plain_next [OF Cons.prems(2) k]]])
qed

lemma wake_phase_mail:
  assumes "hook_keeps p (hook ph)" and "wake_phase hook ph t srv = Some srv'" and "plain p srv"
  shows "mail_kept p srv srv'"
proof -
  from assms(2) obtain s1 where r1: "run_hooks (hook ph) (map snd (sessionMap srv ! unat t)) srv = Some s1"
    and r2: "run_hooks (hook ph) (map snd (nonNetworkActorMap s1 ! unat t)) s1 = Some srv'"
    by (auto simp: wake_phase_def split: if_splits option.splits)
  note k1 = run_hooks_mail [OF assms(1) r1 assms(3)]
  show ?thesis
    by (rule mail_kept_trans [OF k1 run_hooks_mail [OF assms(1) r2 plain_next [OF assms(3) k1]]])
qed

lemma logic_iteration_mail:
  assumes h: "\<And>ph. hook_keeps p (hook ph)" and i: "logic_iteration hook t w srv = Some srv'"
    and p: "plain p srv"
  shows "mail_kept p srv srv'"
proof (cases w)
  case False
  with i show ?thesis by (simp add: logic_iteration_def mail_kept_refl)
next
  case True
  with i obtain s1 s2 where w: "wake_phase hook PreTimer t srv = Some s1"
    "wake_phase hook OnTimerPhase t s1 = Some s2" "wake_phase hook PostTimer t s2 = Some srv'"
    by (auto simp: logic_iteration_def PreWakeLogicThread_def OnWakeLogicThread_def
        PostWakeLogicThread_def bind_eq_Some_conv)
  note k1 = wake_phase_mail [OF h w(1) p]
  note p1 = plain_next [OF p k1]
  note k2 = wake_phase_mail [OF h w(2) p1]
  note k3 = wake_phase_mail [OF h w(3) plain_next [OF p1 k2]]
  show ?thesis by (rule mail_kept_trans [OF mail_kept_trans [OF k1 k2] k3])
qed

lemma RunLogicThread_mail:
  assumes h: "\<And>ph. hook_keeps p (hook ph)"
  shows "RunLogicThread hook t ws srv = Some srv' \<Longrightarrow> plain p srv \<Longrightarrow> mail_kept p srv srv'"
proof (induction ws arbitrary: srv)
  case Nil
  then show ?case by (simp add: mail_kept_refl)
next
  case (Cons w ws)
  show ?case
  proof (cases "serverIsStop srv")
    case True
    with Cons.prems show ?thesis by (simp add: mail_kept_refl)
  next
    case False
    with Cons.prems(1) obtain s1 where i: "logic_iteration hook t w srv = Some s1"
      and r: "RunLogicThread hook t ws s1 = Some srv'" by (auto split: option.splits)
    note k = logic_iteration_mail [OF h i Cons.prems(2)]
    show ?thesis by (rule mail_kept_trans [OF k Cons.IH [OF r plain_next [OF Cons.prems(2) k]]])
  qed
qed

text \<open>
  C13. Messages to actors that are not sessions are never handled. Whatever a logic thread does, for any
  number of iterations and with the timer functions of the program's own classes, every message that
  was in the mailbox of a non-network actor or mediator is still in it, in both of its queues and in
  order: neither their timer functions nor those of the other actors call its \<open>ProcessMessage\<close>.
\<close>

theorem NonNetworkActor_mailbox_never_drained:
  assumes "sends_only exec" and "consumer_private exec"
    and "objs srv p = Some ob" and "kind ob \<noteq> SessionKind"
    and "RunLogicThread (timer_hook exec) t ws srv = Some srv'"
  shows "\<exists>ob' ms. objs srv' p = Some ob' \<and> consumerQueue (act ob') = consumerQueue (act ob) \<and>
     storeQueue (act ob') = storeQueue (act ob) @ ms"
proof -
  have h: "hook_keeps p (timer_hook exec ph)" for ph
    unfolding hook_keeps_def plain_def using timer_hook_mail [OF assms(1,2)] by blast
  have "plain p srv" using assms(3,4) by (simp add: plain_def)
  with assms(5) have "mail_kept p srv srv'" by (intro RunLogicThread_mail [where p = p, OF h])
  then show ?thesis using assms(3) by (auto simp: mail_kept_def)
qed

text \<open>
  A session forwards its message to the mediator at address 1, whose one transaction is overdue and
  whose own mailbox already holds a message.
\<close>

definition forward_exec :: "(nat, nat server) executor" where
  "forward_exec f args s = Done (fst s, (snd s)\<lparr>objs := (objs (snd s))(1 :=
     map_option (\<lambda>ob. ob\<lparr>act := push_store (Bound f args) (act ob)\<rparr>) (objs (snd s) 1))\<rparr>)"

definition overdue_mediator :: mediator where
  "overdue_mediator = \<lparr>activeTransactions = [(2, default_Transaction)], transactionIdGenerator = 2, calls = []\<rparr>"

definition waiting_obj :: "u64 \<Rightarrow> actor_kind \<Rightarrow> nat \<Rightarrow> nat obj" where
  "waiting_obj i k f = \<lparr>act = (new_actor i 0)\<lparr>storeQueue := [Bound f []]\<rparr>, kind = k, isTesterActor = False\<rparr>"

definition forward_server :: "nat server" where
  "forward_server = (server0 1)\<lparr>objs := [0 \<mapsto> waiting_obj 1 SessionKind 7, 1 \<mapsto> waiting_obj 2 MediatorKind 8],
     mediators := [1 \<mapsto> overdue_mediator], steadyClock := (\<lambda>_. 6000000),
     sessionMap := [[(1, 0)]], nonNetworkActorMap := [[(2, 1)]]\<rparr>"

lemma forward_exec_ok: "sends_only forward_exec" "consumer_private forward_exec"
  by (auto simp: sends_only_def mail_kept_def forward_exec_def push_store_def queue_push_def
      consumer_private_def split: option.splits)

text \<open>
  One iteration of the logic thread: the session forwards its message, the mediator's timer rolls the
  transaction back, and both messages stay in the mediator's mailbox.
\<close>

lemma forward_process:
  "ProcessMessage forward_exec ((new_actor 1 0)\<lparr>storeQueue := [Bound 7 []]\<rparr>, w) =
     Some (Done (new_actor 1 0, w\<lparr>objs := (objs w)(1 :=
       map_option (\<lambda>ob. ob\<lparr>act := push_store (Bound 7 []) (act ob)\<rparr>) (objs w 1))\<rparr>))"
  by (simp add: ProcessMessage_def swap_queues_def new_actor_def ProcessLoop.simps forward_exec_def
      pop_consumer_def Let_def)

lemma overdue_timer:
  "OnTimer 6000000 overdue_mediator =
     \<lparr>activeTransactions = [], transactionIdGenerator = 2, calls = [TransactionFailed 2]\<rparr>"
  by (simp add: OnTimer_def overdue_mediator_def timed_out_def default_Transaction_def RollbackTransaction_eq
      rollback_calls_def tx_at_def umap_find_def umap_erase_def)

lemma forward_run:
  "\<exists>srv'. RunLogicThread (timer_hook forward_exec) 0 [True] forward_server = Some srv' \<and>
     map_option calls (mediators srv' 1) = Some [TransactionFailed 2] \<and>
     map_option (\<lambda>ob. storeQueue (act ob)) (objs srv' 1) = Some [Bound 8 [], Bound 7 []]"
  by (simp add: forward_server_def server0_def logic_iteration_def PreWakeLogicThread_def
      OnWakeLogicThread_def PostWakeLogicThread_def wake_phase_def in_range_def timer_hook_def
      Session_OnTimer_def MediatorBase_OnTimer_def overdue_timer forward_process waiting_obj_def
      push_store_def queue_push_def)

theorem NonNetworkActor_mailbox_never_drained_witness:
  "\<exists>srv' ob' ms. RunLogicThread (timer_hook forward_exec) 0 [True] forward_server = Some srv' \<and>
     map_option calls (mediators srv' 1) = Some [TransactionFailed 2] \<and>
     objs srv' 1 = Some ob' \<and> storeQueue (act ob') = Bound 8 [] # ms"
proof -
  obtain srv' where r: "RunLogicThread (timer_hook forward_exec) 0 [True] forward_server = Some srv'"
    and c: "map_option calls (mediators srv' 1) = Some [TransactionFailed 2]"
    using forward_run by blast
  have o: "objs forward_server 1 = Some (waiting_obj 2 MediatorKind 8)" by (simp add: forward_server_def)
  have k: "kind (waiting_obj 2 MediatorKind 8) \<noteq> SessionKind" by (simp add: waiting_obj_def)
  from NonNetworkActor_mailbox_never_drained [OF forward_exec_ok o k r] r c show ?thesis
    by (auto simp: waiting_obj_def)
qed

end
