(* ===== verification/SessionIO.thy ===== *)
theory SessionIO
  imports ActorCore
begin

text \<open>
  The input and output of a session: \<open>Session\<close> (\<open>ActorModelServer/Session.h\<close>, \<open>.cpp\<close>) and the
  completion handlers of \<open>ServerCore\<close> (\<open>OnIoCompleted\<close>, \<open>OnRecvIoCompleted\<close>, \<open>OnSendIoCompleted\<close>,
  \<open>RecvStreamToBuffer\<close>, \<open>PacketDecode\<close>).

  The lock-free queue, the ring buffer and the network buffer are classes of a git submodule: records of
  their operations are arguments (\<open>lfq\<close>, \<open>ring_ops\<close>, \<open>NetBuffer_io\<close>), with contracts for what the code
  relies on. The results of \<open>WSARecv\<close> and \<open>WSASend\<close> are arguments. Calls of the operating system, of the
  buffer pool and of other components are logged. Network buffers are handles; the content of a handle
  is read and written through the operations. A function returns \<open>None\<close> where the code's behaviour is
  undefined or where it does not return.
\<close>

section \<open>Third-party interfaces\<close>

record ('x, 'q) lfq =
  lfq_Enqueue :: "'x \<Rightarrow> 'q \<Rightarrow> 'q"
  lfq_Dequeue :: "'q \<Rightarrow> ('x \<times> 'q) option"
  lfq_GetRestSize :: "'q \<Rightarrow> int"

definition lfq_contract :: "('x, 'q) lfq \<Rightarrow> ('q \<Rightarrow> 'x list) \<Rightarrow> ('q \<Rightarrow> bool) \<Rightarrow> bool" where
  "lfq_contract Q contents valid \<longleftrightarrow>
     fifo_queue (lfq_Enqueue Q) (lfq_Dequeue Q) contents valid \<and>
     (\<forall>q. valid q \<longrightarrow> lfq_GetRestSize Q q = int (length (contents q)))"

record 'r ring_ops =
  rb_GetNotBrokenPutSize :: "'r \<Rightarrow> int"
  rb_GetFreeSize :: "'r \<Rightarrow> int"
  rb_MoveWritePos :: "int \<Rightarrow> 'r \<Rightarrow> 'r"
  rb_GetUseSize :: "'r \<Rightarrow> int"
  rb_Peek :: "nat \<Rightarrow> 'r \<Rightarrow> u8 list"
  rb_RemoveData :: "nat \<Rightarrow> 'r \<Rightarrow> 'r"
  rb_Dequeue :: "nat \<Rightarrow> 'r \<Rightarrow> u8 list \<times> 'r"

definition ring_contract :: "('r, 'x) ring_ops_scheme \<Rightarrow> ('r \<Rightarrow> u8 list) \<Rightarrow> bool" where
  "ring_contract R bytes \<longleftrightarrow>
     (\<forall>r n. rb_GetUseSize R r = int (length (bytes r)) \<and>
        rb_Peek R n r = take n (bytes r) \<and>
        bytes (rb_RemoveData R n r) = drop n (bytes r) \<and>
        fst (rb_Dequeue R n r) = take n (bytes r) \<and> bytes (snd (rb_Dequeue R n r)) = drop n (bytes r))"

record 'b NetBuffer_io = "'b NetBuffer_ops" +
  nb_HEADER_SIZE :: nat
  nb_DEFAULTSIZE :: nat
  nb_Fresh :: 'b
  nb_PutHeader :: "u8 list \<Rightarrow> 'b \<Rightarrow> 'b"
  nb_SetRead :: "nat \<Rightarrow> 'b \<Rightarrow> 'b"
  nb_Append :: "u8 list \<Rightarrow> 'b \<Rightarrow> 'b"
  nb_Decode :: "'b \<Rightarrow> bool \<times> 'b"
  nb_WriteU32 :: "u32 \<Rightarrow> 'b \<Rightarrow> 'b"
  nb_IsEncoded :: "'b \<Rightarrow> bool"
  nb_SealForSend :: "'b \<Rightarrow> 'b"
  nb_Encode :: "'b \<Rightarrow> 'b"

section \<open>State\<close>

datatype io_mode = IO_NONE_SENDING | IO_SENDING

datatype io_result = IoDone | IoPending | IoFailed

datatype 'b io_event =
    RecvPosted int int
  | SendPosted "'b list"
  | Freed 'b
  | Shutdown u64
  | SocketClosed u64
  | OnActorDestroyedCalled
  | ReleaseRequested u64 u8

record ('h, 'b, 'q, 'r) session = "'h actor" +
  sock :: u64
  ioCount :: int
  isUsingSession :: bool
  ringBuffer :: 'r
  recvStoredQueue :: 'q
  bufferCount :: int
  ioMode :: io_mode
  sendQueue :: 'q
  sendBufferStore :: "'b list"
  io_log :: "'b io_event list"

definition INVALID_SOCKET :: u64 where
  "INVALID_SOCKET = - 1"

definition ONE_SEND_WSABUF_MAX :: nat where
  "ONE_SEND_WSABUF_MAX = 20"

text \<open>\<open>sendBufferStore\<close> is an array of 20 pointers; the model keeps its used part.\<close>

definition Session_ctor :: "'h actor \<Rightarrow> u64 \<Rightarrow> 'q \<Rightarrow> 'r \<Rightarrow> ('h, 'b, 'q, 'r) session" where
  "Session_ctor a inSock q r = actor.extend a
     \<lparr>sock = inSock, ioCount = 0, isUsingSession = False, ringBuffer = r, recvStoredQueue = q,
      bufferCount = 0, ioMode = IO_NONE_SENDING, sendQueue = q, sendBufferStore = [], io_log = []\<rparr>"

definition log_io :: "'b io_event \<Rightarrow> ('h, 'b, 'q, 'r) session \<Rightarrow> ('h, 'b, 'q, 'r) session" where
  "log_io e s = s\<lparr>io_log := io_log s @ [e]\<rparr>"

section \<open>Life of a session\<close>

definition OnConnected :: "('h, 'b, 'q, 'r) session \<Rightarrow> ('h, 'b, 'q, 'r) session" where
  "OnConnected s = s\<lparr>isUsingSession := True\<rparr>"

definition Disconnect :: "('h, 'b, 'q, 'r) session \<Rightarrow> ('h, 'b, 'q, 'r) session" where
  "Disconnect s =
     (if \<not> isUsingSession s then s
      else log_io (Shutdown (sock s)) (s\<lparr>isUsingSession := False\<rparr>))"

definition IncreaseIOCount :: "('h, 'b, 'q, 'r) session \<Rightarrow> ('h, 'b, 'q, 'r) session" where
  "IncreaseIOCount s = s\<lparr>ioCount := ioCount s + 1\<rparr>"

definition Session_ReleaseSession :: "('h, 'b, 'q, 'r) session \<Rightarrow> ('h, 'b, 'q, 'r) session" where
  "Session_ReleaseSession s =
     log_io (ReleaseRequested (actorId s) (threadId s))
       (log_io OnActorDestroyedCalled (s\<lparr>isUsingSession := False\<rparr>))"

definition DecreaseIOCount :: "('h, 'b, 'q, 'r) session \<Rightarrow> ('h, 'b, 'q, 'r) session" where
  "DecreaseIOCount s =
     (let s1 = s\<lparr>ioCount := ioCount s - 1\<rparr>
      in if ioCount s1 = 0 then Session_ReleaseSession s1 else s1)"

text \<open>The loops of \<open>OnDisconnected\<close> that empty a queue; \<open>None\<close> when the loop does not end.\<close>

partial_function (option) drain_queue :: "('b, 'q) lfq \<Rightarrow> 'q \<Rightarrow> 'b list \<Rightarrow> ('b list \<times> 'q) option" where
  "drain_queue Q q freed =
     (if lfq_GetRestSize Q q > 0
      then (case lfq_Dequeue Q q of
              None \<Rightarrow> drain_queue Q q freed
            | Some (b, q') \<Rightarrow> drain_queue Q q' (freed @ [b]))
      else Some (freed, q))"

definition OnDisconnected ::
  "('b, 'q) lfq \<Rightarrow> ('b, 'q) lfq \<Rightarrow> ('h, 'b, 'q, 'r) session \<Rightarrow> ('h, 'b, 'q, 'r) session option" where
  "OnDisconnected RQ Q s =
     (let s1 = (log_io (SocketClosed (sock s)) s)\<lparr>sock := INVALID_SOCKET\<rparr> in
      case drain_queue RQ (recvStoredQueue s1) [] of
        None \<Rightarrow> None
      | Some (freed1, rq) \<Rightarrow>
          (let s2 = fold (\<lambda>b. log_io (Freed b)) freed1 (s1\<lparr>recvStoredQueue := rq\<rparr>);
               s3 = fold (\<lambda>b. log_io (Freed b)) (take (nat (bufferCount s2)) (sendBufferStore s2)) s2;
               s4 = s3\<lparr>bufferCount := 0\<rparr>
           in case drain_queue Q (sendQueue s4) [] of
                None \<Rightarrow> None
              | Some (freed2, q) \<Rightarrow> Some (fold (\<lambda>b. log_io (Freed b)) freed2 (s4\<lparr>sendQueue := q\<rparr>))))"

section \<open>Receiving\<close>

definition DoRecv :: "'r ring_ops \<Rightarrow> io_result \<Rightarrow> ('h, 'b, 'q, 'r) session \<Rightarrow> bool \<times> ('h, 'b, 'q, 'r) session" where
  "DoRecv R result s =
     (let brokenSize = rb_GetNotBrokenPutSize R (ringBuffer s);
          restSize = rb_GetFreeSize R (ringBuffer s) - brokenSize;
          s1 = log_io (RecvPosted brokenSize (max 0 restSize)) (IncreaseIOCount s)
      in case result of
           IoFailed \<Rightarrow> (False, DecreaseIOCount s1)
         | _ \<Rightarrow> (True, s1))"

definition PacketDecode :: "('b, 'y) NetBuffer_io_scheme \<Rightarrow> 'b \<Rightarrow> bool \<times> 'b" where
  "PacketDecode nb b = nb_Decode nb b"

definition payload_length :: "('b, 'y) NetBuffer_io_scheme \<Rightarrow> 'b \<Rightarrow> nat" where
  "payload_length nb b = le_nat (take 2 (drop 1 (nb_memory nb b)))"

text \<open>
  The result is the return value, the session, the buffer and \<open>restSize\<close>. As in the client, \<open>nb_Append\<close>
  stands for a copy for which \<open>m_pSerializeBuffer\<close> has room.
\<close>

definition RecvStreamToBuffer ::
  "('b, 'y) NetBuffer_io_scheme \<Rightarrow> 'r ring_ops \<Rightarrow> ('h, 'b, 'q, 'r) session \<Rightarrow> 'b \<Rightarrow> int
     \<Rightarrow> bool \<times> ('h, 'b, 'q, 'r) session \<times> 'b \<times> int" where
  "RecvStreamToBuffer nb R s buffer restSize =
     (let H = nb_HEADER_SIZE nb;
          b1 = nb_SetRead nb 0 (nb_PutHeader nb (rb_Peek R H (ringBuffer s)) buffer);
          len = payload_length nb b1
      in if restSize < int len + int H \<and> len > nb_DEFAULTSIZE nb then (False, s, b1, restSize)
         else (let (bytes, r) = rb_Dequeue R len (rb_RemoveData R H (ringBuffer s));
                   s1 = s\<lparr>ringBuffer := r\<rparr>;
                   (ok, b2) = PacketDecode nb (nb_Append nb bytes b1)
               in if \<not> ok then (False, s1, b2, restSize)
                  else (True, s1, b2, restSize - (int (length bytes) + int H))))"

text \<open>
  One iteration of the loop of \<open>OnRecvIoCompleted\<close>: whether the message was sent, the session and
  \<open>restSize\<close>. \<open>None\<close> is an out-of-bounds read in the deserializer.
\<close>

definition recv_one ::
  "('b, 'y) NetBuffer_io_scheme \<Rightarrow> 'r ring_ops \<Rightarrow> ('h, 'b, 'q, 'r) session \<Rightarrow> int
     \<Rightarrow> (bool \<times> ('h, 'b, 'q, 'r) session \<times> int) option" where
  "recv_one nb R s restSize =
     (let (ok, s1, b, rest) = RecvStreamToBuffer nb R s (nb_Fresh nb) restSize
      in if \<not> ok then Some (False, s1, rest)
         else (case fst (CreateMessageFromPacket nb s1 b) of
                 Fault \<Rightarrow> None
               | Nullopt \<Rightarrow> Some (False, s1, rest)
               | Value m \<Rightarrow> (let (sent, s2) = SendMessage m s1 in Some (sent, s2, rest))))"

partial_function (option) recv_loop ::
  "('b, 'y) NetBuffer_io_scheme \<Rightarrow> 'r ring_ops \<Rightarrow> ('h, 'b, 'q, 'r) session \<Rightarrow> int
     \<Rightarrow> (bool \<times> ('h, 'b, 'q, 'r) session) option" where
  "recv_loop nb R s restSize =
     (if restSize > int (nb_HEADER_SIZE nb)
      then (case recv_one nb R s restSize of
              None \<Rightarrow> None
            | Some (sent, s1, rest) \<Rightarrow> (if sent then recv_loop nb R s1 rest else Some (False, s1)))
      else Some (True, s))"

definition OnRecvIoCompleted ::
  "('b, 'y) NetBuffer_io_scheme \<Rightarrow> 'r ring_ops \<Rightarrow> io_result \<Rightarrow> ('h, 'b, 'q, 'r) session \<Rightarrow> int
     \<Rightarrow> (bool \<times> ('h, 'b, 'q, 'r) session) option" where
  "OnRecvIoCompleted nb R result s transferred =
     (let s1 = s\<lparr>ringBuffer := rb_MoveWritePos R transferred (ringBuffer s)\<rparr>
      in case recv_loop nb R s1 (rb_GetUseSize R (ringBuffer s1)) of
           None \<Rightarrow> None
         | Some (ok, s2) \<Rightarrow>
             (if \<not> ok then Some (False, DecreaseIOCount s2)
              else (let (recvResult, s3) = DoRecv R result s2 in Some (recvResult, DecreaseIOCount s3))))"

section \<open>Sending\<close>

text \<open>The \<open>for\<close> loop of \<open>DoSend\<close>; the pointer of a failed \<open>Dequeue\<close> would be read uninitialised.\<close>

fun dequeue_n :: "('b, 'q) lfq \<Rightarrow> nat \<Rightarrow> 'q \<Rightarrow> ('b list \<times> 'q) option" where
  "dequeue_n Q 0 q = Some ([], q)"
| "dequeue_n Q (Suc n) q =
     (case lfq_Dequeue Q q of
        None \<Rightarrow> None
      | Some (b, q') \<Rightarrow> map_option (apfst ((#) b)) (dequeue_n Q n q'))"

text \<open>
  The loop of \<open>DoSend\<close>. \<open>compare_exchange_strong\<close> compares with \<open>expected\<close> and, when it fails, stores
  the current mode there: after taking the mode with an empty queue the second exchange fails the
  first time, and the loop goes round once more with \<open>expected\<close> being \<open>IO_SENDING\<close>.
\<close>

function DoSend_loop ::
  "('b, 'q) lfq \<Rightarrow> io_result \<Rightarrow> io_mode \<Rightarrow> ('h, 'b, 'q, 'r) session \<Rightarrow> (bool \<times> ('h, 'b, 'q, 'r) session) option" where
  "DoSend_loop Q result expected s =
     (if ioMode s \<noteq> expected then Some (True, s)
      else (let s1 = s\<lparr>ioMode := IO_SENDING\<rparr>;
                restSize = lfq_GetRestSize Q (sendQueue s1)
            in if restSize = 0
               then (if ioMode s1 = expected then Some (True, s1\<lparr>ioMode := IO_NONE_SENDING\<rparr>)
                     else DoSend_loop Q result IO_SENDING s1)
               else if restSize < 0 then Some (False, s1)
               else (let n = min ONE_SEND_WSABUF_MAX (nat restSize)
                     in case dequeue_n Q n (sendQueue s1) of
                          None \<Rightarrow> None
                        | Some (bs, q) \<Rightarrow>
                            (let s2 = log_io (SendPosted bs) (IncreaseIOCount
                                   (s1\<lparr>sendQueue := q, bufferCount := bufferCount s1 + int n,
                                       sendBufferStore := bs @ drop n (sendBufferStore s1)\<rparr>))
                             in case result of
                                  IoFailed \<Rightarrow> Some (False, DecreaseIOCount s2)
                                | _ \<Rightarrow> Some (True, s2)))))"
  by pat_completeness auto

termination
  by (relation "measure (\<lambda>(_, _, expected, _). if expected = IO_NONE_SENDING then 1 else 0)")
    (simp_all, metis io_mode.exhaust)

declare DoSend_loop.simps [simp del]

definition DoSend ::
  "('b, 'q) lfq \<Rightarrow> io_result \<Rightarrow> ('h, 'b, 'q, 'r) session \<Rightarrow> (bool \<times> ('h, 'b, 'q, 'r) session) option" where
  "DoSend Q result s = DoSend_loop Q result IO_NONE_SENDING s"

text \<open>
  \<open>BuildPacketBuffer\<close>: a packet is its id and the bytes that follow its virtual-table pointer, as many
  as \<open>GetPacketSize\<close> says. The buffer is the one \<open>Alloc\<close> gave, if any.
\<close>

record packet =
  GetPacketId :: u32
  packet_body :: "u8 list"

definition BuildPacketBuffer :: "('b, 'y) NetBuffer_io_scheme \<Rightarrow> 'b option \<Rightarrow> packet \<Rightarrow> 'b option" where
  "BuildPacketBuffer nb alloc pkt =
     (case alloc of
        None \<Rightarrow> None
      | Some b \<Rightarrow>
          (let b1 = nb_Append nb (packet_body pkt) (nb_WriteU32 nb (GetPacketId pkt) b)
           in Some (if nb_IsEncoded nb b1 then b1 else nb_Encode nb (nb_SealForSend nb b1))))"

definition SendPacket ::
  "('b, 'y) NetBuffer_io_scheme \<Rightarrow> ('b, 'q) lfq \<Rightarrow> 'b option \<Rightarrow> io_result \<Rightarrow> packet
     \<Rightarrow> ('h, 'b, 'q, 'r) session \<Rightarrow> (bool \<times> ('h, 'b, 'q, 'r) session) option" where
  "SendPacket nb Q alloc result pkt s =
     (case BuildPacketBuffer nb alloc pkt of
        None \<Rightarrow> Some (False, s)
      | Some b \<Rightarrow> DoSend Q result (s\<lparr>sendQueue := lfq_Enqueue Q b (sendQueue s)\<rparr>))"

definition OnSendIoCompleted ::
  "('b, 'q) lfq \<Rightarrow> io_result \<Rightarrow> ('h, 'b, 'q, 'r) session \<Rightarrow> (bool \<times> ('h, 'b, 'q, 'r) session) option" where
  "OnSendIoCompleted Q result s =
     (let s1 = fold (\<lambda>b. log_io (Freed b)) (take (nat (bufferCount s)) (sendBufferStore s)) s;
          s2 = s1\<lparr>bufferCount := 0, ioMode := IO_NONE_SENDING\<rparr>
      in DoSend Q result (DecreaseIOCount s2))"

datatype overlapped = RecvOverlapped | SendOverlapped | OtherOverlapped

definition OnIoCompleted ::
  "('b, 'y) NetBuffer_io_scheme \<Rightarrow> 'r ring_ops \<Rightarrow> ('b, 'q) lfq \<Rightarrow> io_result \<Rightarrow> ('h, 'b, 'q, 'r) session
     \<Rightarrow> overlapped \<Rightarrow> int \<Rightarrow> (bool \<times> ('h, 'b, 'q, 'r) session) option" where
  "OnIoCompleted nb R Q result s ov transferred =
     (if transferred = 0 then Some (True, DecreaseIOCount s)
      else case ov of
             RecvOverlapped \<Rightarrow> OnRecvIoCompleted nb R result s transferred
           | SendOverlapped \<Rightarrow> OnSendIoCompleted Q result s
           | OtherOverlapped \<Rightarrow> Some (False, s))"

end
