(* ===== verification/SessionRuns.thy ===== *)
theory SessionRuns
  imports SessionIO
begin

text \<open>
  Correctness of the session's input and output. First what one \<open>DoSend\<close> does, then the runs of one
  session: packets sent by the logic thread, completions of sends and receives in any order and with
  any results, and the references the accept thread holds. Each handler is one step: these are the runs
  in which the handlers of one session do not overlap. The server does not prevent that they do, as
  IO threads and the logic thread work on a session at the same time; the overlapping runs are the subject of
  \<open>SendRaces\<close> (the shared accesses inside \<open>DoSend\<close>) and \<open>SessionTeardown\<close> (those of the last
  completions and of \<open>OnDisconnected\<close>), where some of the properties below fail. Ghost fields count the
  operations the system still owes a completion for, and record the buffers handed to \<open>SendPacket\<close>.
\<close>

section \<open>One send\<close>

lemma dequeue_n_exact:
  assumes c: "lfq_contract Q contents valid"
  shows "valid q \<Longrightarrow> n \<le> length (contents q) \<Longrightarrow>
    \<exists>q'. dequeue_n Q n q = Some (take n (contents q), q') \<and> contents q' = drop n (contents q) \<and> valid q'"
proof (induction n arbitrary: q)
  case 0
  then show ?case by simp
next
  case (Suc n)
  then obtain x xs where xs: "contents q = x # xs" by (cases "contents q") auto
  have "fifo_queue (lfq_Enqueue Q) (lfq_Dequeue Q) contents valid" using c by (simp add: lfq_contract_def)
  from fifo_queue.pop_front [OF this Suc.prems(1) xs] obtain q1 where
    q1: "lfq_Dequeue Q q = Some (x, q1)" "contents q1 = xs" "valid q1" by blast
  with Suc.IH [OF q1(3)] Suc.prems(2) xs show ?case by auto
qed

definition after_post :: "io_result \<Rightarrow> ('h, 'b, 'q, 'r) session \<Rightarrow> ('h, 'b, 'q, 'r) session" where
  "after_post result s = (if result = IoFailed then DecreaseIOCount s else s)"

lemma DoSend_busy: "ioMode s = IO_SENDING \<Longrightarrow> DoSend Q result s = Some (True, s)"
  by (simp add: DoSend_def DoSend_loop.simps)

lemma DoSend_empty:
  assumes c: "lfq_contract Q contents valid" and v: "valid (sendQueue s)"
    and m: "ioMode s = IO_NONE_SENDING" and e: "contents (sendQueue s) = []"
  shows "DoSend Q result s = Some (True, s)"
proof -
  have r: "lfq_GetRestSize Q (sendQueue s) = 0" using c v e by (simp add: lfq_contract_def)
  from m have "s\<lparr>ioMode := IO_NONE_SENDING\<rparr> = s" by (cases s) simp
  moreover have "DoSend Q result s = Some (True, s\<lparr>ioMode := IO_NONE_SENDING\<rparr>)"
    unfolding DoSend_def
    by (subst DoSend_loop.simps) (simp add: m r Let_def, subst DoSend_loop.simps, simp add: r Let_def)
  ultimately show ?thesis by simp
qed

lemma DoSend_posts:
  assumes c: "lfq_contract Q contents valid" and v: "valid (sendQueue s)"
    and m: "ioMode s = IO_NONE_SENDING" and e: "contents (sendQueue s) \<noteq> []"
  shows "\<exists>q. contents q = drop 20 (contents (sendQueue s)) \<and> valid q \<and>
    DoSend Q result s = Some (result \<noteq> IoFailed, after_post result
      (log_io (SendPosted (take 20 (contents (sendQueue s)))) (IncreaseIOCount (s\<lparr>ioMode := IO_SENDING,
        sendQueue := q, bufferCount := bufferCount s + int (min 20 (length (contents (sendQueue s)))),
        sendBufferStore := take 20 (contents (sendQueue s)) @
          drop (min 20 (length (contents (sendQueue s)))) (sendBufferStore s)\<rparr>))))"
proof -
  let ?xs = "contents (sendQueue s)"
  let ?n = "min 20 (length ?xs)"
  have r: "lfq_GetRestSize Q (sendQueue s) = int (length ?xs)" using c v by (simp add: lfq_contract_def)
  obtain q where q: "dequeue_n Q ?n (sendQueue s) = Some (take ?n ?xs, q)" "contents q = drop ?n ?xs" "valid q"
    using dequeue_n_exact [OF c v, of ?n] by auto
  have t: "take ?n ?xs = take 20 ?xs" "drop ?n ?xs = drop 20 ?xs" by (auto simp: min_def)
  show ?thesis
    using q e m unfolding DoSend_def t
    by (subst DoSend_loop.simps)
      (auto simp: r ONE_SEND_WSABUF_MAX_def after_post_def Let_def t split: io_result.splits)
qed

section \<open>Runs of a session\<close>

record ('h, 'b, 'q, 'r) io_sys =
  ses :: "('h, 'b, 'q, 'r) session"
  sends_out :: nat
  recvs_out :: nat
  holds :: nat
  enqueued :: "'b list"

fun send_batches :: "'b io_event list \<Rightarrow> 'b list list" where
  "send_batches [] = []"
| "send_batches (SendPosted bs # es) = bs # send_batches es"
| "send_batches (_ # es) = send_batches es"

fun freed :: "'b io_event list \<Rightarrow> 'b list" where
  "freed [] = []"
| "freed (Freed b # es) = b # freed es"
| "freed (_ # es) = freed es"

fun recv_posts :: "'b io_event list \<Rightarrow> nat" where
  "recv_posts [] = 0"
| "recv_posts (RecvPosted _ _ # es) = Suc (recv_posts es)"
| "recv_posts (_ # es) = recv_posts es"

definition successes :: "io_result \<Rightarrow> nat \<Rightarrow> nat" where
  "successes result n = (if result = IoFailed then 0 else n)"

definition io_init :: "('q \<Rightarrow> 'b list) \<Rightarrow> ('q \<Rightarrow> bool) \<Rightarrow> ('h, 'b, 'q, 'r) io_sys \<Rightarrow> bool" where
  "io_init contents valid s \<longleftrightarrow>
     (\<exists>a sk q r. ses s = Session_ctor a sk q r \<and> valid q \<and> contents q = []) \<and>
     sends_out s = 0 \<and> recvs_out s = 0 \<and> holds s = 0 \<and> enqueued s = []"

text \<open>
  The steps. A completion with the wrong \<open>OVERLAPPED\<close> does not occur; a failed completion, and one of
  no bytes, only gives the reference back.
\<close>

inductive io_step ::
  "('b, 'y) NetBuffer_io_scheme \<Rightarrow> 'r ring_ops \<Rightarrow> ('b, 'q) lfq
     \<Rightarrow> ('h, 'b, 'q, 'r) io_sys \<Rightarrow> ('h, 'b, 'q, 'r) io_sys \<Rightarrow> bool"
  for nb R Q where
  hold: "io_step nb R Q s (s\<lparr>ses := IncreaseIOCount (ses s), holds := Suc (holds s)\<rparr>)"
| unhold: "0 < holds s \<Longrightarrow>
     io_step nb R Q s (s\<lparr>ses := DecreaseIOCount (ses s), holds := holds s - 1\<rparr>)"
| first_recv: "0 < holds s \<Longrightarrow> DoRecv R result (ses s) = (ok, x) \<Longrightarrow>
     io_step nb R Q s (s\<lparr>ses := x, recvs_out := recvs_out s + successes result 1\<rparr>)"
| send: "SendPacket nb Q alloc result pkt (ses s) = Some (ok, x) \<Longrightarrow>
     io_step nb R Q s (s\<lparr>ses := x,
       enqueued := enqueued s @ (case BuildPacketBuffer nb alloc pkt of None \<Rightarrow> [] | Some b \<Rightarrow> [b]),
       sends_out := sends_out s + successes result
         (length (send_batches (io_log x)) - length (send_batches (io_log (ses s))))\<rparr>)"
| send_done: "0 < sends_out s \<Longrightarrow> transferred \<noteq> 0 \<Longrightarrow>
     OnIoCompleted nb R Q result (ses s) SendOverlapped transferred = Some (ok, x) \<Longrightarrow>
     io_step nb R Q s (s\<lparr>ses := x, sends_out := sends_out s - 1 + successes result
         (length (send_batches (io_log x)) - length (send_batches (io_log (ses s))))\<rparr>)"
| recv_done: "0 < recvs_out s \<Longrightarrow> transferred \<noteq> 0 \<Longrightarrow>
     OnIoCompleted nb R Q result (ses s) RecvOverlapped transferred = Some (ok, x) \<Longrightarrow>
     io_step nb R Q s (s\<lparr>ses := x, recvs_out := recvs_out s - 1 + successes result
         (recv_posts (io_log x) - recv_posts (io_log (ses s)))\<rparr>)"
| send_failed: "0 < sends_out s \<Longrightarrow>
     OnIoCompleted nb R Q result (ses s) SendOverlapped 0 = Some (ok, x) \<Longrightarrow>
     io_step nb R Q s (s\<lparr>ses := x, sends_out := sends_out s - 1\<rparr>)"
| recv_failed: "0 < recvs_out s \<Longrightarrow>
     OnIoCompleted nb R Q result (ses s) RecvOverlapped 0 = Some (ok, x) \<Longrightarrow>
     io_step nb R Q s (s\<lparr>ses := x, recvs_out := recvs_out s - 1\<rparr>)"
| disconnect: "io_step nb R Q s (s\<lparr>ses := Disconnect (ses s)\<rparr>)"

definition send_inv :: "('q \<Rightarrow> 'b list) \<Rightarrow> ('q \<Rightarrow> bool) \<Rightarrow> ('h, 'b, 'q, 'r) session \<Rightarrow> 'b list \<Rightarrow> bool" where
  "send_inv contents valid x sent \<longleftrightarrow>
     valid (sendQueue x) \<and> valid (recvStoredQueue x) \<and> contents (recvStoredQueue x) = [] \<and>
     (ioMode x = IO_NONE_SENDING \<longrightarrow> bufferCount x = 0 \<and> contents (sendQueue x) = []) \<and>
     0 \<le> bufferCount x \<and> nat (bufferCount x) \<le> length (sendBufferStore x) \<and>
     freed (io_log x) @ take (nat (bufferCount x)) (sendBufferStore x) @ contents (sendQueue x) = sent \<and>
     concat (send_batches (io_log x)) @ contents (sendQueue x) = sent \<and>
     (\<forall>bs \<in> set (send_batches (io_log x)). bs \<noteq> [] \<and> length bs \<le> 20) \<and> \<not> isUsingSession x"

definition io_inv :: "('q \<Rightarrow> 'b list) \<Rightarrow> ('q \<Rightarrow> bool) \<Rightarrow> ('h, 'b, 'q, 'r) io_sys \<Rightarrow> bool" where
  "io_inv contents valid s \<longleftrightarrow>
     send_inv contents valid (ses s) (enqueued s) \<and>
     ioCount (ses s) = int (sends_out s + recvs_out s + holds s) \<and>
     sends_out s \<le> 1 \<and> (ioMode (ses s) = IO_NONE_SENDING \<longrightarrow> sends_out s = 0)"

section \<open>The invariant is kept\<close>

lemma log_append [simp]:
  "send_batches (es @ fs) = send_batches es @ send_batches fs"
  "freed (es @ fs) = freed es @ freed fs"
  "recv_posts (es @ fs) = recv_posts es + recv_posts fs"
  by (induction es rule: send_batches.induct; simp)+

text \<open>The operations on the reference count touch nothing the sending side looks at.\<close>

definition send_view :: "('h, 'b, 'q, 'r) session \<Rightarrow>
    io_mode \<times> int \<times> 'q \<times> 'b list \<times> 'q \<times> 'b list list \<times> 'b list" where
  "send_view x = (ioMode x, bufferCount x, sendQueue x, sendBufferStore x, recvStoredQueue x,
     send_batches (io_log x), freed (io_log x))"

lemma send_inv_view:
  assumes "send_inv contents valid x sent" and "send_view y = send_view x" and "\<not> isUsingSession y"
  shows "send_inv contents valid y sent"
  using assms by (simp add: send_inv_def send_view_def)

lemma DecreaseIOCount_facts:
  "send_view (DecreaseIOCount x) = send_view x" "ioCount (DecreaseIOCount x) = ioCount x - 1"
  "\<not> isUsingSession x \<Longrightarrow> \<not> isUsingSession (DecreaseIOCount x)"
  "recv_posts (io_log (DecreaseIOCount x)) = recv_posts (io_log x)"
  by (simp_all add: DecreaseIOCount_def Session_ReleaseSession_def log_io_def send_view_def Let_def)

lemma IncreaseIOCount_facts:
  "send_view (IncreaseIOCount x) = send_view x" "ioCount (IncreaseIOCount x) = ioCount x + 1"
  "isUsingSession (IncreaseIOCount x) = isUsingSession x" "io_log (IncreaseIOCount x) = io_log x"
  by (simp_all add: IncreaseIOCount_def send_view_def)

lemma DoRecv_facts:
  assumes "DoRecv R result x = (ok, y)"
  shows "send_view y = send_view x" and "ioCount y = ioCount x + int (successes result 1)"
    and "\<not> isUsingSession x \<Longrightarrow> \<not> isUsingSession y"
    and "recv_posts (io_log y) = Suc (recv_posts (io_log x))"
proof -
  let ?z = "log_io (RecvPosted (rb_GetNotBrokenPutSize R (ringBuffer x))
      (max 0 (rb_GetFreeSize R (ringBuffer x) - rb_GetNotBrokenPutSize R (ringBuffer x)))) (IncreaseIOCount x)"
  have z: "send_view ?z = send_view x" "ioCount ?z = ioCount x + 1" "isUsingSession ?z = isUsingSession x"
    "recv_posts (io_log ?z) = Suc (recv_posts (io_log x))"
    by (simp_all add: log_io_def IncreaseIOCount_def send_view_def)
  have y: "y = (if result = IoFailed then DecreaseIOCount ?z else ?z)"
    using assms by (cases result) (auto simp: DoRecv_def Let_def)
  show "send_view y = send_view x" and "ioCount y = ioCount x + int (successes result 1)"
    and "\<not> isUsingSession x \<Longrightarrow> \<not> isUsingSession y"
    and "recv_posts (io_log y) = Suc (recv_posts (io_log x))"
    using z DecreaseIOCount_facts [of ?z] by (auto simp: y successes_def)
qed

text \<open>The receive loop changes only the ring buffer and the mailbox.\<close>

definition io_view :: "('h, 'b, 'q, 'r) session \<Rightarrow> _" where
  "io_view x = (send_view x, ioCount x, isUsingSession x, io_log x)"

lemma recv_one_view: "recv_one nb R x rest = Some (sent, y, rest') \<Longrightarrow> io_view y = io_view x"
  by (auto simp: recv_one_def RecvStreamToBuffer_def io_view_def send_view_def SendMessage_def push_store_def
      Let_def split: prod.splits if_splits read.splits)

lemma recv_loop_view:
  assumes "recv_loop nb R x rest = Some r"
  shows "io_view (snd r) = io_view x"
proof (rule recv_loop.raw_induct [where P = "\<lambda>nb R x rest r. io_view (snd r) = io_view x", OF _ assms],
    goal_cases)
  case (1 f nb R x rest r)
  then show ?case by (auto split: if_splits option.splits prod.splits dest!: recv_one_view)
qed

text \<open>
  \<open>DoSend\<close> keeps the invariant of the sending side, except that it may be called with buffers waiting
  although the mode is free; afterwards that is not so any more.
\<close>

definition send_pre :: "('q \<Rightarrow> 'b list) \<Rightarrow> ('q \<Rightarrow> bool) \<Rightarrow> ('h, 'b, 'q, 'r) session \<Rightarrow> 'b list \<Rightarrow> bool" where
  "send_pre contents valid x sent \<longleftrightarrow>
     valid (sendQueue x) \<and> valid (recvStoredQueue x) \<and> contents (recvStoredQueue x) = [] \<and>
     (ioMode x = IO_NONE_SENDING \<longrightarrow> bufferCount x = 0) \<and>
     0 \<le> bufferCount x \<and> nat (bufferCount x) \<le> length (sendBufferStore x) \<and>
     freed (io_log x) @ take (nat (bufferCount x)) (sendBufferStore x) @ contents (sendQueue x) = sent \<and>
     concat (send_batches (io_log x)) @ contents (sendQueue x) = sent \<and>
     (\<forall>bs \<in> set (send_batches (io_log x)). bs \<noteq> [] \<and> length bs \<le> 20) \<and> \<not> isUsingSession x"

lemma send_inv_iff:
  "send_inv contents valid x sent \<longleftrightarrow>
     send_pre contents valid x sent \<and> (ioMode x = IO_NONE_SENDING \<longrightarrow> contents (sendQueue x) = [])"
  by (auto simp: send_inv_def send_pre_def)

lemma send_pre_view:
  assumes "send_pre contents valid x sent" and "send_view y = send_view x" and "\<not> isUsingSession y"
  shows "send_pre contents valid y sent"
  using assms by (simp add: send_pre_def send_view_def)

lemma after_post_facts:
  "send_view (after_post result x) = send_view x"
  "ioCount (after_post result x) = ioCount x - 1 + int (successes result 1)"
  "\<not> isUsingSession x \<Longrightarrow> \<not> isUsingSession (after_post result x)"
  by (auto simp: after_post_def successes_def DecreaseIOCount_facts)

definition new_sends :: "('h, 'b, 'q, 'r) session \<Rightarrow> ('h, 'b, 'q, 'r) session \<Rightarrow> nat" where
  "new_sends x y = length (send_batches (io_log y)) - length (send_batches (io_log x))"

lemma DoSend_facts:
  assumes c: "lfq_contract Q contents valid" and pre: "send_pre contents valid x sent"
  shows "\<exists>ok y. DoSend Q result x = Some (ok, y) \<and> send_inv contents valid y sent \<and>
    ioCount y = ioCount x + int (successes result (new_sends x y)) \<and>
    new_sends x y \<le> 1 \<and> (ioMode y = IO_NONE_SENDING \<longrightarrow> new_sends x y = 0 \<and> ioMode x = IO_NONE_SENDING) \<and>
    (new_sends x y = 1 \<longrightarrow> ioMode x = IO_NONE_SENDING)"
proof -
  have v: "valid (sendQueue x)" using pre by (simp add: send_pre_def)
  consider (busy) "ioMode x = IO_SENDING" | (empty) "ioMode x = IO_NONE_SENDING" "contents (sendQueue x) = []"
    | (post) "ioMode x = IO_NONE_SENDING" "contents (sendQueue x) \<noteq> []"
    by (cases "ioMode x") auto
  then show ?thesis
  proof cases
    case busy
    with pre show ?thesis by (auto simp: DoSend_busy send_inv_iff new_sends_def successes_def)
  next
    case empty
    with pre DoSend_empty [OF c v empty, of result] show ?thesis
      by (auto simp: send_inv_iff new_sends_def successes_def)
  next
    case post
    let ?xs = "contents (sendQueue x)"
    obtain q where q: "contents q = drop 20 ?xs" "valid q"
      and d: "DoSend Q result x = Some (result \<noteq> IoFailed, after_post result
        (log_io (SendPosted (take 20 ?xs)) (IncreaseIOCount (x\<lparr>ioMode := IO_SENDING, sendQueue := q,
          bufferCount := bufferCount x + int (min 20 (length ?xs)),
          sendBufferStore := take 20 ?xs @ drop (min 20 (length ?xs)) (sendBufferStore x)\<rparr>))))"
      (is "_ = Some (_, after_post result ?z)")
      using DoSend_posts [OF c v post, of result] by blast
    have n: "send_view ?z = (IO_SENDING, int (min 20 (length ?xs)), q,
        take 20 ?xs @ drop (min 20 (length ?xs)) (sendBufferStore x), recvStoredQueue x,
        send_batches (io_log x) @ [take 20 ?xs], freed (io_log x))"
      using pre post by (simp add: send_view_def log_io_def IncreaseIOCount_def send_pre_def)
    have u: "\<not> isUsingSession ?z" and ioc: "ioCount ?z = ioCount x + 1"
      using pre by (simp_all add: log_io_def IncreaseIOCount_def send_pre_def)
    have "send_pre contents valid ?z sent"
    proof -
      have "take (min 20 (length ?xs)) ?xs @ drop 20 ?xs = ?xs" by (simp add: min_def)
      then show ?thesis using pre post q n u unfolding send_pre_def send_view_def by auto
    qed
    moreover have "ioMode ?z = IO_SENDING" using n by (simp add: send_view_def)
    ultimately have "send_inv contents valid ?z sent" by (simp add: send_inv_iff)
    then have "send_inv contents valid (after_post result ?z) sent"
      by (rule send_inv_view [OF _ after_post_facts(1) after_post_facts(3) [OF u]])
    moreover have "new_sends x (after_post result ?z) = 1" and "ioMode (after_post result ?z) = IO_SENDING"
      using after_post_facts(1) [of result ?z] n by (simp_all add: new_sends_def send_view_def)
    ultimately show ?thesis using d ioc post after_post_facts(2) [of result ?z] by simp
  qed
qed

lemma send_batches_mono_pre:
  assumes "SendPacket nb Q alloc result pkt x = Some (ok, y)" and c: "lfq_contract Q contents valid"
    and inv: "send_inv contents valid x sent"
  shows "send_inv contents valid y (sent @ (case BuildPacketBuffer nb alloc pkt of None \<Rightarrow> [] | Some b \<Rightarrow> [b])) \<and>
    ioCount y = ioCount x + int (successes result (new_sends x y)) \<and>
    new_sends x y \<le> 1 \<and> (ioMode y = IO_NONE_SENDING \<longrightarrow> new_sends x y = 0 \<and> ioMode x = IO_NONE_SENDING) \<and>
    (new_sends x y = 1 \<longrightarrow> ioMode x = IO_NONE_SENDING)"
proof (cases "BuildPacketBuffer nb alloc pkt")
  case None
  with assms show ?thesis by (auto simp: SendPacket_def new_sends_def successes_def)
next
  case (Some b)
  let ?x = "x\<lparr>sendQueue := lfq_Enqueue Q b (sendQueue x)\<rparr>"
  have f: "fifo_queue (lfq_Enqueue Q) (lfq_Dequeue Q) contents valid" using c by (simp add: lfq_contract_def)
  have "valid (sendQueue x)" using inv by (simp add: send_inv_def)
  then have "contents (lfq_Enqueue Q b (sendQueue x)) = contents (sendQueue x) @ [b]"
    and "valid (lfq_Enqueue Q b (sendQueue x))"
    using fifo_queue.contents_push [OF f] fifo_queue.valid_push [OF f] by blast+
  with inv have "send_pre contents valid ?x (sent @ [b])" by (auto simp: send_inv_def send_pre_def)
  from DoSend_facts [OF c this, of result] Some assms(1) show ?thesis
    by (auto simp: SendPacket_def new_sends_def)
qed

lemma OnSendIoCompleted_facts:
  assumes c: "lfq_contract Q contents valid" and inv: "send_inv contents valid x sent"
  shows "\<exists>ok y. OnSendIoCompleted Q result x = Some (ok, y) \<and> send_inv contents valid y sent \<and>
    ioCount y = ioCount x - 1 + int (successes result (new_sends x y)) \<and> new_sends x y \<le> 1 \<and>
    (ioMode y = IO_NONE_SENDING \<longrightarrow> new_sends x y = 0)"
proof -
  let ?bs = "take (nat (bufferCount x)) (sendBufferStore x)"
  have fold: "fold (\<lambda>b. log_io (Freed b)) bs z = z\<lparr>io_log := io_log z @ map Freed bs\<rparr>"
    for bs z
    by (induction bs arbitrary: z) (simp_all add: log_io_def)
  have fm: "freed (map Freed bs) = bs" "send_batches (map Freed bs) = []" for bs
    by (induction bs) simp_all
  let ?z = "x\<lparr>io_log := io_log x @ map Freed ?bs, bufferCount := 0, ioMode := IO_NONE_SENDING\<rparr>"
  have u: "\<not> isUsingSession ?z" using inv by (simp add: send_inv_def)
  have "send_pre contents valid ?z sent" using inv by (simp add: send_inv_def send_pre_def fm)
  then have "send_pre contents valid (DecreaseIOCount ?z) sent"
    by (rule send_pre_view [OF _ DecreaseIOCount_facts(1) DecreaseIOCount_facts(3) [OF u]])
  from DoSend_facts [OF c this, of result]
  obtain ok y where d: "DoSend Q result (DecreaseIOCount ?z) = Some (ok, y)"
    and y: "send_inv contents valid y sent" "new_sends (DecreaseIOCount ?z) y \<le> 1"
      "ioCount y = ioCount (DecreaseIOCount ?z) + int (successes result (new_sends (DecreaseIOCount ?z) y))"
      "ioMode y = IO_NONE_SENDING \<longrightarrow> new_sends (DecreaseIOCount ?z) y = 0" by blast
  have o: "OnSendIoCompleted Q result x = Some (ok, y)"
    using d by (simp add: OnSendIoCompleted_def fold Let_def)
  have "send_batches (io_log (DecreaseIOCount ?z)) = send_batches (io_log x)"
    using DecreaseIOCount_facts(1) [of ?z] by (simp add: send_view_def fm)
  then have "new_sends (DecreaseIOCount ?z) y = new_sends x y" by (simp add: new_sends_def)
  with o y DecreaseIOCount_facts(2) [of ?z] show ?thesis by auto
qed

lemma OnRecvIoCompleted_facts:
  assumes "OnRecvIoCompleted nb R result x n = Some (ok, y)" and "\<not> isUsingSession x"
  shows "send_view y = send_view x" and "\<not> isUsingSession y"
    and "ioCount y = ioCount x - 1 + int (successes result (recv_posts (io_log y) - recv_posts (io_log x)))"
proof -
  let ?x = "x\<lparr>ringBuffer := rb_MoveWritePos R n (ringBuffer x)\<rparr>"
  obtain ok1 x1 where l: "recv_loop nb R ?x (rb_GetUseSize R (ringBuffer ?x)) = Some (ok1, x1)"
    using assms(1) by (auto simp: OnRecvIoCompleted_def Let_def split: option.splits)
  have v: "send_view x1 = send_view x" "ioCount x1 = ioCount x" "\<not> isUsingSession x1" "io_log x1 = io_log x"
    using recv_loop_view [OF l] assms(2) by (auto simp: io_view_def send_view_def)
  have "send_view y = send_view x \<and> \<not> isUsingSession y \<and>
    ioCount y = ioCount x - 1 + int (successes result (recv_posts (io_log y) - recv_posts (io_log x)))"
  proof (cases ok1)
    case False
    then have "y = DecreaseIOCount x1" using assms(1) l by (simp add: OnRecvIoCompleted_def Let_def)
    then show ?thesis using v DecreaseIOCount_facts [of x1] by (simp add: successes_def)
  next
    case True
    obtain ok2 x2 where d: "DoRecv R result x1 = (ok2, x2)" by fastforce
    then have "y = DecreaseIOCount x2" using assms(1) l True by (simp add: OnRecvIoCompleted_def Let_def)
    then show ?thesis using v DoRecv_facts [OF d] DecreaseIOCount_facts [of x2] by simp
  qed
  then show "send_view y = send_view x" and "\<not> isUsingSession y"
    and "ioCount y = ioCount x - 1 + int (successes result (recv_posts (io_log y) - recv_posts (io_log x)))"
    by auto
qed

lemma io_init_inv:
  assumes "io_init contents valid s"
  shows "io_inv contents valid s"
  using assms by (auto simp: io_init_def io_inv_def send_inv_def Session_ctor_def actor.extend_def)

lemma io_invI_view:
  assumes "io_inv contents valid s" and "send_view x = send_view (ses s)" and "\<not> isUsingSession x"
    and "ioCount x = int (sends_out s + r + h)"
  shows "io_inv contents valid (s\<lparr>ses := x, recvs_out := r, holds := h\<rparr>)"
  using assms send_inv_view [of contents valid "ses s" "enqueued s" x]
  by (auto simp: io_inv_def send_view_def)

lemma io_step_inv:
  assumes c: "lfq_contract Q contents valid"
  shows "io_step nb R Q s t \<Longrightarrow> io_inv contents valid s \<Longrightarrow> io_inv contents valid t"
proof (induction rule: io_step.induct)
  case (hold s)
  then have "io_inv contents valid (s\<lparr>ses := IncreaseIOCount (ses s), recvs_out := recvs_out s, holds := Suc (holds s)\<rparr>)"
    by (intro io_invI_view) (auto simp: io_inv_def send_inv_def IncreaseIOCount_facts)
  then show ?case by simp
next
  case (unhold s)
  then have u: "\<not> isUsingSession (ses s)" by (simp add: io_inv_def send_inv_def)
  from unhold have "io_inv contents valid (s\<lparr>ses := DecreaseIOCount (ses s), recvs_out := recvs_out s, holds := holds s - 1\<rparr>)"
    by (intro io_invI_view) (auto simp: DecreaseIOCount_facts u, simp add: io_inv_def)
  then show ?case by simp
next
  case (first_recv s result ok x)
  then have u: "\<not> isUsingSession (ses s)" by (simp add: io_inv_def send_inv_def)
  from first_recv have "io_inv contents valid (s\<lparr>ses := x, recvs_out := recvs_out s + successes result 1, holds := holds s\<rparr>)"
    by (intro io_invI_view) (auto simp: DoRecv_facts u, simp add: io_inv_def)
  then show ?case by simp
next
  case (send alloc result pkt s ok x)
  then have inv: "send_inv contents valid (ses s) (enqueued s)" by (simp add: io_inv_def)
  from send_batches_mono_pre [OF send(1) c inv] send(2) show ?case
    by (auto simp: io_inv_def new_sends_def [symmetric] successes_def le_Suc_eq)
next
  case (send_done s transferred result ok x)
  then have inv: "send_inv contents valid (ses s) (enqueued s)" by (simp add: io_inv_def)
  obtain ok' y where o: "OnSendIoCompleted Q result (ses s) = Some (ok', y)"
    and y: "send_inv contents valid y (enqueued s)" "new_sends (ses s) y \<le> 1"
      "ioCount y = ioCount (ses s) - 1 + int (successes result (new_sends (ses s) y))"
      "ioMode y = IO_NONE_SENDING \<longrightarrow> new_sends (ses s) y = 0"
    using OnSendIoCompleted_facts [OF c inv, of result] by blast
  have "y = x" using send_done(2,3) o by (simp add: OnIoCompleted_def)
  with y send_done(1,4) show ?case
    by (auto simp: io_inv_def new_sends_def [symmetric] successes_def le_Suc_eq)
next
  case (recv_done s transferred result ok x)
  then have u: "\<not> isUsingSession (ses s)" and o: "OnRecvIoCompleted nb R result (ses s) transferred = Some (ok, x)"
    by (auto simp: io_inv_def send_inv_def OnIoCompleted_def)
  note F = OnRecvIoCompleted_facts [OF o u]
  have "io_inv contents valid (s\<lparr>ses := x, recvs_out := recvs_out s - 1 +
      successes result (recv_posts (io_log x) - recv_posts (io_log (ses s))), holds := holds s\<rparr>)"
    using recv_done(1,4) F by (intro io_invI_view) (auto simp: io_inv_def)
  then show ?case by simp
next
  case (send_failed s result ok x)
  then have u: "\<not> isUsingSession (ses s)" and x: "x = DecreaseIOCount (ses s)"
    by (auto simp: io_inv_def send_inv_def OnIoCompleted_def)
  have "send_inv contents valid x (enqueued s)"
    using send_failed(3) send_inv_view [OF _ DecreaseIOCount_facts(1) DecreaseIOCount_facts(3) [OF u]]
    by (simp add: x io_inv_def)
  with send_failed(1,3) DecreaseIOCount_facts(1,2) [of "ses s"] show ?case
    by (auto simp: io_inv_def x send_view_def)
next
  case (recv_failed s result ok x)
  then have u: "\<not> isUsingSession (ses s)" and x: "x = DecreaseIOCount (ses s)"
    by (auto simp: io_inv_def send_inv_def OnIoCompleted_def)
  have "io_inv contents valid (s\<lparr>ses := x, recvs_out := recvs_out s - 1, holds := holds s\<rparr>)"
    using recv_failed(1,3) unfolding x
    by (intro io_invI_view) (auto simp: DecreaseIOCount_facts u io_inv_def)
  then show ?case by simp
next
  case (disconnect s)
  then have "Disconnect (ses s) = ses s" by (simp add: Disconnect_def io_inv_def send_inv_def)
  with disconnect show ?case by simp
qed

lemma io_runs:
  "lfq_contract Q contents valid \<Longrightarrow>
   inductive_invariant (io_init contents valid) (io_step nb R Q) (io_inv contents valid)"
  by unfold_locales (auto intro: io_init_inv io_step_inv)

lemma drain_queue_exact:
  assumes c: "lfq_contract Q contents valid"
  shows "valid q \<Longrightarrow> \<exists>q'. drain_queue Q q acc = Some (acc @ contents q, q')"
proof (induction "contents q" arbitrary: q acc)
  case Nil
  then have "lfq_GetRestSize Q q = 0" using c by (simp add: lfq_contract_def)
  with Nil show ?case by (subst drain_queue.simps) simp
next
  case (Cons b bs)
  have f: "fifo_queue (lfq_Enqueue Q) (lfq_Dequeue Q) contents valid" using c by (simp add: lfq_contract_def)
  from fifo_queue.pop_front [OF f Cons.prems Cons.hyps(2) [symmetric]] obtain q1 where
    q1: "lfq_Dequeue Q q = Some (b, q1)" "contents q1 = bs" "valid q1" by blast
  have "lfq_GetRestSize Q q > 0"
    using c Cons.prems Cons.hyps(2) [symmetric] by (simp add: lfq_contract_def)
  with q1 Cons.hyps(1) [OF q1(2) [symmetric] q1(3), of "acc @ [b]"] Cons.hyps(2) [symmetric]
  show ?case by (subst drain_queue.simps) simp
qed

text \<open>\<open>OnDisconnected\<close> returns, frees what is not freed yet, and leaves the actor's part alone.\<close>

lemma OnDisconnected_exact:
  assumes "lfq_contract Q contents valid" and "lfq_contract RQ contents valid"
    and inv: "send_inv contents valid x sent"
  shows "\<exists>y. OnDisconnected RQ Q x = Some y \<and> freed (io_log y) = sent \<and> sock y = INVALID_SOCKET \<and>
    actor.truncate y = actor.truncate x"
proof -
  obtain rq where rq: "drain_queue RQ (recvStoredQueue x) [] = Some ([], rq)"
    using drain_queue_exact [OF assms(2), of "recvStoredQueue x" "[]"] inv by (auto simp: send_inv_def)
  obtain q where q: "drain_queue Q (sendQueue x) [] = Some (contents (sendQueue x), q)"
    using drain_queue_exact [OF assms(1), of "sendQueue x" "[]"] inv by (auto simp: send_inv_def)
  have fold: "fold (\<lambda>b. log_io (Freed b)) bs z = z\<lparr>io_log := io_log z @ map Freed bs\<rparr>" for bs z
    by (induction bs arbitrary: z) (simp_all add: log_io_def)
  have fm: "freed (map Freed bs) = bs" for bs by (induction bs) simp_all
  show ?thesis
    using inv rq q by (simp add: OnDisconnected_def log_io_def fold fm send_inv_def Let_def actor.defs)
qed

section \<open>Properties\<close>

text \<open>
  Reference count. In every run, \<open>ioCount\<close> is the number of receives and sends the system has not
  completed yet plus the references the accept thread holds; so it is never negative, and it reaches
  zero exactly when nothing refers to the session.
\<close>

theorem session_refcount_exact:
  assumes "lfq_contract Q contents valid" and "reach (io_init contents valid) (io_step nb R Q) s"
  shows "ioCount (ses s) = int (sends_out s + recvs_out s + holds s)"
  using inductive_invariant.reach_inv [OF io_runs [OF assms(1)] assms(2)] by (simp add: io_inv_def)

text \<open>
  C14. Sending is a FIFO stream. In every run in which the handlers of the session do not overlap, the
  buffers given to \<open>WSASend\<close>, batch after batch, followed by those still queued, are exactly the buffers
  of all \<open>SendPacket\<close> calls in their order; a batch has between 1 and 20 buffers, at most one send is in
  flight, and no buffer waits while the session is not sending. (With overlapping handlers the order
  still holds, but a packet can wait in an idle session: see \<open>SendRaces\<close>.)
\<close>

theorem session_sends_fifo:
  assumes "lfq_contract Q contents valid" and "reach (io_init contents valid) (io_step nb R Q) s"
  shows "concat (send_batches (io_log (ses s))) @ contents (sendQueue (ses s)) = enqueued s \<and>
     list_all (\<lambda>bs. 1 \<le> length bs \<and> length bs \<le> 20) (send_batches (io_log (ses s))) \<and>
     sends_out s \<le> 1 \<and>
     (ioMode (ses s) = IO_NONE_SENDING \<longrightarrow> contents (sendQueue (ses s)) = [] \<and> sends_out s = 0)"
proof -
  have inv: "io_inv contents valid s"
    by (rule inductive_invariant.reach_inv [OF io_runs [OF assms(1)] assms(2)])
  then have "list_all (\<lambda>bs. 1 \<le> length bs \<and> length bs \<le> 20) (send_batches (io_log (ses s)))"
    by (auto simp: io_inv_def send_inv_def list_all_iff Suc_le_eq)
  with inv show ?thesis by (simp add: io_inv_def send_inv_def)
qed

text \<open>
  C15. Every buffer is freed once. At any point of a run in which the handlers of the session do not
  overlap, \<open>OnDisconnected\<close> returns, and then the buffers freed since the session was created are exactly those
  of all \<open>SendPacket\<close> calls, in order: none is leaked and none is freed twice. (When \<open>OnDisconnected\<close>
  overlaps the last completion of a send, a buffer can be freed twice: see \<open>SessionTeardown\<close>.)
\<close>

theorem session_buffers_freed_once:
  assumes "lfq_contract Q contents valid" and "lfq_contract RQ contents valid"
    and "reach (io_init contents valid) (io_step nb R Q) s"
  shows "\<exists>x. OnDisconnected RQ Q (ses s) = Some x \<and> freed (io_log x) = enqueued s \<and> sock x = INVALID_SOCKET"
proof -
  have "send_inv contents valid (ses s) (enqueued s)"
    using inductive_invariant.reach_inv [OF io_runs [OF assms(1)] assms(3)] by (simp add: io_inv_def)
  from OnDisconnected_exact [OF assms(1,2) this] show ?thesis by blast
qed

lemma silenced_step:
  assumes "io_step nb R Q s t" and "ioMode (ses s) = IO_SENDING" and "sends_out s = 0"
    and "\<not> isUsingSession (ses s)"
  shows "ioMode (ses t) = IO_SENDING \<and> sends_out t = 0 \<and> \<not> isUsingSession (ses t) \<and>
    send_batches (io_log (ses t)) = send_batches (io_log (ses s))"
  using assms(1)
proof (cases rule: io_step.cases)
  case hold
  with assms show ?thesis using IncreaseIOCount_facts [of "ses s"] by (auto simp: send_view_def)
next
  case unhold
  with assms show ?thesis using DecreaseIOCount_facts [of "ses s"] by (auto simp: send_view_def)
next
  case (first_recv result ok x)
  with assms show ?thesis using DoRecv_facts [OF first_recv(3)] by (auto simp: send_view_def)
next
  case (send alloc result pkt ok x)
  then have "ioMode x = IO_SENDING \<and> \<not> isUsingSession x \<and> io_log x = io_log (ses s)"
    using assms(2,4) by (auto simp: SendPacket_def DoSend_busy split: option.splits)
  with send assms show ?thesis by (simp add: successes_def)
next
  case (send_done transferred result ok x)
  with assms show ?thesis by simp
next
  case (recv_done transferred result ok x)
  then have o: "OnRecvIoCompleted nb R result (ses s) transferred = Some (ok, x)"
    by (simp add: OnIoCompleted_def)
  with OnRecvIoCompleted_facts [OF o assms(4)] recv_done assms show ?thesis by (auto simp: send_view_def)
next
  case (send_failed result ok x)
  with assms show ?thesis by simp
next
  case (recv_failed result ok x)
  with assms show ?thesis using DecreaseIOCount_facts [of "ses s"]
    by (auto simp: OnIoCompleted_def send_view_def)
next
  case disconnect
  with assms show ?thesis by (simp add: Disconnect_def)
qed

text \<open>
  A failed \<open>WSASend\<close> silences the session. Once the mode is \<open>IO_SENDING\<close> with no send in flight,
  which a failed \<open>WSASend\<close> leaves behind, no later event ever starts a send again, while \<open>SendPacket\<close>
  goes on returning true.
\<close>

theorem failed_send_silences_session:
  assumes "lfq_contract Q contents valid" and "reach (io_init contents valid) (io_step nb R Q) s"
    and "ioMode (ses s) = IO_SENDING" and "sends_out s = 0" and "(io_step nb R Q)\<^sup>*\<^sup>* s t"
    and "BuildPacketBuffer nb alloc pkt = Some b"
  shows "send_batches (io_log (ses t)) = send_batches (io_log (ses s)) \<and>
     (\<exists>x. SendPacket nb Q alloc result pkt (ses t) = Some (True, x) \<and> io_log x = io_log (ses t))"
proof -
  have "\<not> isUsingSession (ses s)"
    using inductive_invariant.reach_inv [OF io_runs [OF assms(1)] assms(2)] by (simp add: io_inv_def send_inv_def)
  from assms(5) this assms(3,4) have "ioMode (ses t) = IO_SENDING \<and> sends_out t = 0 \<and> \<not> isUsingSession (ses t) \<and>
      send_batches (io_log (ses t)) = send_batches (io_log (ses s))"
    by (induction rule: rtranclp_induct) (auto dest: silenced_step)
  then show ?thesis using assms(6) by (simp add: SendPacket_def DoSend_busy)
qed

text \<open>
  \<open>Disconnect\<close> does nothing. \<open>isUsingSession\<close> is set by \<open>OnConnected\<close> only, which no code of the
  server calls; so in every run \<open>Disconnect\<close> leaves the session as it is and never shuts the socket down.
\<close>

theorem Disconnect_never_acts:
  assumes "lfq_contract Q contents valid" and "reach (io_init contents valid) (io_step nb R Q) s"
  shows "Disconnect (ses s) = ses s"
  using inductive_invariant.reach_inv [OF io_runs [OF assms(1)] assms(2)]
  by (simp add: io_inv_def send_inv_def Disconnect_def)

section \<open>A sample run\<close>

text \<open>Lists as the queue, the ring buffer and the network buffers.\<close>

definition list_lfq :: "('x, 'x list) lfq" where
  "list_lfq = \<lparr>lfq_Enqueue = queue_push, lfq_Dequeue = queue_pop, lfq_GetRestSize = (\<lambda>q. int (length q))\<rparr>"

lemma list_lfq_contract: "lfq_contract list_lfq (\<lambda>q. q) (\<lambda>_. True)"
  using stdq.fifo_queue_axioms by (simp add: lfq_contract_def list_lfq_def)

definition list_ring :: "(u8 list \<times> u8 list) ring_ops" where
  "list_ring = \<lparr>rb_GetNotBrokenPutSize = (\<lambda>r. 1000 - int (length (fst r))),
     rb_GetFreeSize = (\<lambda>r. 1000 - int (length (fst r))),
     rb_MoveWritePos = (\<lambda>n r. (fst r @ take (nat n) (snd r), drop (nat n) (snd r))),
     rb_GetUseSize = (\<lambda>r. int (length (fst r))), rb_Peek = (\<lambda>n r. take n (fst r)),
     rb_RemoveData = (\<lambda>n r. (drop n (fst r), snd r)),
     rb_Dequeue = (\<lambda>n r. (take n (fst r), (drop n (fst r), snd r)))\<rparr>"

lemma list_ring_contract: "ring_contract list_ring fst"
  by (simp add: ring_contract_def list_ring_def)

definition list_io :: "(u8 list \<times> nat) NetBuffer_io" where
  "list_io = NetBuffer_ops.extend list_nb
     \<lparr>nb_HEADER_SIZE = 5, nb_DEFAULTSIZE = 100, nb_Fresh = ([], 0),
      nb_PutHeader = (\<lambda>h b. (h @ drop (length h) (fst b), snd b)), nb_SetRead = (\<lambda>n b. (fst b, n)),
      nb_Append = (\<lambda>bs b. (fst b @ bs, snd b)), nb_Decode = (\<lambda>b. (True, (fst b, 5))),
      nb_WriteU32 = (\<lambda>v b. (fst b @ le_bytes 4 (unat v), snd b)), nb_IsEncoded = (\<lambda>_. False),
      nb_SealForSend = (\<lambda>b. b),
      nb_Encode = (\<lambda>b. ([0] @ le_bytes 2 (length (fst b)) @ [0, 0] @ fst b, 5))\<rparr>"

type_synonym sample_sys = "(nat, u8 list \<times> nat, (u8 list \<times> nat) list, u8 list \<times> u8 list) io_sys"

definition pong :: packet where
  "pong = \<lparr>GetPacketId = 2, packet_body = []\<rparr>"

definition pong_buffer :: "u8 list \<times> nat" where
  "pong_buffer = ([0] @ le_bytes 2 4 @ [0, 0] @ le_bytes 4 2, 5)"

lemma build_pong: "BuildPacketBuffer list_io (Some ([], 0)) pong = Some pong_buffer"
  by (simp add: BuildPacketBuffer_def pong_def list_io_def NetBuffer_ops.extend_def list_nb_def
      pong_buffer_def length_le_bytes Let_def)

abbreviation sample_step :: "sample_sys \<Rightarrow> sample_sys \<Rightarrow> bool" where
  "sample_step \<equiv> io_step list_io list_ring list_lfq"

abbreviation sample_reach :: "sample_sys \<Rightarrow> bool" where
  "sample_reach \<equiv> reach (io_init (\<lambda>q. q) (\<lambda>_. True)) sample_step"

definition sys0 :: sample_sys where
  "sys0 = \<lparr>ses = Session_ctor (new_actor 1 0) 7 [] ([], []), sends_out = 0, recvs_out = 0, holds = 0,
     enqueued = []\<rparr>"

definition do_send :: "io_result \<Rightarrow> sample_sys \<Rightarrow> sample_sys" where
  "do_send result s =
     (let x = snd (the (SendPacket list_io list_lfq (Some ([], 0)) result pong (ses s)))
      in s\<lparr>ses := x, enqueued := enqueued s @ [pong_buffer],
           sends_out := sends_out s + successes result (new_sends (ses s) x)\<rparr>)"

definition do_send_done :: "io_result \<Rightarrow> sample_sys \<Rightarrow> sample_sys" where
  "do_send_done result s =
     (let x = snd (the (OnSendIoCompleted list_lfq result (ses s)))
      in s\<lparr>ses := x, sends_out := sends_out s - 1 + successes result (new_sends (ses s) x)\<rparr>)"

lemma sample_reach_inv: "sample_reach s \<Longrightarrow> send_inv (\<lambda>q. q) (\<lambda>_. True) (ses s) (enqueued s)"
  using inductive_invariant.reach_inv [OF io_runs [OF list_lfq_contract]] unfolding io_inv_def by blast

lemma reach_sys0: "sample_reach sys0"
  by (rule reach_init) (auto simp: io_init_def sys0_def)

lemma reach_do_send:
  assumes "sample_reach s"
  shows "sample_reach (do_send result s)"
proof -
  have "send_pre (\<lambda>q. q) (\<lambda>_. True)
      ((ses s)\<lparr>sendQueue := lfq_Enqueue list_lfq pong_buffer (sendQueue (ses s))\<rparr>) (enqueued s @ [pong_buffer])"
    using sample_reach_inv [OF assms] by (auto simp: send_inv_def send_pre_def list_lfq_def queue_push_def)
  from DoSend_facts [OF list_lfq_contract this, of result] obtain ok x where
    "SendPacket list_io list_lfq (Some ([], 0)) result pong (ses s) = Some (ok, x)"
    unfolding SendPacket_def build_pong by auto
  from io_step.send [OF this, where R = list_ring] this have "sample_step s (do_send result s)"
    by (simp add: do_send_def build_pong new_sends_def Let_def)
  with assms show ?thesis by (rule reach_step)
qed

lemma reach_do_send_done:
  assumes "sample_reach s" and "0 < sends_out s"
  shows "sample_reach (do_send_done result s)"
proof -
  obtain ok x where o: "OnSendIoCompleted list_lfq result (ses s) = Some (ok, x)"
    using OnSendIoCompleted_facts [OF list_lfq_contract sample_reach_inv [OF assms(1)]] by blast
  then have "OnIoCompleted list_io list_ring list_lfq result (ses s) SendOverlapped 1 = Some (ok, x)"
    by (simp add: OnIoCompleted_def)
  from io_step.send_done [OF assms(2) _ this] o have "sample_step s (do_send_done result s)"
    by (simp add: do_send_done_def new_sends_def Let_def)
  with assms(1) show ?thesis by (rule reach_step)
qed

text \<open>
  The accept thread holds the session, posts the first receive and lets go; two packets are sent; the
  peer closes; then the two sends complete.
\<close>

definition sys_accepted :: sample_sys where
  "sys_accepted =
     (let s1 = sys0\<lparr>ses := IncreaseIOCount (ses sys0), holds := Suc (holds sys0)\<rparr>;
          s2 = s1\<lparr>ses := snd (DoRecv list_ring IoPending (ses s1)), recvs_out := recvs_out s1 + successes IoPending 1\<rparr>
      in s2\<lparr>ses := DecreaseIOCount (ses s2), holds := holds s2 - 1\<rparr>)"

lemma reach_accepted: "sample_reach sys_accepted"
proof -
  let ?s1 = "sys0\<lparr>ses := IncreaseIOCount (ses sys0), holds := Suc (holds sys0)\<rparr>"
  let ?s2 = "?s1\<lparr>ses := snd (DoRecv list_ring IoPending (ses ?s1)), recvs_out := recvs_out ?s1 + successes IoPending 1\<rparr>"
  have "sample_reach ?s1" by (rule reach_step [OF reach_sys0]) (rule io_step.hold)
  moreover have "sample_step ?s1 ?s2"
    by (rule io_step.first_recv [where ok = "fst (DoRecv list_ring IoPending (ses ?s1))"]) simp_all
  ultimately have "sample_reach ?s2" by (rule reach_step)
  then have "sample_reach (?s2\<lparr>ses := DecreaseIOCount (ses ?s2), holds := holds ?s2 - 1\<rparr>)"
    by (rule reach_step) (rule io_step.unhold, simp)
  then show ?thesis by (simp add: sys_accepted_def Let_def)
qed

definition sys_closed :: sample_sys where
  "sys_closed =
     (let s = do_send IoPending (do_send IoPending sys_accepted)
      in s\<lparr>ses := DecreaseIOCount (ses s), recvs_out := recvs_out s - 1\<rparr>)"

lemmas sample_eval = do_send_def do_send_done_def sys_accepted_def sys_closed_def sys0_def Session_ctor_def
  actor.extend_def new_actor_def IncreaseIOCount_def DecreaseIOCount_def DoRecv_def log_io_def
  list_ring_def list_lfq_def successes_def SendPacket_def build_pong OnSendIoCompleted_def DoSend_def DoSend_loop.simps
  Session_ReleaseSession_def ONE_SEND_WSABUF_MAX_def new_sends_def queue_push_def queue_pop_def Let_def

lemma sys_accepted_eq:
  "sends_out sys_accepted = 0" "recvs_out sys_accepted = 1"
  "ioMode (ses sys_accepted) = IO_NONE_SENDING" "sendQueue (ses sys_accepted) = []"
  "send_batches (io_log (ses sys_accepted)) = []" "ioCount (ses sys_accepted) = 1"
  by (simp_all add: sample_eval)

lemma sys_closed_eq: "recvs_out (do_send IoPending (do_send IoPending sys_accepted)) = 1"
  "sends_out sys_closed = 1"
  by (simp_all add: sample_eval)

definition sys_released :: sample_sys where
  "sys_released = do_send_done IoDone (do_send_done IoPending sys_closed)"

lemma reach_sys_closed: "sample_reach sys_closed"
proof -
  let ?s = "do_send IoPending (do_send IoPending sys_accepted)"
  have "OnIoCompleted list_io list_ring list_lfq IoDone (ses ?s) RecvOverlapped 0 =
      Some (True, DecreaseIOCount (ses ?s))" by (simp add: OnIoCompleted_def)
  from io_step.recv_failed [OF _ this] have "sample_step ?s sys_closed"
    by (simp add: sys_closed_eq sys_closed_def Let_def)
  with reach_do_send [OF reach_do_send [OF reach_accepted]] show ?thesis by (rule reach_step)
qed

lemma sends_out_first_done: "sends_out (do_send_done IoPending sys_closed) = 1"
  by (simp add: sample_eval)

lemma reach_sys_released: "sample_reach sys_released"
  unfolding sys_released_def
  by (intro reach_do_send_done reach_sys_closed) (simp_all add: sends_out_first_done sys_closed_eq)

lemma sys_released_log:
  "filter (\<lambda>e. e = ReleaseRequested 1 0) (io_log (ses sys_released)) = [ReleaseRequested 1 0, ReleaseRequested 1 0]"
  by (simp add: sys_released_def sample_eval)

text \<open>
  A session can be released twice. There is a run in which the release of one session is requested
  twice: \<open>OnSendIoCompleted\<close> gives its reference back, which requests the release, and then starts
  another send, whose completion requests it again.
\<close>

theorem session_released_twice:
  "\<exists>s. sample_reach s \<and>
     length (filter (\<lambda>e. e = ReleaseRequested 1 0) (io_log (ses s))) = 2"
  by (rule exI [of _ sys_released]) (simp add: reach_sys_released sys_released_log)

theorem session_refcount_exact_witness:
  "ioCount (ses sys_closed) = int (1 + recvs_out sys_closed + holds sys_closed)"
  using session_refcount_exact [OF list_lfq_contract reach_sys_closed] by (simp add: sys_closed_eq)

theorem session_sends_fifo_witness:
  "concat (send_batches (io_log (ses sys_released))) @ sendQueue (ses sys_released) = enqueued sys_released"
  using session_sends_fifo [OF list_lfq_contract reach_sys_released] by simp

theorem session_buffers_freed_once_witness:
  "\<exists>x. OnDisconnected list_lfq list_lfq (ses sys_closed) = Some x \<and> freed (io_log x) = enqueued sys_closed"
  using session_buffers_freed_once [OF list_lfq_contract list_lfq_contract reach_sys_closed] by blast

lemma failed_send: "ioMode (ses (do_send IoFailed sys_accepted)) = IO_SENDING"
  "sends_out (do_send IoFailed sys_accepted) = 0"
  by (simp_all add: sample_eval)

theorem failed_send_silences_session_witness:
  "\<exists>x. SendPacket list_io list_lfq (Some ([], 0)) IoDone pong (ses (do_send IoFailed sys_accepted)) = Some (True, x) \<and>
     io_log x = io_log (ses (do_send IoFailed sys_accepted))"
  using failed_send_silences_session [OF list_lfq_contract reach_do_send [OF reach_accepted] failed_send
      rtranclp.rtrancl_refl build_pong] by blast

theorem Disconnect_never_acts_witness:
  "Disconnect (ses sys_accepted) = ses sys_accepted"
  by (rule Disconnect_never_acts [OF list_lfq_contract reach_accepted])

end
