(* ===== verification/RecvFrames.thy ===== *)
theory RecvFrames
  imports SessionRuns
begin

text \<open>
  How received bytes become messages: \<open>OnRecvIoCompleted\<close> cuts the ring buffer into frames, a header
  followed by the payload whose length it announces, and sends the message of each frame to the
  session itself.
\<close>

section \<open>Frames\<close>

type_synonym frame = "u8 list \<times> u8 list"

definition frame_bytes :: "frame \<Rightarrow> u8 list" where
  "frame_bytes f = fst f @ snd f"

definition header_buffer :: "('b, 'y) NetBuffer_io_scheme \<Rightarrow> u8 list \<Rightarrow> 'b" where
  "header_buffer nb hdr = nb_SetRead nb 0 (nb_PutHeader nb hdr (nb_Fresh nb))"

text \<open>A complete frame the buffer decodes and a registered handler accepts, and its message.\<close>

definition frame_ok :: "('b, 'y) NetBuffer_io_scheme \<Rightarrow> ('h, 'z) actor_scheme \<Rightarrow> frame \<Rightarrow> 'h message \<Rightarrow> bool" where
  "frame_ok nb a f m \<longleftrightarrow>
     length (fst f) = nb_HEADER_SIZE nb \<and> snd f \<noteq> [] \<and>
     payload_length nb (header_buffer nb (fst f)) = length (snd f) \<and>
     (case nb_Decode nb (nb_Append nb (snd f) (header_buffer nb (fst f))) of
        (ok, b) \<Rightarrow> ok \<and> fst (CreateMessageFromPacket nb a b) = Value m)"

lemma CreateMessage_cong:
  "messageFactories a = messageFactories a' \<Longrightarrow> CreateMessageFromPacket nb a b = CreateMessageFromPacket nb a' b"
  by (simp add: CreateMessageFromPacket_def FindFunctionObject_def)

lemma frame_ok_cong:
  "messageFactories a = messageFactories a' \<Longrightarrow> frame_ok nb a f m = frame_ok nb a' f m"
  using CreateMessage_cong [of a a' nb] by (simp add: frame_ok_def)

section \<open>The loop\<close>

definition delivered :: "'r \<Rightarrow> 'h message list \<Rightarrow> ('h, 'b, 'q, 'r) session \<Rightarrow> ('h, 'b, 'q, 'r) session" where
  "delivered r ms s = s\<lparr>storeQueue := storeQueue s @ ms, ringBuffer := r\<rparr>"

lemma delivered_simps [simp]:
  "ringBuffer (delivered r ms s) = r" "storeQueue (delivered r ms s) = storeQueue s @ ms"
  "isStop (delivered r ms s) = isStop s" "messageFactories (delivered r ms s) = messageFactories s"
  "delivered r' ms' (delivered r ms s) = delivered r' (ms @ ms') s"
  "ioCount (delivered r ms s) = ioCount s" "io_log (delivered r ms s) = io_log s"
  by (simp_all add: delivered_def)

lemma recv_one_frame:
  assumes R: "ring_contract R bytes" and b: "bytes (ringBuffer s) = frame_bytes f @ rest"
    and f: "frame_ok nb s f m" and run: "\<not> isStop s" and n: "n = int (length (bytes (ringBuffer s)))"
  shows "\<exists>r. recv_one nb R s n = Some (True, delivered r [m] s, int (length rest)) \<and> bytes r = rest"
proof -
  let ?H = "nb_HEADER_SIZE nb"
  let ?r1 = "rb_RemoveData R ?H (ringBuffer s)"
  obtain r where d: "rb_Dequeue R (length (snd f)) ?r1 = (fst (rb_Dequeue R (length (snd f)) ?r1), r)"
    and r: "r = snd (rb_Dequeue R (length (snd f)) ?r1)" by simp
  have hl: "length (fst f) = ?H" using f by (simp add: frame_ok_def)
  then have peek: "rb_Peek R ?H (ringBuffer s) = fst f"
    and b1: "bytes ?r1 = snd f @ rest"
    using R b by (auto simp: ring_contract_def frame_bytes_def)
  then have deq: "fst (rb_Dequeue R (length (snd f)) ?r1) = snd f" and br: "bytes r = rest"
    using R by (simp_all add: ring_contract_def r)
  obtain bf where dec: "nb_Decode nb (nb_Append nb (snd f) (header_buffer nb (fst f))) = (True, bf)"
    and cm: "fst (CreateMessageFromPacket nb s bf) = Value m"
    using f by (auto simp: frame_ok_def split: prod.splits)
  have pl: "payload_length nb (header_buffer nb (fst f)) = length (snd f)" using f by (simp add: frame_ok_def)
  have n': "n = int (length (snd f)) + int ?H + int (length rest)"
    using n b hl by (simp add: frame_bytes_def)
  have "RecvStreamToBuffer nb R s (nb_Fresh nb) n = (True, s\<lparr>ringBuffer := r\<rparr>, bf, int (length rest))"
    using peek deq d dec pl n'
    by (simp add: RecvStreamToBuffer_def header_buffer_def PacketDecode_def Let_def)
  moreover have "fst (CreateMessageFromPacket nb (s\<lparr>ringBuffer := r\<rparr>) bf) = Value m"
    using cm CreateMessage_cong [of "s\<lparr>ringBuffer := r\<rparr>" s nb bf] by simp
  ultimately have "recv_one nb R s n = Some (True, delivered r [m] s, int (length rest))"
    using run by (simp add: recv_one_def SendMessage_def push_store_def queue_push_def delivered_def)
  with br show ?thesis by blast
qed

lemma recv_loop_frames:
  assumes R: "ring_contract R bytes"
  shows "list_all2 (frame_ok nb s) fs ms \<Longrightarrow> \<not> isStop s \<Longrightarrow> length tail \<le> nb_HEADER_SIZE nb \<Longrightarrow>
    bytes (ringBuffer s) = concat (map frame_bytes fs) @ tail \<Longrightarrow>
    \<exists>r. recv_loop nb R s (int (length (bytes (ringBuffer s)))) = Some (True, delivered r ms s) \<and> bytes r = tail"
proof (induction fs arbitrary: s ms)
  case Nil
  then have "delivered (ringBuffer s) ms s = s" by (simp add: delivered_def)
  with Nil show ?case
    by (intro exI [of _ "ringBuffer s"]) (subst recv_loop.simps, simp)
next
  case (Cons f fs)
  from Cons.prems(1) obtain m ms' where ms: "ms = m # ms'" and f: "frame_ok nb s f m"
    and fs: "list_all2 (frame_ok nb s) fs ms'" by (auto simp: list_all2_Cons1)
  let ?rest = "concat (map frame_bytes fs) @ tail"
  have b: "bytes (ringBuffer s) = frame_bytes f @ ?rest" using Cons.prems(4) by simp
  from recv_one_frame [OF R b f Cons.prems(2) refl] obtain r1 where
    o: "recv_one nb R s (int (length (bytes (ringBuffer s)))) = Some (True, delivered r1 [m] s, int (length ?rest))"
    and r1: "bytes r1 = ?rest" by blast
  have "list_all2 (frame_ok nb (delivered r1 [m] s)) fs ms'"
    using fs frame_ok_cong [of "delivered r1 [m] s" s nb] by (simp add: list_all2_mono)
  from Cons.IH [OF this] Cons.prems(2,3) r1 obtain r where
    l: "recv_loop nb R (delivered r1 [m] s) (int (length ?rest)) = Some (True, delivered r ms s)"
    and r: "bytes r = tail" by (auto simp: ms)
  have "int (nb_HEADER_SIZE nb) < int (length (bytes (ringBuffer s)))"
    using b f by (cases "snd f") (auto simp: frame_ok_def frame_bytes_def)
  with o l r show ?case by (subst recv_loop.simps) auto
qed

section \<open>Properties\<close>

text \<open>
  C16. Complete frames are delivered. When the received bytes complete any number of frames that decode
  and have a handler, leaving at most a header's worth of bytes, \<open>OnRecvIoCompleted\<close> returns, has queued
  exactly the messages of these frames in the order they arrived, keeps the remaining bytes, and posts
  the next receive.
\<close>

theorem OnRecvIoCompleted_delivers:
  assumes "ring_contract R bytes" and "\<not> isStop s" and "list_all2 (frame_ok nb s) fs ms"
    and "bytes (rb_MoveWritePos R n (ringBuffer s)) = concat (map frame_bytes fs) @ tail"
    and "length tail \<le> nb_HEADER_SIZE nb"
  shows "\<exists>y. OnRecvIoCompleted nb R result s n = Some (result \<noteq> IoFailed, y) \<and>
     storeQueue y = storeQueue s @ ms \<and> bytes (ringBuffer y) = tail \<and>
     recv_posts (io_log y) = Suc (recv_posts (io_log s))"
proof -
  let ?s = "s\<lparr>ringBuffer := rb_MoveWritePos R n (ringBuffer s)\<rparr>"
  have fs: "list_all2 (frame_ok nb ?s) fs ms"
    using assms(3) frame_ok_cong [of ?s s nb] by (simp add: list_all2_mono)
  have b: "bytes (ringBuffer ?s) = concat (map frame_bytes fs) @ tail" using assms(4) by simp
  have u: "rb_GetUseSize R (ringBuffer ?s) = int (length (bytes (ringBuffer ?s)))"
    using assms(1) by (simp add: ring_contract_def)
  obtain r where l: "recv_loop nb R ?s (int (length (bytes (ringBuffer ?s)))) = Some (True, delivered r ms ?s)"
    and r: "bytes r = tail"
    using recv_loop_frames [OF assms(1) fs _ assms(5) b] assms(2) by auto
  obtain ok y where d: "DoRecv R result (delivered r ms ?s) = (ok, y)" by fastforce
  then have ok: "ok = (result \<noteq> IoFailed)" and y: "storeQueue y = storeQueue s @ ms" "ringBuffer y = r"
    by (auto simp: DoRecv_def Let_def log_io_def IncreaseIOCount_def DecreaseIOCount_def
        Session_ReleaseSession_def split: io_result.splits)
  have "storeQueue (DecreaseIOCount y) = storeQueue y" "ringBuffer (DecreaseIOCount y) = ringBuffer y"
    by (simp_all add: DecreaseIOCount_def Session_ReleaseSession_def log_io_def Let_def)
  then show ?thesis
    using l u d ok y r DoRecv_facts(4) [OF d] DecreaseIOCount_facts(4) [of y]
    by (simp add: OnRecvIoCompleted_def Let_def)
qed



section \<open>Examples\<close>

text \<open>A buffer whose \<open>Decode\<close> wants the payload complete, and a session with one handler for id 2.\<close>

definition strict_io :: "(u8 list \<times> nat) NetBuffer_io" where
  "strict_io = list_io\<lparr>nb_Decode := (\<lambda>b. (length (fst b) = 5 + le_nat (take 2 (drop 1 (fst b))), (fst b, 5)))\<rparr>"

definition handling_session :: "u8 list \<Rightarrow> (nat, u8 list \<times> nat, (u8 list \<times> nat) list, u8 list \<times> u8 list) session" where
  "handling_session incoming = Session_ctor ((new_actor 1 0)\<lparr>messageFactories := [(2, (9, []))]\<rparr>) 7 [] ([], incoming)"

definition pong_frame :: frame where
  "pong_frame = ([0, 4, 0, 0, 0], [2, 0, 0, 0])"

lemmas frame_eval = strict_io_def list_io_def NetBuffer_ops.extend_def list_nb_def handling_session_def
  Session_ctor_def actor.extend_def new_actor_def pong_frame_def header_buffer_def payload_length_def

lemma pong_frame_ok: "frame_ok strict_io (handling_session bs) pong_frame (Bound 9 [])"
  by (simp add: frame_ok_def frame_eval CreateMessageFromPacket_def FindFunctionObject_def
      message_factory_def Deserialize_def umap_find_def)


text \<open>Two packets arrive together, with the first three bytes of a third.\<close>

theorem OnRecvIoCompleted_delivers_witness:
  "\<exists>y. OnRecvIoCompleted strict_io list_ring IoPending
       (handling_session (frame_bytes pong_frame @ frame_bytes pong_frame @ [0, 4, 0])) 21 = Some (True, y) \<and>
     storeQueue y = [Bound 9 [], Bound 9 []] \<and> fst (ringBuffer y) = [0, 4, 0]"
  using OnRecvIoCompleted_delivers [OF list_ring_contract, where nb = strict_io and result = IoPending and n = 21
      and s = "handling_session (frame_bytes pong_frame @ frame_bytes pong_frame @ [0, 4, 0])"
      and fs = "[pong_frame, pong_frame]" and ms = "[Bound 9 [], Bound 9 []]" and tail = "[0, 4, 0]"]
    pong_frame_ok [of "frame_bytes pong_frame @ frame_bytes pong_frame @ [0, 4, 0]"]
  by (auto simp: frame_eval list_ring_def frame_bytes_def)


end
