(* ===== verification/SendRaces.thy ===== *)
theory SendRaces
  imports SessionIO "HOL-Library.Sublist"
begin

text \<open>
  \<open>Session::DoSend\<close> under concurrency: any number of threads run \<open>SendPacket\<close>, and completions run
  \<open>OnSendIoCompleted\<close>, one shared access per step (the two \<open>compare_exchange_strong\<close>, the read of
  the queue's size, each \<open>Dequeue\<close> into its slot of the shared \<open>sendBufferStore\<close>, the \<open>WSASend\<close> of the
  slots, and the store of the mode in the completion). A \<open>WSASend\<close> that fails is a step of its own:
  nothing is in flight then, and the mode is left taken. \<open>queued\<close> and \<open>handed\<close> record the packets in
  the order in which they were queued and the batches in the order in which \<open>WSASend\<close> was called.
\<close>

section \<open>The threads\<close>

text \<open>Where a thread is inside \<open>DoSend\<close>, with its locals \<open>expected\<close>, or \<open>i\<close> and \<open>restSize\<close>.\<close>

datatype send_pc =
    Outside_send
  | CasTake io_mode
  | ReadSize io_mode
  | CasRelease io_mode
  | Dequeuing nat nat

record 'b race_sys =
  mode :: io_mode
  waiting :: "'b list"
  store :: "nat \<Rightarrow> 'b"
  threads :: "nat \<Rightarrow> send_pc"
  in_flight :: bool
  posted_batches :: "'b list list"
  handed :: "'b list list"
  queued :: "'b list"

definition race_init :: "'b race_sys \<Rightarrow> bool" where
  "race_init s \<longleftrightarrow> mode s = IO_NONE_SENDING \<and> waiting s = [] \<and> threads s = (\<lambda>_. Outside_send) \<and>
     \<not> in_flight s \<and> posted_batches s = [] \<and> handed s = [] \<and> queued s = []"

definition goto :: "nat \<Rightarrow> send_pc \<Rightarrow> 'b race_sys \<Rightarrow> 'b race_sys" where
  "goto i pc s = s\<lparr>threads := (threads s)(i := pc)\<rparr>"

inductive race_step :: "'b race_sys \<Rightarrow> 'b race_sys \<Rightarrow> bool" where
  enqueue: "threads s i = Outside_send \<Longrightarrow>
     race_step s (goto i (CasTake IO_NONE_SENDING) (s\<lparr>waiting := waiting s @ [b], queued := queued s @ [b]\<rparr>))"
| completion: "threads s i = Outside_send \<Longrightarrow> in_flight s \<Longrightarrow>
     race_step s (goto i (CasTake IO_NONE_SENDING) (s\<lparr>in_flight := False, mode := IO_NONE_SENDING\<rparr>))"
| take_ok: "threads s i = CasTake e \<Longrightarrow> mode s = e \<Longrightarrow>
     race_step s (goto i (ReadSize e) (s\<lparr>mode := IO_SENDING\<rparr>))"
| take_fail: "threads s i = CasTake e \<Longrightarrow> mode s \<noteq> e \<Longrightarrow> race_step s (goto i Outside_send s)"
| size_zero: "threads s i = ReadSize e \<Longrightarrow> waiting s = [] \<Longrightarrow> race_step s (goto i (CasRelease e) s)"
| size_some: "threads s i = ReadSize e \<Longrightarrow> waiting s \<noteq> [] \<Longrightarrow>
     race_step s (goto i (Dequeuing 0 (min ONE_SEND_WSABUF_MAX (length (waiting s)))) s)"
| dequeue: "threads s i = Dequeuing k n \<Longrightarrow> k < n \<Longrightarrow> waiting s = b # ws \<Longrightarrow>
     race_step s (goto i (Dequeuing (Suc k) n) (s\<lparr>waiting := ws, store := (store s)(k := b)\<rparr>))"
| dequeue_empty: "threads s i = Dequeuing k n \<Longrightarrow> k < n \<Longrightarrow> waiting s = [] \<Longrightarrow>
     race_step s (goto i (Dequeuing (Suc k) n) s)"
| release_ok: "threads s i = CasRelease e \<Longrightarrow> mode s = e \<Longrightarrow>
     race_step s (goto i Outside_send (s\<lparr>mode := IO_NONE_SENDING\<rparr>))"
| release_fail: "threads s i = CasRelease e \<Longrightarrow> mode s \<noteq> e \<Longrightarrow>
     race_step s (goto i (CasTake (mode s)) s)"
| post: "threads s i = Dequeuing n n \<Longrightarrow>
     race_step s (goto i Outside_send (s\<lparr>in_flight := True,
        posted_batches := posted_batches s @ [map (store s) [0..<n]],
        handed := handed s @ [map (store s) [0..<n]]\<rparr>))"
| post_fails: "threads s i = Dequeuing n n \<Longrightarrow>
     race_step s (goto i Outside_send (s\<lparr>handed := handed s @ [map (store s) [0..<n]]\<rparr>))"

section \<open>Exclusion\<close>

text \<open>A thread owns the mode from its first successful exchange until it posts or gives the mode back.\<close>

fun owns :: "send_pc \<Rightarrow> bool" where
  "owns Outside_send = False"
| "owns (CasTake e) = (e = IO_SENDING)"
| "owns (ReadSize e) = True"
| "owns (CasRelease e) = True"
| "owns (Dequeuing k n) = True"

definition race_inv :: "'b race_sys \<Rightarrow> bool" where
  "race_inv s \<longleftrightarrow>
     (\<forall>i j. owns (threads s i) \<and> owns (threads s j) \<longrightarrow> i = j) \<and>
     (\<forall>i. owns (threads s i) \<longrightarrow> mode s = IO_SENDING \<and> \<not> in_flight s) \<and>
     (in_flight s \<longrightarrow> mode s = IO_SENDING) \<and>
     (\<forall>i k n. threads s i = Dequeuing k n \<longrightarrow>
        1 \<le> n \<and> n \<le> 20 \<and> k \<le> n \<and> n - k \<le> length (waiting s)) \<and>
     (\<forall>bs \<in> set (posted_batches s). 1 \<le> length bs \<and> length bs \<le> 20)"

lemma race_init_inv: "race_init s \<Longrightarrow> race_inv s"
  by (simp add: race_init_def race_inv_def)

lemma race_invI:
  assumes "\<And>i j. owns (threads s i) \<Longrightarrow> owns (threads s j) \<Longrightarrow> i = j"
    and "\<And>i. owns (threads s i) \<Longrightarrow> mode s = IO_SENDING \<and> \<not> in_flight s"
    and "in_flight s \<Longrightarrow> mode s = IO_SENDING"
    and "\<And>i k n. threads s i = Dequeuing k n \<Longrightarrow> 1 \<le> n \<and> n \<le> 20 \<and> k \<le> n \<and> n - k \<le> length (waiting s)"
    and "\<And>bs. bs \<in> set (posted_batches s) \<Longrightarrow> 1 \<le> length bs \<and> length bs \<le> 20"
  shows "race_inv s"
  unfolding race_inv_def using assms by blast

lemma race_invD:
  assumes "race_inv s"
  shows "owns (threads s i) \<Longrightarrow> owns (threads s j) \<Longrightarrow> i = j"
    and "owns (threads s i) \<Longrightarrow> mode s = IO_SENDING" and "owns (threads s i) \<Longrightarrow> \<not> in_flight s"
    and "in_flight s \<Longrightarrow> mode s = IO_SENDING"
    and "threads s i = Dequeuing k n \<Longrightarrow> 1 \<le> n \<and> n \<le> 20 \<and> k \<le> n \<and> n - k \<le> length (waiting s)"
    and "bs \<in> set (posted_batches s) \<Longrightarrow> 1 \<le> length bs \<and> length bs \<le> 20"
  using assms unfolding race_inv_def by blast+

lemma only_owner_dequeues:
  assumes "race_inv s" and "owns (threads s i)" and "j \<noteq> i"
  shows "\<not> owns (threads s j)" and "threads s j \<noteq> Dequeuing k n"
proof -
  show "\<not> owns (threads s j)" using race_invD(1) [OF assms(1,2)] assms(3) by blast
  then show "threads s j \<noteq> Dequeuing k n" by (metis owns.simps(5))
qed

lemma no_owner:
  assumes "race_inv s" and "mode s \<noteq> IO_SENDING \<or> in_flight s"
  shows "\<not> owns (threads s j)" and "threads s j \<noteq> Dequeuing k n"
proof -
  show "\<not> owns (threads s j)" using race_invD(2,3) [OF assms(1)] assms(2) by blast
  then show "threads s j \<noteq> Dequeuing k n" by (metis owns.simps(5))
qed

text \<open>A thread that did not own the mode and does not own it afterwards leaves the others alone.\<close>

lemma race_inv_outsider:
  assumes inv: "race_inv s" and "\<not> owns (threads s i)" and "\<not> owns pc"
    and "length (waiting s) \<le> length ws"
  shows "race_inv (goto i pc (s\<lparr>waiting := ws, queued := qs\<rparr>))"
    (is "race_inv ?t")
proof (rule race_invI)
  show "j = k" if "owns (threads ?t j)" "owns (threads ?t k)" for j k
    using that assms(3) race_invD(1) [OF inv, of j k] by (auto simp: goto_def split: if_splits)
  show "mode ?t = IO_SENDING \<and> \<not> in_flight ?t" if "owns (threads ?t j)" for j
    using that assms(3) race_invD(2,3) [OF inv, of j] by (auto simp: goto_def split: if_splits)
  show "in_flight ?t \<Longrightarrow> mode ?t = IO_SENDING"
    using race_invD(4) [OF inv] by (simp add: goto_def)
  show "1 \<le> n \<and> n \<le> 20 \<and> k \<le> n \<and> n - k \<le> length (waiting ?t)" if "threads ?t j = Dequeuing k n" for j k n
    using that assms(3,4) race_invD(5) [OF inv, of j k n] by (auto simp: goto_def split: if_splits)
  show "1 \<le> length bs \<and> length bs \<le> 20" if "bs \<in> set (posted_batches ?t)" for bs
    using that race_invD(6) [OF inv, of bs] by (simp add: goto_def)
qed

text \<open>The owner moves on and stays the owner.\<close>

lemma race_inv_owner:
  assumes inv: "race_inv s" and o: "owns (threads s i)" and "owns pc"
    and "\<And>k n. pc = Dequeuing k n \<Longrightarrow> 1 \<le> n \<and> n \<le> 20 \<and> k \<le> n \<and> n - k \<le> length ws"
  shows "race_inv (goto i pc (s\<lparr>waiting := ws, store := st\<rparr>))"
    (is "race_inv ?t")
proof (rule race_invI)
  show "j = k" if "owns (threads ?t j)" "owns (threads ?t k)" for j k
    using that o race_invD(1) [OF inv] by (auto simp: goto_def split: if_splits)
  show "1 \<le> n \<and> n \<le> 20 \<and> k \<le> n \<and> n - k \<le> length (waiting ?t)" if "threads ?t j = Dequeuing k n" for j k n
    using that assms(4) only_owner_dequeues(2) [OF inv o] by (cases "j = i") (auto simp: goto_def)
qed (use assms race_invD [OF inv] in \<open>auto simp: goto_def split: if_splits\<close>)

text \<open>The only owner lets go: by giving the mode back, or with a send in flight.\<close>

lemma race_inv_leave:
  assumes inv: "race_inv s" and o: "owns (threads s i)" and "f \<Longrightarrow> m = IO_SENDING"
    and "\<And>bs. bs \<in> set bss \<Longrightarrow> 1 \<le> length bs \<and> length bs \<le> 20"
  shows "race_inv (goto i Outside_send (s\<lparr>mode := m, in_flight := f, posted_batches := bss, handed := hs\<rparr>))"
proof -
  have none: "\<not> owns (((threads s)(i := Outside_send)) j)" for j
    using only_owner_dequeues(1) [OF inv o] by simp
  then have "((threads s)(i := Outside_send)) j \<noteq> Dequeuing k n" for j k n by (metis owns.simps(5))
  with none show ?thesis using assms(3,4) by (intro race_invI) (auto simp: goto_def)
qed

text \<open>A thread that finds the mode free takes it: nobody owned it.\<close>

lemma race_inv_take:
  assumes inv: "race_inv s" and m: "mode s \<noteq> IO_SENDING" and "owns pc" and "\<And>k n. pc \<noteq> Dequeuing k n"
  shows "race_inv (goto i pc (s\<lparr>mode := IO_SENDING\<rparr>))"
proof (rule race_invI)
  show "1 \<le> n \<and> n \<le> 20 \<and> k \<le> n \<and> n - k \<le> length (waiting (goto i pc (s\<lparr>mode := IO_SENDING\<rparr>)))"
    if "threads (goto i pc (s\<lparr>mode := IO_SENDING\<rparr>)) j = Dequeuing k n" for j k n
    using that assms(4) no_owner(2) [OF inv disjI1 [OF m]] by (cases "j = i") (auto simp: goto_def)
qed (use no_owner(1) [OF inv disjI1 [OF m]] m race_invD(4,6) [OF inv] in \<open>auto simp: goto_def split: if_splits\<close>)

lemma race_step_inv: "race_step s t \<Longrightarrow> race_inv s \<Longrightarrow> race_inv t"
proof (induction rule: race_step.induct)
  case (enqueue s i b)
  then show ?case by (intro race_inv_outsider) auto
next
  case (completion s i)
  show ?case using no_owner [OF completion(3) disjI2 [OF completion(2)]] race_invD(6) [OF completion(3)]
    by (intro race_invI) (auto simp: goto_def split: if_splits)
next
  case (take_ok s i e)
  show ?case
  proof (cases "e = IO_SENDING")
    case True
    then have "race_inv (goto i (ReadSize e) (s\<lparr>waiting := waiting s, store := store s\<rparr>))"
      using take_ok by (intro race_inv_owner) auto
    moreover have "s\<lparr>mode := IO_SENDING\<rparr> = s" "s\<lparr>waiting := waiting s, store := store s\<rparr> = s"
      using take_ok(2) True by (cases s; simp)+
    ultimately show ?thesis using take_ok(2) True by (simp only:)
  next
    case False
    then show ?thesis using take_ok by (intro race_inv_take) auto
  qed
next
  case (take_fail s i e)
  have "\<not> owns (threads s i)" using race_invD(2) [OF take_fail(3), of i] take_fail(1,2) by auto
  then show ?case using race_inv_outsider [OF take_fail(3), of i Outside_send "waiting s" "queued s"] by simp
next
  case (size_zero s i e)
  then have "owns (threads s i)" by simp
  from race_inv_owner [OF size_zero(3) this, of "CasRelease e" "waiting s" "store s"] show ?case by simp
next
  case (size_some s i e)
  then have "owns (threads s i)" by simp
  have "race_inv (goto i (Dequeuing 0 (min ONE_SEND_WSABUF_MAX (length (waiting s))))
      (s\<lparr>waiting := waiting s, store := store s\<rparr>))"
    by (rule race_inv_owner [OF size_some(3) \<open>owns _\<close>])
      (use size_some(2) in \<open>simp_all add: ONE_SEND_WSABUF_MAX_def Suc_le_eq\<close>)
  then show ?case by simp
next
  case (dequeue s i k n b ws)
  then have o: "owns (threads s i)" by simp
  from race_invD(5) [OF dequeue(4,1)] dequeue(2,3) have "1 \<le> n \<and> n \<le> 20 \<and> Suc k \<le> n \<and> n - Suc k \<le> length ws"
    by auto
  then show ?case by (intro race_inv_owner [OF dequeue(4) o]) auto
next
  case (dequeue_empty s i k n)
  with race_invD(5) [OF dequeue_empty(4,1)] show ?case by simp
next
  case (release_ok s i e)
  then have "owns (threads s i)" by simp
  from race_inv_leave [OF release_ok(3) this, of False IO_NONE_SENDING "posted_batches s" "handed s"]
  show ?case using race_invD(3) [OF release_ok(3) \<open>owns _\<close>] race_invD(6) [OF release_ok(3)]
    by (cases s) (simp add: goto_def)
next
  case (release_fail s i e)
  then have o: "owns (threads s i)" by simp
  from race_invD(2) [OF release_fail(3) o] show ?case
    using race_inv_owner [OF release_fail(3) o, of "CasTake (mode s)" "waiting s" "store s"] by simp
next
  case (post s i n)
  then have o: "owns (threads s i)" by simp
  have "1 \<le> length bs \<and> length bs \<le> 20" if "bs \<in> set (posted_batches s @ [map (store s) [0..<n]])" for bs
    using that race_invD(6) [OF post(2)] race_invD(5) [OF post(2,1)] by auto
  then have "race_inv (goto i Outside_send (s\<lparr>mode := IO_SENDING, in_flight := True,
      posted_batches := posted_batches s @ [map (store s) [0..<n]],
      handed := handed s @ [map (store s) [0..<n]]\<rparr>))"
    by (intro race_inv_leave [OF post(2) o]) simp_all
  then show ?case using race_invD(2) [OF post(2) o] by (cases s) (simp add: goto_def)
next
  case (post_fails s i n)
  then have o: "owns (threads s i)" by simp
  from race_inv_leave [OF post_fails(2) o, of False "mode s" "posted_batches s" "handed s @ [map (store s) [0..<n]]"]
  show ?case using race_invD(3) [OF post_fails(2) o] race_invD(6) [OF post_fails(2)]
    by (cases s) (simp add: goto_def)
qed

interpretation race: inductive_invariant race_init race_step race_inv
  by unfold_locales (auto intro: race_init_inv race_step_inv)

text \<open>
  C18. Whatever the interleaving of the threads in \<open>SendPacket\<close> and of the completions, at most one
  thread is between winning the send mode and posting (or giving the mode back), it is so only while
  no \<open>WSASend\<close> of the session is pending, and every \<open>WSASend\<close> carries between 1 and 20 packets.
\<close>

theorem sends_exclusive:
  assumes "reach race_init race_step s"
  shows "(\<forall>i j. owns (threads s i) \<and> owns (threads s j) \<longrightarrow> i = j) \<and>
    (\<forall>i. owns (threads s i) \<longrightarrow> mode s = IO_SENDING \<and> \<not> in_flight s) \<and>
    (\<forall>bs \<in> set (posted_batches s). length bs \<in> {1..20})"
  using race.reach_inv [OF assms] by (simp add: race_inv_def)

section \<open>Order\<close>

text \<open>
  The packets handed to \<open>WSASend\<close>, those the owner of the mode has in its slots and those still queued
  are, one after the other, the packets queued so far.
\<close>

definition in_order :: "'b race_sys \<Rightarrow> bool" where
  "in_order s \<longleftrightarrow>
     (\<forall>i k n. threads s i = Dequeuing k n \<longrightarrow>
        concat (handed s) @ map (store s) [0..<k] @ waiting s = queued s) \<and>
     ((\<forall>i k n. threads s i \<noteq> Dequeuing k n) \<longrightarrow> concat (handed s) @ waiting s = queued s) \<and>
     subseq (posted_batches s) (handed s)"

lemma in_order_quiet:
  assumes "\<And>i k n. threads s i \<noteq> Dequeuing k n" and "concat (handed s) @ waiting s = queued s"
    and "subseq (posted_batches s) (handed s)"
  shows "in_order s"
  using assms by (simp add: in_order_def)

text \<open>A step that moves no packet and starts or ends no dequeuing keeps the order.\<close>

lemma in_order_same:
  assumes ord: "in_order s" and "\<And>k n. threads s i \<noteq> Dequeuing k n" and "\<And>k n. pc \<noteq> Dequeuing k n"
    and "waiting t = waiting s @ bs" and "queued t = queued s @ bs" and "store t = store s"
    and "handed t = handed s" and "posted_batches t = posted_batches s" and "threads t = threads s"
  shows "in_order (goto i pc t)"
proof -
  have q: "(\<forall>j k n. threads (goto i pc t) j \<noteq> Dequeuing k n) \<longleftrightarrow> (\<forall>j k n. threads s j \<noteq> Dequeuing k n)"
  proof -
    have "(\<forall>k n. threads (goto i pc t) j \<noteq> Dequeuing k n) \<longleftrightarrow> (\<forall>k n. threads s j \<noteq> Dequeuing k n)" for j
      using assms(2,3,9) by (cases "j = i") (simp_all add: goto_def)
    then show ?thesis by simp
  qed
  have "concat (handed s) @ map (store s) [0..<k] @ waiting s @ bs = queued s @ bs"
    if "threads (goto i pc t) j = Dequeuing k n" for j k n
  proof -
    from that assms(3,9) have "threads s j = Dequeuing k n" by (auto simp: goto_def split: if_splits)
    with ord have "concat (handed s) @ map (store s) [0..<k] @ waiting s = queued s"
      unfolding in_order_def by blast
    then show ?thesis by (metis append.assoc)
  qed
  moreover have "concat (handed s) @ waiting s @ bs = queued s @ bs" if "\<forall>j k n. threads s j \<noteq> Dequeuing k n"
    using ord that by (metis append.assoc in_order_def)
  ultimately show ?thesis
    unfolding in_order_def [of "goto i pc t"] q using ord assms(4-8)
    by (simp add: in_order_def [of s] goto_def)
qed

lemma race_step_in_order: "race_step s t \<Longrightarrow> race_inv s \<Longrightarrow> in_order s \<Longrightarrow> in_order t"
proof (induction rule: race_step.induct)
  case (size_some s i e)
  then have o: "owns (threads s i)" by simp
  have "threads s j \<noteq> Dequeuing k n" for j k n
    using only_owner_dequeues(2) [OF size_some(3) o, of j k n] size_some(1) by (cases "j = i") auto
  with size_some(4) show ?case by (auto simp: in_order_def goto_def)
next
  case (dequeue s i k n b ws)
  then have o: "owns (threads s i)" by simp
  let ?t = "goto i (Dequeuing (Suc k) n) (s\<lparr>waiting := ws, store := (store s)(k := b)\<rparr>)"
  have "concat (handed s) @ map (store s) [0..<k] @ waiting s = queued s"
    using dequeue(1,5) unfolding in_order_def by blast
  moreover have "map ((store s)(k := b)) [0..<Suc k] = map (store s) [0..<k] @ [b]" by simp
  ultimately have "concat (handed ?t) @ map (store ?t) [0..<Suc k] @ waiting ?t = queued ?t"
    using dequeue(3) by (simp add: goto_def)
  moreover have "j = i \<and> k' = Suc k" if "threads ?t j = Dequeuing k' n'" for j k' n'
    using that only_owner_dequeues(2) [OF dequeue(4) o, of j k' n'] by (cases "j = i") (auto simp: goto_def)
  moreover have "threads ?t i = Dequeuing (Suc k) n" by (simp add: goto_def)
  moreover have "subseq (posted_batches ?t) (handed ?t)" using dequeue(5) by (simp add: in_order_def goto_def)
  ultimately show ?case unfolding in_order_def [of ?t] by blast
next
  case (dequeue_empty s i k n)
  with race_invD(5) [OF dequeue_empty(4,1)] show ?case by simp
next
  case (post s i n)
  then have o: "owns (threads s i)" by simp
  have "concat (handed s) @ map (store s) [0..<n] @ waiting s = queued s"
    using post(1,3) unfolding in_order_def by blast
  moreover have "subseq (posted_batches s) (handed s)" using post(3) by (simp add: in_order_def)
  ultimately show ?case using only_owner_dequeues(2) [OF post(2) o]
    by (intro in_order_quiet) (auto simp: goto_def intro: list_emb_append_mono)
next
  case (post_fails s i n)
  then have o: "owns (threads s i)" by simp
  have "concat (handed s) @ map (store s) [0..<n] @ waiting s = queued s"
    using post_fails(1,3) unfolding in_order_def by blast
  moreover have "subseq (posted_batches s) (handed s)" using post_fails(3) by (simp add: in_order_def)
  ultimately show ?case using only_owner_dequeues(2) [OF post_fails(2) o]
    by (intro in_order_quiet) (auto simp: goto_def intro: list_emb_append2)
next
  case (enqueue s i b)
  then show ?case by (intro in_order_same [where s = s and bs = "[b]"]) simp_all
qed (rule in_order_same [where bs = "[]"], assumption, simp_all)+

interpretation race_order: inductive_invariant race_init race_step "\<lambda>s. race_inv s \<and> in_order s"
proof
  show "race_inv s \<and> in_order s" if "race_init s" for s :: "'b race_sys"
    using that race_init_inv [OF that] by (simp add: in_order_def race_init_def)
  show "race_inv t \<and> in_order t" if "race_inv s \<and> in_order s" "race_step s t" for s t :: "'b race_sys"
    using that race_step_inv race_step_in_order by blast
qed

text \<open>
  C9. Packets leave in the order in which they were queued, under every interleaving of the senders
  and of the completions. While no thread is between its first \<open>Dequeue\<close> and its \<open>WSASend\<close>, the batches
  handed to \<open>WSASend\<close> one after the other, followed by what still waits, are the packets queued so far:
  none is lost, doubled or overtaken. A thread inside that stretch holds the packets in between in the
  slots it has filled. The batches \<open>WSASend\<close> accepted are a subsequence of those handed to it.
\<close>

theorem sends_in_order:
  assumes "reach race_init race_step s"
  shows "((\<forall>i k n. threads s i \<noteq> Dequeuing k n) \<longrightarrow> concat (handed s) @ waiting s = queued s) \<and>
    (\<forall>i k n. threads s i = Dequeuing k n \<longrightarrow>
       concat (handed s) @ map (store s) [0..<k] @ waiting s = queued s) \<and>
    subseq (posted_batches s) (handed s)"
  using race_order.reach_inv [OF assms] by (simp add: in_order_def)

section \<open>A packet left behind\<close>

text \<open>The steps of a run, and the run as a list of states.\<close>

fun race_run :: "'b race_sys list \<Rightarrow> bool" where
  "race_run [] = False"
| "race_run [s] = race_init s"
| "race_run (t # s # ss) = (race_step s t \<and> race_run (s # ss))"

lemma race_run_reach: "race_run ss \<Longrightarrow> reach race_init race_step (hd ss)"
  by (induction ss rule: race_run.induct) (auto intro: reach_init reach_step)

definition race_at ::
  "io_mode \<Rightarrow> nat list \<Rightarrow> nat \<Rightarrow> send_pc \<Rightarrow> send_pc \<Rightarrow> bool \<Rightarrow> nat list list \<Rightarrow> nat list \<Rightarrow> nat race_sys" where
  "race_at m ws b p q f bss qs = \<lparr>mode = m, waiting = ws, store = (\<lambda>_. 0)(0 := b),
     threads = (\<lambda>_. Outside_send)(0 := p, 1 := q),
     in_flight = f, posted_batches = bss, handed = bss, queued = qs\<rparr>"

lemma race_at_init: "race_init (race_at IO_NONE_SENDING [] b Outside_send Outside_send False [] [])"
  by (auto simp: race_init_def race_at_def)

lemma race_at_threads:
  "threads (race_at m ws b p q f bss qs) 0 = p" "threads (race_at m ws b p q f bss qs) 1 = q"
  "mode (race_at m ws b p q f bss qs) = m" "waiting (race_at m ws b p q f bss qs) = ws"
  "in_flight (race_at m ws b p q f bss qs) = f" "posted_batches (race_at m ws b p q f bss qs) = bss"
  "handed (race_at m ws b p q f bss qs) = bss" "queued (race_at m ws b p q f bss qs) = qs"
  "store (race_at m ws b p q f bss qs) = (\<lambda>_. 0)(0 := b)"
  by (simp_all add: race_at_def)

lemma race_at_update:
  "goto 0 pc (race_at m ws b p q f bss qs) = race_at m ws b pc q f bss qs"
  "goto 1 pc (race_at m ws b p q f bss qs) = race_at m ws b p pc f bss qs"
  "race_at m ws b p q f bss qs\<lparr>mode := m'\<rparr> = race_at m' ws b p q f bss qs"
  "race_at m ws b p q f bss qs\<lparr>waiting := ws', queued := qs'\<rparr> = race_at m ws' b p q f bss qs'"
  "race_at m ws b p q f bss qs\<lparr>waiting := ws', store := (\<lambda>_. 0)(0 := b')\<rparr> = race_at m ws' b' p q f bss qs"
  "race_at m ws b p q f bss qs\<lparr>in_flight := f'\<rparr> = race_at m ws b p q f' bss qs"
  "race_at m ws b p q f bss qs\<lparr>posted_batches := bss', handed := bss'\<rparr> = race_at m ws b p q f bss' qs"
  by (simp_all add: race_at_def goto_def fun_upd_twist)

lemmas race_at = race_at_threads race_at_update ONE_SEND_WSABUF_MAX_def

text \<open>The steps of the run: thread 0's, then the two of thread 1.\<close>

lemma race_at_steps:
  "race_step (race_at m ws c Outside_send q f bss qs) (race_at m (ws @ [b]) c (CasTake IO_NONE_SENDING) q f bss (qs @ [b]))"
  "race_step (race_at m ws c Outside_send q True bss qs) (race_at IO_NONE_SENDING ws c (CasTake IO_NONE_SENDING) q False bss qs)"
  "race_step (race_at m ws c (CasTake m) q f bss qs) (race_at IO_SENDING ws c (ReadSize m) q f bss qs)"
  "race_step (race_at m [] c (ReadSize e) q f bss qs) (race_at m [] c (CasRelease e) q f bss qs)"
  "race_step (race_at m [b] c (ReadSize e) q f bss qs) (race_at m [b] c (Dequeuing 0 1) q f bss qs)"
  "race_step (race_at m [b] c (Dequeuing 0 1) q f bss qs) (race_at m [] b (Dequeuing 1 1) q f bss qs)"
  "race_step (race_at m ws b (Dequeuing 1 1) q f bss qs) (race_at m ws b Outside_send q True (bss @ [[b]]) qs)"
  "m \<noteq> e \<Longrightarrow> race_step (race_at m ws c (CasRelease e) q f bss qs) (race_at m ws c (CasTake m) q f bss qs)"
  "race_step (race_at m ws c (CasRelease m) q f bss qs) (race_at IO_NONE_SENDING ws c Outside_send q f bss qs)"
  "race_step (race_at m ws c p Outside_send f bss qs) (race_at m (ws @ [b]) c p (CasTake IO_NONE_SENDING) f bss (qs @ [b]))"
  "m \<noteq> e \<Longrightarrow> race_step (race_at m ws c p (CasTake e) f bss qs) (race_at m ws c p Outside_send f bss qs)"
  using race_step.enqueue [of "race_at m ws c Outside_send q f bss qs" 0 b]
    race_step.completion [of "race_at m ws c Outside_send q True bss qs" 0]
    race_step.take_ok [of "race_at m ws c (CasTake m) q f bss qs" 0]
    race_step.size_zero [of "race_at m [] c (ReadSize e) q f bss qs" 0]
    race_step.size_some [of "race_at m [b] c (ReadSize e) q f bss qs" 0]
    race_step.dequeue [of "race_at m [b] c (Dequeuing 0 1) q f bss qs" 0 0 1 b "[]"]
    race_step.post [of "race_at m ws b (Dequeuing 1 1) q f bss qs" 0]
    race_step.release_fail [of "race_at m ws c (CasRelease e) q f bss qs" 0]
    race_step.release_ok [of "race_at m ws c (CasRelease m) q f bss qs" 0]
    race_step.enqueue [of "race_at m ws c p Outside_send f bss qs" 1 b]
    race_step.take_fail [of "race_at m ws c p (CasTake e) f bss qs" 1]
  by (simp_all add: race_at del: One_nat_def) (simp_all add: race_at)

text \<open>
  Thread 0 sends packet 1, completes it, finds the queue empty twice (its first attempt to give the
  mode back compares with the value it had before taking it) and is about to give the mode back;
  thread 1 queues packet 2 and fails to take the mode; thread 0 gives it back.
\<close>

definition left_behind_run :: "nat race_sys list" where
  "left_behind_run = rev
    [race_at IO_NONE_SENDING [] 0 Outside_send Outside_send False [] [],
     race_at IO_NONE_SENDING [1] 0 (CasTake IO_NONE_SENDING) Outside_send False [] [1],
     race_at IO_SENDING [1] 0 (ReadSize IO_NONE_SENDING) Outside_send False [] [1],
     race_at IO_SENDING [1] 0 (Dequeuing 0 1) Outside_send False [] [1],
     race_at IO_SENDING [] 1 (Dequeuing 1 1) Outside_send False [] [1],
     race_at IO_SENDING [] 1 Outside_send Outside_send True [[1]] [1],
     race_at IO_NONE_SENDING [] 1 (CasTake IO_NONE_SENDING) Outside_send False [[1]] [1],
     race_at IO_SENDING [] 1 (ReadSize IO_NONE_SENDING) Outside_send False [[1]] [1],
     race_at IO_SENDING [] 1 (CasRelease IO_NONE_SENDING) Outside_send False [[1]] [1],
     race_at IO_SENDING [] 1 (CasTake IO_SENDING) Outside_send False [[1]] [1],
     race_at IO_SENDING [] 1 (ReadSize IO_SENDING) Outside_send False [[1]] [1],
     race_at IO_SENDING [] 1 (CasRelease IO_SENDING) Outside_send False [[1]] [1],
     race_at IO_SENDING [2] 1 (CasRelease IO_SENDING) (CasTake IO_NONE_SENDING) False [[1]] [1, 2],
     race_at IO_SENDING [2] 1 (CasRelease IO_SENDING) Outside_send False [[1]] [1, 2],
     race_at IO_NONE_SENDING [2] 1 Outside_send Outside_send False [[1]] [1, 2]]"

lemmas left_behind_steps = race_at_init race_at_steps race_at_steps(1) [where ws = "[]" and qs = "[]", unfolded append.simps]
  race_at_steps(10) [where ws = "[]" and qs = "[1]", unfolded append.simps]
  race_at_steps(7) [where bss = "[]", unfolded append.simps]

lemma left_behind_race_run: "race_run left_behind_run"
  by (simp add: left_behind_run_def left_behind_steps del: One_nat_def)

text \<open>Exclusion at work: thread 0 is about to release the mode, thread 1 has queued a packet.\<close>

theorem sends_exclusive_witness:
  "owns (threads (race_at IO_SENDING [] 1 (CasRelease IO_SENDING) Outside_send False [[1]] [1]) 0) \<and>
   \<not> in_flight (race_at IO_SENDING [] 1 (CasRelease IO_SENDING) Outside_send False [[1]] [1])"
proof -
  have run: "race_run (drop 3 left_behind_run)"
    by (simp add: left_behind_run_def left_behind_steps del: One_nat_def)
  show ?thesis
    using sends_exclusive [OF race_run_reach [OF run]]
    by (auto simp: left_behind_run_def race_at_threads)
qed

text \<open>Order at work: packet 1 has been sent and packet 2 waits behind it.\<close>

theorem sends_in_order_witness:
  "\<exists>s :: nat race_sys. reach race_init race_step s \<and> concat (handed s) = [1] \<and> waiting s = [2] \<and> queued s = [1, 2]"
proof -
  let ?s = "race_at IO_NONE_SENDING [2] 1 Outside_send Outside_send False [[1]] [1, 2]"
  have r: "reach race_init race_step ?s"
    using race_run_reach [OF left_behind_race_run] by (simp add: left_behind_run_def)
  have "\<forall>i k n. threads ?s i \<noteq> Dequeuing k n" by (simp add: race_at_def)
  then have "concat (handed ?s) @ waiting ?s = queued ?s"
    by (rule mp [OF conjunct1 [OF sends_in_order [OF r]]])
  with r show ?thesis by (intro exI [of _ ?s]) (simp add: race_at_threads)
qed

text \<open>
  C19. A packet can be left behind: there is a run after which every thread has returned from
  \<open>SendPacket\<close> and from the completion, the mode is free and no \<open>WSASend\<close> is pending, yet a packet is
  still in the send queue; nothing will send it until the next call of \<open>SendPacket\<close>.
\<close>

theorem packet_left_behind:
  "\<exists>s :: nat race_sys. reach race_init race_step s \<and> threads s = (\<lambda>_. Outside_send) \<and>
     mode s = IO_NONE_SENDING \<and> \<not> in_flight s \<and> waiting s = [2] \<and> posted_batches s = [[1]]"
proof -
  let ?s = "race_at IO_NONE_SENDING [2] 1 Outside_send Outside_send False [[1]] [1, 2]"
  have "reach race_init race_step ?s"
    using race_run_reach [OF left_behind_race_run] by (simp add: left_behind_run_def)
  then show ?thesis by (intro exI [of _ ?s]) (auto simp: race_at_def)
qed

end
