(* ===== verification/SessionTeardown.thy ===== *)
theory SessionTeardown
  imports SessionIO
begin

text \<open>
  The end of a session while other threads still use it: \<open>OnIoCompleted\<close>, \<open>OnSendIoCompleted\<close>,
  \<open>DoRecv\<close>, \<open>DoSend\<close>, \<open>DecreaseIOCount\<close> and \<open>OnDisconnected\<close> of one session, one shared access per
  step, for the session's logic thread (thread 0), its release thread (thread 1) and any number of IO
  threads; the accept thread, which posts the first receive, is one of the latter. The logic thread is
  inside \<open>DoSend\<close> only while it holds the lock of the session map, which \<open>EraseSession\<close> needs alone.
  Results of system calls are choices. A step that would read an unset pointer does not exist.
\<close>

section \<open>The threads\<close>

text \<open>
  Where a thread is. \<open>Dropping\<close> and \<open>Releasing\<close> carry on with what follows \<open>DecreaseIOCount\<close>.
\<close>

datatype life_pc =
    Idle
  | LookRecv bool
  | LookSend bool
  | Receiving
  | PostingRecv
  | Dropping life_pc
  | Releasing life_pc
  | FreeingSent nat
  | ClearingSent
  | FreeingMode
  | TakingMode io_mode
  | ReadingSize io_mode
  | GivingMode io_mode
  | Dequeuing nat nat
  | AddingCount nat
  | Counting nat
  | PostingSend nat
  | Closing
  | FreeingStore nat
  | ClearingStore
  | Draining

record 'b life =
  io_count :: int
  send_mode :: io_mode
  send_queue :: "'b list"
  store :: "'b option list"
  buffer_count :: nat
  socket_open :: bool
  recv_pending :: bool
  send_pending :: "'b list option"
  releases :: nat
  registered :: bool
  freed_buffers :: "'b list"
  pcs :: "life_pc list"

definition go :: "nat \<Rightarrow> life_pc \<Rightarrow> 'b life \<Rightarrow> 'b life" where
  "go i pc s = s\<lparr>pcs := (pcs s)[i := pc]\<rparr>"

text \<open>\<open>NetBuffer::Free\<close> of an entry of \<open>sendBufferStore\<close>.\<close>

definition free_entry :: "nat \<Rightarrow> 'b life \<Rightarrow> 'b life option" where
  "free_entry n s =
     (if n < length (store s)
      then map_option (\<lambda>b. s\<lparr>freed_buffers := freed_buffers s @ [b]\<rparr>) (store s ! n) else None)"

text \<open>One step of a thread; \<open>ok\<close> is the result of the system call or of the packet handling, if any.\<close>

fun run_pc :: "nat \<Rightarrow> bool \<Rightarrow> life_pc \<Rightarrow> 'b life \<Rightarrow> 'b life option" where
  "run_pc i ok Idle s = None"
| "run_pc i ok (LookRecv done) s =
     Some (go i (if registered s then (if done then Receiving else Dropping Idle) else Idle) s)"
| "run_pc i ok (LookSend done) s =
     Some (go i (if registered s then (if done then FreeingSent 0 else Dropping Idle) else Idle) s)"
| "run_pc i ok Receiving s =
     Some (if ok then go i PostingRecv (s\<lparr>io_count := io_count s + 1\<rparr>) else go i (Dropping Idle) s)"
| "run_pc i ok PostingRecv s =
     Some (if ok \<and> socket_open s then go i (Dropping Idle) (s\<lparr>recv_pending := True\<rparr>)
           else go i (Dropping (Dropping Idle)) s)"
| "run_pc i ok (Dropping k) s =
     (let s1 = s\<lparr>io_count := io_count s - 1\<rparr>
      in Some (go i (if io_count s1 = 0 then Releasing k else k) s1))"
| "run_pc i ok (Releasing k) s = Some (go i k (s\<lparr>releases := releases s + 1\<rparr>))"
| "run_pc i ok (FreeingSent n) s =
     (if n < buffer_count s then map_option (go i (FreeingSent (n + 1))) (free_entry n s)
      else Some (go i ClearingSent s))"
| "run_pc i ok ClearingSent s = Some (go i FreeingMode (s\<lparr>buffer_count := 0\<rparr>))"
| "run_pc i ok FreeingMode s =
     Some (go i (Dropping (TakingMode IO_NONE_SENDING)) (s\<lparr>send_mode := IO_NONE_SENDING\<rparr>))"
| "run_pc i ok (TakingMode e) s =
     Some (if send_mode s = e then go i (ReadingSize e) (s\<lparr>send_mode := IO_SENDING\<rparr>) else go i Idle s)"
| "run_pc i ok (ReadingSize e) s =
     Some (go i (if send_queue s = [] then GivingMode e
                 else Dequeuing 0 (min ONE_SEND_WSABUF_MAX (length (send_queue s)))) s)"
| "run_pc i ok (GivingMode e) s =
     Some (if send_mode s = e then go i Idle (s\<lparr>send_mode := IO_NONE_SENDING\<rparr>)
           else go i (TakingMode (send_mode s)) s)"
| "run_pc i ok (Dequeuing j n) s =
     (if j < n
      then (case send_queue s of [] \<Rightarrow> None
            | b # q \<Rightarrow> Some (go i (Dequeuing (j + 1) n) (s\<lparr>send_queue := q, store := (store s)[j := Some b]\<rparr>)))
      else Some (go i (AddingCount n) s))"
| "run_pc i ok (AddingCount n) s = Some (go i (Counting n) (s\<lparr>buffer_count := buffer_count s + n\<rparr>))"
| "run_pc i ok (Counting n) s = Some (go i (PostingSend n) (s\<lparr>io_count := io_count s + 1\<rparr>))"
| "run_pc i ok (PostingSend n) s =
     Some (if ok \<and> socket_open s then go i Idle (s\<lparr>send_pending := Some (List.map_filter id (take n (store s)))\<rparr>)
           else go i (Dropping Idle) s)"
| "run_pc i ok Closing s = Some (go i (FreeingStore 0) (s\<lparr>socket_open := False\<rparr>))"
| "run_pc i ok (FreeingStore n) s =
     (if n < buffer_count s then map_option (go i (FreeingStore (n + 1))) (free_entry n s)
      else Some (go i ClearingStore s))"
| "run_pc i ok ClearingStore s = Some (go i Draining (s\<lparr>buffer_count := 0\<rparr>))"
| "run_pc i ok Draining s =
     (case send_queue s of [] \<Rightarrow> Some (go i Idle s)
      | b # q \<Rightarrow> Some (s\<lparr>send_queue := q, freed_buffers := freed_buffers s @ [b]\<rparr>))"

text \<open>
  What can happen: the logic thread calls \<open>SendPacket\<close> for a session of its map; an idle IO thread
  takes the completion of the receive or of the send, with bytes transferred or not; the release thread
  takes an entry of its queue; a thread that is inside an operation makes a step.
\<close>

datatype 'b life_event =
    CallSend 'b
  | TakeRecv nat bool
  | TakeSend nat bool
  | TakeRelease
  | Run nat bool

definition is_io_thread :: "nat \<Rightarrow> 'b life \<Rightarrow> bool" where
  "is_io_thread i s \<longleftrightarrow> 2 \<le> i \<and> i < length (pcs s) \<and> pcs s ! i = Idle"

fun life_do :: "'b life_event \<Rightarrow> 'b life \<Rightarrow> 'b life option" where
  "life_do (CallSend b) s =
     (if pcs s ! 0 = Idle \<and> registered s
      then Some (go 0 (TakingMode IO_NONE_SENDING) (s\<lparr>send_queue := send_queue s @ [b]\<rparr>)) else None)"
| "life_do (TakeRecv i done) s =
     (if is_io_thread i s \<and> recv_pending s then Some (go i (LookRecv done) (s\<lparr>recv_pending := False\<rparr>)) else None)"
| "life_do (TakeSend i done) s =
     (if is_io_thread i s \<and> send_pending s \<noteq> None
      then Some (go i (LookSend done) (s\<lparr>send_pending := None\<rparr>)) else None)"
| "life_do TakeRelease s =
     (if pcs s ! 1 = Idle \<and> 0 < releases s
      then (if \<not> registered s then Some (s\<lparr>releases := releases s - 1\<rparr>)
            else if pcs s ! 0 = Idle
                 then Some (go 1 Closing (s\<lparr>releases := releases s - 1, registered := False\<rparr>)) else None)
      else None)"
| "life_do (Run i ok) s = (if i < length (pcs s) then run_pc i ok (pcs s ! i) s else None)"

text \<open>
  The session has been put into the map; the accept thread (thread 2) holds the first reference and is
  about to call \<open>DoRecv\<close>.
\<close>

definition accepted :: "nat \<Rightarrow> 'b life" where
  "accepted n = \<lparr>io_count = 1, send_mode = IO_NONE_SENDING, send_queue = [],
     store = replicate ONE_SEND_WSABUF_MAX None, buffer_count = 0, socket_open = True,
     recv_pending = False, send_pending = None, releases = 0, registered = True, freed_buffers = [],
     pcs = (replicate (n + 3) Idle)[2 := Receiving]\<rparr>"

definition life_init :: "'b life \<Rightarrow> bool" where
  "life_init s \<longleftrightarrow> (\<exists>n. s = accepted n)"

inductive life_step :: "'b life \<Rightarrow> 'b life \<Rightarrow> bool" where
  life_event: "life_do e s = Some t \<Longrightarrow> life_step s t"

inductive_cases life_stepE: "life_step s t"

fun life_run :: "'b life_event list \<Rightarrow> 'b life \<Rightarrow> 'b life option" where
  "life_run [] s = Some s"
| "life_run (e # es) s = (case life_do e s of None \<Rightarrow> None | Some t \<Rightarrow> life_run es t)"

lemma life_run_reach: "reach life_init life_step s \<Longrightarrow> life_run es s = Some t \<Longrightarrow> reach life_init life_step t"
proof (induction es arbitrary: s)
  case (Cons e es)
  then obtain s1 where "life_do e s = Some s1" "life_run es s1 = Some t" by (auto split: option.splits)
  with Cons reach_step [of life_init life_step s s1] life_event show ?case by blast
qed simp

section \<open>References\<close>

text \<open>
  The references a thread will give back, and the right to post a receive: it is with the pending receive
  or with the one thread that handles its completion.
\<close>

fun refs_of :: "life_pc \<Rightarrow> nat" where
  "refs_of (LookRecv done) = 1"
| "refs_of (LookSend done) = 1"
| "refs_of Receiving = 1"
| "refs_of PostingRecv = 2"
| "refs_of (Dropping k) = Suc (refs_of k)"
| "refs_of (Releasing k) = refs_of k"
| "refs_of (FreeingSent n) = 1"
| "refs_of ClearingSent = 1"
| "refs_of FreeingMode = 1"
| "refs_of (PostingSend n) = 1"
| "refs_of pc = 0"

fun recv_right :: "life_pc \<Rightarrow> nat" where
  "recv_right (LookRecv done) = 1"
| "recv_right Receiving = 1"
| "recv_right PostingRecv = 1"
| "recv_right (Dropping k) = recv_right k"
| "recv_right (Releasing k) = recv_right k"
| "recv_right pc = 0"

definition refs :: "'b life \<Rightarrow> nat" where
  "refs s = of_bool (recv_pending s) + of_bool (send_pending s \<noteq> None) + sum_list (map refs_of (pcs s))"

definition recv_rights :: "'b life \<Rightarrow> nat" where
  "recv_rights s = of_bool (recv_pending s) + sum_list (map recv_right (pcs s))"

text \<open>Whether the release of the session has been, or is being, asked for.\<close>

fun releasing :: "life_pc \<Rightarrow> bool" where
  "releasing (Releasing k) = True"
| "releasing (Dropping k) = releasing k"
| "releasing pc = False"

definition release_asked :: "'b life \<Rightarrow> bool" where
  "release_asked s \<longleftrightarrow> 0 < releases s \<or> \<not> registered s \<or> list_ex releasing (pcs s)"

lemma recv_right_le: "recv_right pc \<le> refs_of pc"
  by (induction pc) auto

lemma recv_rights_le: "recv_rights s \<le> refs s"
proof -
  have "sum_list (map recv_right (pcs s)) \<le> sum_list (map refs_of (pcs s))"
    by (rule sum_list_mono) (simp add: recv_right_le)
  then show ?thesis by (simp add: recv_rights_def refs_def)
qed

lemma sum_list_go:
  assumes "i < length (pcs s)"
  shows "sum_list (map f (pcs (go i pc s))) + f (pcs s ! i) = sum_list (map f (pcs s)) + (f pc :: nat)"
proof -
  have "f (pcs s ! i) \<le> sum_list (map f (pcs s))"
    using assms by (simp add: member_le_sum_list)
  with assms sum_list_update [of i "map f (pcs s)" "f pc"] show ?thesis
    by (simp add: go_def map_update)
qed

lemma releasing_go:
  assumes "list_ex releasing (pcs (go i pc s))"
  shows "releasing pc \<or> list_ex releasing (pcs s)"
  using assms set_update_subset_insert [of "pcs s" i pc] by (auto simp: go_def list_ex_iff)

definition life_inv :: "'b life \<Rightarrow> bool" where
  "life_inv s \<longleftrightarrow> 2 < length (pcs s) \<and> int (refs s) \<le> io_count s \<and> recv_rights s \<le> 1 \<and> (release_asked s \<longrightarrow> recv_rights s = 0)"

text \<open>
  A step of thread \<open>i\<close> to the point \<open>pc\<close> that does not ask for the release keeps the invariant when the
  references balance and no new right to receive appears.
\<close>

lemma life_inv_go:
  assumes inv: "life_inv s" and i: "i < length (pcs s)"
    and u: "pcs u = pcs s" "releases u \<le> releases s" "registered u = registered s"
    and refs: "int (refs_of pc + of_bool (recv_pending u) + of_bool (send_pending u \<noteq> None)) - io_count u
        \<le> int (refs_of (pcs s ! i) + of_bool (recv_pending s) + of_bool (send_pending s \<noteq> None)) - io_count s"
    and right: "recv_right pc + of_bool (recv_pending u) \<le> recv_right (pcs s ! i) + of_bool (recv_pending s)"
    and "releasing pc \<longrightarrow> releasing (pcs s ! i)"
  shows "life_inv (go i pc u)"
proof -
  have iu: "i < length (pcs u)" using i u(1) by simp
  have "sum_list (map refs_of (pcs (go i pc u))) + refs_of (pcs s ! i) = sum_list (map refs_of (pcs s)) + refs_of pc"
    and r: "sum_list (map recv_right (pcs (go i pc u))) + recv_right (pcs s ! i) =
      sum_list (map recv_right (pcs s)) + recv_right pc"
    using sum_list_go [OF iu] u(1) by auto
  with refs inv have 1: "int (refs (go i pc u)) \<le> io_count (go i pc u)"
    by (simp add: life_inv_def refs_def go_def)
  have 2: "recv_rights (go i pc u) \<le> recv_rights s"
  proof -
    have "recv_pending (go i pc u) = recv_pending u" by (simp add: go_def)
    then show ?thesis using r right unfolding recv_rights_def by simp
  qed
  have "release_asked (go i pc u) \<Longrightarrow> release_asked s"
    using releasing_go [of i pc u] assms(8) u i
    by (auto simp: release_asked_def go_def list_ex_iff)
  moreover have "length (pcs (go i pc u)) = length (pcs s)" by (simp add: go_def u(1))
  ultimately show ?thesis using 1 2 inv by (fastforce simp: life_inv_def)
qed

text \<open>The last reference is given back: nothing that could receive is left.\<close>

lemma life_inv_released:
  assumes inv: "life_inv s" and i: "i < length (pcs s)" "pcs s ! i = Dropping k" and z: "io_count s = 1"
  shows "life_inv (go i (Releasing k) (s\<lparr>io_count := 0\<rparr>))"
proof -
  let ?t = "go i (Releasing k) (s\<lparr>io_count := 0\<rparr>)"
  have "sum_list (map refs_of (pcs ?t)) + Suc (refs_of k) = sum_list (map refs_of (pcs s)) + refs_of k"
    using sum_list_go [of i "s\<lparr>io_count := 0\<rparr>" refs_of "Releasing k"] i by simp
  then have "refs ?t + 1 = refs s" by (simp add: refs_def) (simp add: go_def)
  then have "refs ?t = 0" using inv z by (simp add: life_inv_def)
  then show ?thesis using recv_rights_le [of ?t] inv by (simp add: life_inv_def go_def)
qed

lemma free_entry_same:
  "free_entry n s = Some t \<Longrightarrow> pcs t = pcs s \<and> recv_pending t = recv_pending s \<and> send_pending t = send_pending s \<and>
     releases t = releases s \<and> registered t = registered s \<and> io_count t = io_count s"
  by (auto simp: free_entry_def split: if_splits)

lemma run_pc_inv:
  assumes inv: "life_inv s" and i: "i < length (pcs s)" and t: "run_pc i ok (pcs s ! i) s = Some t"
  shows "life_inv t"
proof (cases "pcs s ! i")
  case (Dropping k)
  show ?thesis
  proof (cases "io_count s = 1")
    case True
    with t have "t = go i (Releasing k) (s\<lparr>io_count := 0\<rparr>)" by (simp add: Dropping)
    then show ?thesis using life_inv_released [OF inv i Dropping True] by simp
  next
    case False
    with t show ?thesis by (auto simp: Dropping Let_def intro!: life_inv_go [OF inv i])
  qed
next
  case (Releasing k)
  have "recv_rights s = 0" using inv i Releasing
    by (force simp: life_inv_def release_asked_def list_ex_iff in_set_conv_nth)
  have "sum_list (map recv_right (pcs t)) = sum_list (map recv_right (pcs s))"
    "sum_list (map refs_of (pcs t)) = sum_list (map refs_of (pcs s))"
    using t sum_list_go [of i "s\<lparr>releases := releases s + 1\<rparr>" recv_right k]
      sum_list_go [of i "s\<lparr>releases := releases s + 1\<rparr>" refs_of k] i
    by (simp_all add: Releasing)
  then have "recv_rights t = recv_rights s" "refs t = refs s" "io_count t = io_count s"
    using t by (auto simp: Releasing recv_rights_def refs_def) (simp_all add: go_def)
  moreover have "length (pcs t) = length (pcs s)" using t by (auto simp: Releasing go_def)
  ultimately show ?thesis using inv \<open>recv_rights s = 0\<close> by (simp add: life_inv_def)
next
  case (FreeingSent n)
  with t show ?thesis
    by (auto dest: free_entry_same simp: split: if_splits intro!: life_inv_go [OF inv i])
next
  case (FreeingStore n)
  with t show ?thesis
    by (auto dest: free_entry_same simp: split: if_splits intro!: life_inv_go [OF inv i])
next
  case Draining
  show ?thesis
  proof (cases "send_queue s")
    case Nil
    with t show ?thesis by (auto simp: Draining intro!: life_inv_go [OF inv i])
  next
    case (Cons b q)
    with t have "t = s\<lparr>send_queue := q, freed_buffers := freed_buffers s @ [b]\<rparr>" by (simp add: Draining)
    with inv show ?thesis by (simp add: life_inv_def refs_def recv_rights_def release_asked_def)
  qed
next
  case (PostingSend n)
  with t show ?thesis by (auto split: if_splits intro!: life_inv_go [OF inv i])
qed (use t in \<open>auto split: if_splits list.splits intro!: life_inv_go [OF inv i]\<close>)

lemma take_release_inv:
  assumes inv: "life_inv s" and t: "life_do TakeRelease s = Some t"
  shows "life_inv t"
proof (cases "registered s")
  case False
  with t inv show ?thesis
    by (auto simp: life_inv_def refs_def recv_rights_def release_asked_def split: if_splits)
next
  case True
  with t have r: "0 < releases s" "pcs s ! 1 = Idle"
    and e: "t = go 1 Closing (s\<lparr>releases := releases s - 1, registered := False\<rparr>)"
    by (auto split: if_splits)
  have l: "1 < length (pcs s)" using inv by (simp add: life_inv_def)
  have "recv_rights s = 0" using inv r(1) by (simp add: life_inv_def release_asked_def)
  moreover have "sum_list (map recv_right (pcs t)) = sum_list (map recv_right (pcs s))"
    "sum_list (map refs_of (pcs t)) = sum_list (map refs_of (pcs s))"
    using sum_list_go [of 1 "s\<lparr>releases := releases s - 1, registered := False\<rparr>" recv_right Closing]
      sum_list_go [of 1 "s\<lparr>releases := releases s - 1, registered := False\<rparr>" refs_of Closing] l r(2)
    by (simp_all add: e)
  then have "recv_rights t = recv_rights s" "refs t = refs s" "io_count t = io_count s"
    by (simp_all add: recv_rights_def refs_def) (simp_all add: e go_def)
  moreover have "length (pcs t) = length (pcs s)" by (simp add: e go_def)
  ultimately show ?thesis using inv by (simp add: life_inv_def)
qed

lemma life_do_inv:
  assumes inv: "life_inv s" and t: "life_do e s = Some t"
  shows "life_inv t"
proof (cases e)
  case (CallSend b)
  have "0 < length (pcs s)" using inv unfolding life_inv_def by linarith
  then show ?thesis using t CallSend by (auto split: if_splits intro!: life_inv_go [OF inv])
next
  case (TakeRecv i ok)
  with t show ?thesis by (auto simp: is_io_thread_def split: if_splits intro!: life_inv_go [OF inv])
next
  case (TakeSend i ok)
  with t show ?thesis by (auto simp: is_io_thread_def split: if_splits intro!: life_inv_go [OF inv])
next
  case TakeRelease
  with t take_release_inv [OF inv] show ?thesis by simp
next
  case (Run i ok)
  with t show ?thesis using run_pc_inv [OF inv] by (auto split: if_splits)
qed

lemma life_init_inv: "life_init s \<Longrightarrow> life_inv s"
proof -
  assume "life_init s"
  then obtain n where s: "s = accepted n" by (auto simp: life_init_def)
  have "replicate (n + 3) Idle = Idle # Idle # Idle # replicate n Idle"
    by (simp add: numeral_3_eq_3)
  then have p: "pcs s = Idle # Idle # Receiving # replicate n Idle"
    by (simp add: s accepted_def numeral_2_eq_2)
  have "sum_list (map f (replicate n Idle)) = 0" if "f Idle = 0" for f :: "life_pc \<Rightarrow> nat"
    using that by (simp add: map_replicate sum_list_replicate)
  then show ?thesis using p
    by (auto simp: life_inv_def refs_def recv_rights_def release_asked_def s accepted_def list_ex_iff)
qed

interpretation life: inductive_invariant life_init life_step life_inv
  by unfold_locales (auto elim!: life_stepE intro: life_init_inv life_do_inv)

text \<open>
  C30. The receiving side of a session ends before the session is torn down, whatever the interleaving:
  the right to receive exists at most once, the count is never below the references held, and as soon as
  the release of the session is asked for (and therefore when the release thread erases the session,
  closes its socket and frees its buffers) no receive is pending and no thread handles or posts one.
\<close>

theorem teardown_recv_safe:
  assumes "reach life_init life_step s"
  shows "recv_rights s \<le> 1 \<and> int (refs s) \<le> io_count s \<and>
    (release_asked s \<longrightarrow> \<not> recv_pending s \<and> list_all (\<lambda>pc. recv_right pc = 0) (pcs s))"
  using life.reach_inv [OF assms] by (auto simp: life_inv_def recv_rights_def list_all_iff)

section \<open>The sending side does not\<close>

text \<open>
  One session with the accept thread (2) and an IO thread (3): the first receive is posted; the logic
  thread sends buffer 1 and queues buffer 2; the client closes and its receive completes with no bytes;
  the send of buffer 1 completes on thread 3, which gives back the last reference and then, in
  \<open>DoSend\<close>, posts a send of buffer 2.
\<close>

definition revived_run :: "nat life_event list" where
  "revived_run =
     replicate 3 (Run 2 True) @ CallSend 1 # replicate 7 (Run 0 True) @
     [CallSend 2, Run 0 True, TakeRecv 2 False, Run 2 True, Run 2 True, TakeSend 3 True] @
     replicate 14 (Run 3 True)"

text \<open>The release thread takes the session and frees the buffers of its store.\<close>

definition torn_down_run :: "nat life_event list" where
  "torn_down_run = revived_run @ [TakeRelease, Run 1 True, Run 1 True]"

text \<open>The send of buffer 2 completes, and while its buffers are freed the release thread frees them too.\<close>

definition freed_twice_run :: "nat life_event list" where
  "freed_twice_run = revived_run @ TakeSend 3 True # replicate 2 (Run 3 True) @ [TakeRelease, Run 1 True, Run 1 True]"



lemma torn_down_result:
  "map_option (\<lambda>s. (send_pending s, freed_buffers s)) (life_run torn_down_run (accepted 1)) = Some (Some [2], [1, 2])"
  by code_simp

lemma freed_twice_result:
  "map_option freed_buffers (life_run freed_twice_run (accepted 1)) = Some [1, 2, 2]"
  by code_simp

lemma reach_accepted_run: "life_run es (accepted n) = Some s \<Longrightarrow> reach life_init life_step s"
  by (rule life_run_reach [OF reach_init]) (auto simp: life_init_def)

text \<open>
  C31. The sending side is torn down under the feet of a send: there is a run in which the release thread
  has freed a buffer that a pending \<open>WSASend\<close> still reads, and one in which a buffer goes back to the
  pool twice.
\<close>

theorem teardown_frees_pending_send:
  "(\<exists>s :: nat life. reach life_init life_step s \<and> send_pending s = Some [2] \<and> freed_buffers s = [1, 2]) \<and>
   (\<exists>s :: nat life. reach life_init life_step s \<and> freed_buffers s = [1, 2, 2])"
  using torn_down_result freed_twice_result reach_accepted_run by (fastforce simp: map_option_eq_Some)

text \<open>The run before the release thread comes: the release is asked for and a send is pending.\<close>

definition revived :: "nat life" where
  "revived = the (life_run revived_run (accepted 1))"

lemma revived_run_result:
  "map_option (\<lambda>s. (send_pending s, releases s, recv_pending s)) (life_run revived_run (accepted 1)) =
     Some (Some [2], 1, False)"
  by code_simp

theorem teardown_recv_safe_witness:
  "release_asked revived \<and> send_pending revived = Some [2] \<and> \<not> recv_pending revived"
proof -
  obtain s where s: "life_run revived_run (accepted 1) = Some s" "send_pending s = Some [2]" "releases s = 1"
    using revived_run_result by (auto simp: map_option_eq_Some)
  then have r: "revived = s" "release_asked s" by (simp_all add: revived_def release_asked_def)
  show ?thesis
    using teardown_recv_safe [OF reach_accepted_run [OF s(1)]] r s(2) by simp
qed

end
