(* ===== verification/ServerLocks.thy ===== *)
theory ServerLocks
  imports SessionRuns
begin

text \<open>
  The locks of the server: the mutexes of \<open>ServerCore\<close> (one release queue, one session map and one
  actor map for each logic thread), of the mailboxes, of \<open>Ticker\<close> and of the logger. Every operation
  gives the list of its acquisitions and releases, a scope of a \<open>scoped_lock\<close>, \<open>unique_lock\<close> or
  \<open>shared_lock\<close> being an acquisition and a release around the body of the scope; what a virtual
  function acquires (a timer function, \<open>OnActorCreated\<close>, \<open>Fire\<close>) is an argument. The threads of the
  server run these lists interleaved. A shared acquisition waits for a unique holder only, a unique
  one for any holder, the acquiring thread included.
\<close>

section \<open>Locks and what the operations do with them\<close>

datatype server_lock =
    ReleaseQueueLock nat
  | SessionMapLock nat
  | ActorMapLock nat
  | TimerEventsLock
  | UnregisterListLock
  | MailboxLock nat
  | LogQueueLock

datatype lock_mode = SharedMode | UniqueMode

datatype lock_action = Acquire lock_mode server_lock | Unlock server_lock

definition guarded :: "lock_mode \<Rightarrow> server_lock \<Rightarrow> lock_action list \<Rightarrow> lock_action list" where
  "guarded m l body = Acquire m l # body @ [Unlock l]"

subsection \<open>ServerCore\<close>

definition FindSession_locks :: "nat \<Rightarrow> lock_action list" where
  "FindSession_locks t = guarded SharedMode (SessionMapLock t) []"

definition InsertSession_locks :: "nat \<Rightarrow> lock_action list" where
  "InsertSession_locks t = guarded UniqueMode (SessionMapLock t) []"

definition EraseSession_locks :: "nat \<Rightarrow> lock_action list" where
  "EraseSession_locks t = guarded UniqueMode (SessionMapLock t) []"

text \<open>\<open>OnDisconnected\<close>, which \<open>EraseAllSession\<close> calls in its scope, takes no lock.\<close>

definition EraseAllSession_locks :: "nat \<Rightarrow> lock_action list" where
  "EraseAllSession_locks t = guarded UniqueMode (SessionMapLock t) []"

definition ReleaseSession_locks :: "nat \<Rightarrow> lock_action list" where
  "ReleaseSession_locks t = guarded UniqueMode (ReleaseQueueLock t) []"

definition FindNonNetworkActor_locks :: "nat \<Rightarrow> lock_action list" where
  "FindNonNetworkActor_locks t = guarded SharedMode (ActorMapLock t) []"

text \<open>\<open>created\<close> and \<open>destroyed\<close>: the locks of \<open>OnActorCreated\<close> and \<open>OnActorDestroyed\<close> of the actor.\<close>

definition RegisterNonNetworkActor_locks :: "nat \<Rightarrow> lock_action list \<Rightarrow> lock_action list" where
  "RegisterNonNetworkActor_locks t created = guarded UniqueMode (ActorMapLock t) created"

definition UnregisterNonNetworkActor_locks :: "nat \<Rightarrow> lock_action list \<Rightarrow> lock_action list" where
  "UnregisterNonNetworkActor_locks t destroyed = guarded UniqueMode (ActorMapLock t) destroyed"

subsection \<open>Mailboxes, logger and ticker\<close>

definition SendMessage_locks :: "nat \<Rightarrow> lock_action list" where
  "SendMessage_locks a = guarded UniqueMode (MailboxLock a) []"

text \<open>The messages run after the scope of the lock.\<close>

definition ProcessMessage_locks :: "nat \<Rightarrow> lock_action list list \<Rightarrow> lock_action list" where
  "ProcessMessage_locks a handlers = guarded UniqueMode (MailboxLock a) [] @ concat handlers"

definition WriteLog_locks :: "lock_action list" where
  "WriteLog_locks = guarded UniqueMode LogQueueLock []"

definition Worker_locks :: "lock_action list" where
  "Worker_locks = guarded UniqueMode LogQueueLock []"

definition RegisterTimerEvent_locks :: "lock_action list" where
  "RegisterTimerEvent_locks = guarded UniqueMode TimerEventsLock []"

definition UnregisterTimerEvent_locks :: "lock_action list" where
  "UnregisterTimerEvent_locks = guarded UniqueMode UnregisterListLock []"

definition UnregisterTimerEventImpl_locks :: "bool \<Rightarrow> lock_action list" where
  "UnregisterTimerEventImpl_locks pending =
     guarded UniqueMode UnregisterListLock [] @
     (if pending then guarded UniqueMode TimerEventsLock [] else [])"

text \<open>One turn of \<open>UpdateTick\<close>; \<open>fires\<close> are the locks of the \<open>Fire\<close> functions it calls.\<close>

definition UpdateTick_locks :: "bool \<Rightarrow> lock_action list list \<Rightarrow> lock_action list" where
  "UpdateTick_locks pending fires =
     UnregisterTimerEventImpl_locks pending @ guarded SharedMode TimerEventsLock (concat fires)"

subsection \<open>Sessions\<close>

text \<open>
  \<open>DecreaseIOCount\<close>: \<open>zero\<close> is \<open>None\<close> when the count stays above zero. When it becomes zero,
  \<open>Session::ReleaseSession\<close> calls \<open>OnActorDestroyed\<close>, whose locks \<open>zero\<close> then gives, and
  \<open>ServerCore::ReleaseSession\<close>.
\<close>

definition DecreaseIOCount_locks :: "nat \<Rightarrow> lock_action list option \<Rightarrow> lock_action list" where
  "DecreaseIOCount_locks t zero =
     (case zero of None \<Rightarrow> [] | Some destroyed \<Rightarrow> destroyed @ ReleaseSession_locks t)"

text \<open>
  The result of posting a send or a receive: posted (or nothing to post), or failed, the count then
  becoming zero or not. A failure is logged, then the reference is given back.
\<close>

datatype 'd post_result = Posted | PostFailed "'d option"

definition post_locks :: "nat \<Rightarrow> lock_action list post_result \<Rightarrow> lock_action list" where
  "post_locks t r = (case r of Posted \<Rightarrow> []
     | PostFailed zero \<Rightarrow> WriteLog_locks @ DecreaseIOCount_locks t zero)"

definition DoRecv_locks :: "nat \<Rightarrow> lock_action list post_result \<Rightarrow> lock_action list" where
  "DoRecv_locks t r = post_locks t r"

definition DoSend_locks :: "nat \<Rightarrow> lock_action list post_result \<Rightarrow> lock_action list" where
  "DoSend_locks t r = post_locks t r"

text \<open>\<open>ok\<close>: whether all packets of the \<open>n\<close> received ones were turned into messages.\<close>

definition OnRecvIoCompleted_locks ::
  "nat \<Rightarrow> nat \<Rightarrow> nat \<Rightarrow> bool \<Rightarrow> lock_action list post_result \<Rightarrow> lock_action list option \<Rightarrow> lock_action list" where
  "OnRecvIoCompleted_locks a t n ok r zero =
     concat (replicate n (SendMessage_locks a)) @
     (if ok then DoRecv_locks t r else WriteLog_locks) @ DecreaseIOCount_locks t zero"

definition OnSendIoCompleted_locks ::
  "nat \<Rightarrow> lock_action list option \<Rightarrow> lock_action list post_result \<Rightarrow> lock_action list" where
  "OnSendIoCompleted_locks t zero r = DecreaseIOCount_locks t zero @ DoSend_locks t r"

subsection \<open>The threads\<close>

text \<open>
  One pass of each thread's loop. A timer function of a session or of another actor is an argument, as
  is what a message does; \<open>created\<close> are the locks of the new session's \<open>OnActorCreated\<close>.
\<close>

datatype 'd accept_end = PortFailed | RecvPosted_end | RecvFailed_end "'d option"

definition accept_locks ::
  "nat \<Rightarrow> nat \<Rightarrow> lock_action list \<Rightarrow> lock_action list accept_end \<Rightarrow> lock_action list option \<Rightarrow> lock_action list" where
  "accept_locks a t created e zero =
     (case e of
        PortFailed \<Rightarrow> DecreaseIOCount_locks t zero
      | RecvPosted_end \<Rightarrow>
          SendMessage_locks a @ InsertSession_locks t @ created @ DoRecv_locks t Posted @
          DecreaseIOCount_locks t zero
      | RecvFailed_end z \<Rightarrow>
          SendMessage_locks a @ InsertSession_locks t @ created @ DoRecv_locks t (PostFailed z) @
          WriteLog_locks @ DecreaseIOCount_locks t zero)"

text \<open>What an IO thread does with the completion it took, once the session is found.\<close>

datatype 'd io_work =
    NothingTransferred "'d option"
  | FailedCompletion bool "'d option"
  | ReceiveDone nat bool "'d post_result" "'d option"
  | SendDone "'d option" "'d post_result"

definition OnIoCompleted_locks :: "nat \<Rightarrow> nat \<Rightarrow> lock_action list io_work \<Rightarrow> lock_action list" where
  "OnIoCompleted_locks a t w =
     (case w of
        NothingTransferred zero \<Rightarrow> DecreaseIOCount_locks t zero
      | FailedCompletion logged zero \<Rightarrow> (if logged then WriteLog_locks else []) @ DecreaseIOCount_locks t zero
      | ReceiveDone n ok r zero \<Rightarrow> OnRecvIoCompleted_locks a t n ok r zero
      | SendDone zero r \<Rightarrow> OnSendIoCompleted_locks t zero r)"

definition io_locks :: "nat \<Rightarrow> nat \<Rightarrow> lock_action list io_work option \<Rightarrow> lock_action list" where
  "io_locks a t w = FindSession_locks t @
     (case w of None \<Rightarrow> WriteLog_locks | Some w' \<Rightarrow> OnIoCompleted_locks a t w')"

text \<open>
  A phase of a logic thread's turn: the timer functions of the sessions run in the scope of the lock of
  the session map, those of the other actors in the scope of the lock of the actor map.
\<close>

definition wake_locks :: "nat \<Rightarrow> lock_action list list \<times> lock_action list list \<Rightarrow> lock_action list" where
  "wake_locks t hs =
     guarded SharedMode (SessionMapLock t) (concat (fst hs)) @
     guarded SharedMode (ActorMapLock t) (concat (snd hs))"

definition logic_turn_locks :: "nat \<Rightarrow> (lock_action list list \<times> lock_action list list) list \<Rightarrow> lock_action list" where
  "logic_turn_locks t phases = concat (map (wake_locks t) phases)"

text \<open>The loop of a release thread over its queue; an entry is a thread id and whether its session is found.\<close>

definition release_entry_locks :: "nat \<times> bool \<Rightarrow> lock_action list" where
  "release_entry_locks e = FindSession_locks (fst e) @ (if snd e then EraseSession_locks (fst e) else [])"

definition release_turn_locks :: "nat \<Rightarrow> (nat \<times> bool) list \<Rightarrow> lock_action list" where
  "release_turn_locks t es = guarded UniqueMode (ReleaseQueueLock t) (concat (map release_entry_locks es))"

text \<open>
  What the virtual functions may do: lists of acquisitions and releases for each kind of them, the timer
  functions of sessions and of other actors, \<open>Fire\<close>, and \<open>OnActorCreated\<close> and \<open>OnActorDestroyed\<close> of
  sessions.
\<close>

record hooks =
  created_hooks :: "lock_action list set"
  destroyed_hooks :: "lock_action list set"
  session_hooks :: "lock_action list set"
  actor_hooks :: "lock_action list set"
  fire_hooks :: "lock_action list set"

datatype server_thread =
    AcceptThread | IoThread | LogicThread nat | ReleaseThread nat | TickerThread | LoggerThread

fun thread_passes :: "hooks \<Rightarrow> server_thread \<Rightarrow> lock_action list set" where
  "thread_passes H AcceptThread =
     {accept_locks a t created e zero |a t created e zero.
        created \<in> created_hooks H \<and> set_accept_end e \<union> set_option zero \<subseteq> destroyed_hooks H}"
| "thread_passes H IoThread =
     {io_locks a t w |a t w. \<Union> (set_io_work ` set_option w) \<subseteq> destroyed_hooks H}"
| "thread_passes H (LogicThread t) =
     {logic_turn_locks t phases |phases.
        list_all (\<lambda>ph. set (fst ph) \<subseteq> session_hooks H \<and> set (snd ph) \<subseteq> actor_hooks H) phases}"
| "thread_passes H (ReleaseThread t) =
     {release_turn_locks t es |es. True} \<union> {EraseAllSession_locks t, WriteLog_locks}"
| "thread_passes H TickerThread = {UpdateTick_locks p fs |p fs. set fs \<subseteq> fire_hooks H}"
| "thread_passes H LoggerThread = {Worker_locks}"

section \<open>Interleaving\<close>

record lock_sys =
  remaining :: "nat \<Rightarrow> lock_action list"
  holders :: "server_lock \<Rightarrow> (nat \<times> lock_mode) list"

definition can_acquire :: "lock_mode \<Rightarrow> (nat \<times> lock_mode) list \<Rightarrow> bool" where
  "can_acquire m hs \<longleftrightarrow> (case m of UniqueMode \<Rightarrow> hs = [] | SharedMode \<Rightarrow> list_all (\<lambda>h. snd h = SharedMode) hs)"

definition lock_init :: "lock_sys \<Rightarrow> bool" where
  "lock_init s \<longleftrightarrow> remaining s = (\<lambda>_. []) \<and> holders s = (\<lambda>_. [])"

definition acquire :: "nat \<Rightarrow> lock_mode \<Rightarrow> server_lock \<Rightarrow> lock_sys \<Rightarrow> lock_sys" where
  "acquire i m l s = s\<lparr>holders := (holders s)(l := (i, m) # holders s l)\<rparr>"

fun remove_holder :: "nat \<Rightarrow> (nat \<times> lock_mode) list \<Rightarrow> (nat \<times> lock_mode) list" where
  "remove_holder i [] = []"
| "remove_holder i (h # hs) = (if fst h = i then hs else h # remove_holder i hs)"

definition release :: "nat \<Rightarrow> server_lock \<Rightarrow> lock_sys \<Rightarrow> lock_sys" where
  "release i l s = s\<lparr>holders := (holders s)(l := remove_holder i (holders s l))\<rparr>"

definition continue_with :: "nat \<Rightarrow> lock_action list \<Rightarrow> lock_sys \<Rightarrow> lock_sys" where
  "continue_with i p s = s\<lparr>remaining := (remaining s)(i := p)\<rparr>"

text \<open>\<open>T\<close> gives the kind of each thread. A thread that is through its pass begins another one.\<close>

inductive lock_step :: "hooks \<Rightarrow> (nat \<Rightarrow> server_thread) \<Rightarrow> lock_sys \<Rightarrow> lock_sys \<Rightarrow> bool"
  for H :: hooks and T :: "nat \<Rightarrow> server_thread" where
  begin_pass: "remaining s i = [] \<Longrightarrow> p \<in> thread_passes H (T i) \<Longrightarrow> lock_step H T s (continue_with i p s)"
| lock: "remaining s i = Acquire m l # p \<Longrightarrow> can_acquire m (holders s l) \<Longrightarrow>
    lock_step H T s (continue_with i p (acquire i m l s))"
| unlock: "remaining s i = Unlock l # p \<Longrightarrow> lock_step H T s (continue_with i p (release i l s))"

inductive_cases lock_stepE: "lock_step H T s t"

lemmas lock_sys_defs = acquire_def release_def continue_with_def

section \<open>A lock order\<close>

text \<open>
  The order in which the code nests its locks: the release queue before the session map, the maps before
  whatever a timer function or \<open>Fire\<close> takes, mailboxes and the log queue innermost.
\<close>

fun lock_rank :: "server_lock \<Rightarrow> nat" where
  "lock_rank (ReleaseQueueLock t) = 0"
| "lock_rank (SessionMapLock t) = 1"
| "lock_rank (ActorMapLock t) = 2"
| "lock_rank TimerEventsLock = 3"
| "lock_rank UnregisterListLock = 4"
| "lock_rank (MailboxLock a) = 5"
| "lock_rank LogQueueLock = 6"

text \<open>A list that a thread holding \<open>H\<close> runs in the order, and that ends with everything released.\<close>

fun ordered :: "server_lock set \<Rightarrow> lock_action list \<Rightarrow> bool" where
  "ordered H [] \<longleftrightarrow> H = {}"
| "ordered H (Acquire m l # p) \<longleftrightarrow> (\<forall>h \<in> H. lock_rank h < lock_rank l) \<and> ordered (insert l H) p"
| "ordered H (Unlock l # p) \<longleftrightarrow> l \<in> H \<and> ordered (H - {l}) p"

fun action_rank :: "lock_action \<Rightarrow> nat" where
  "action_rank (Acquire m l) = lock_rank l"
| "action_rank (Unlock l) = lock_rank l"

definition nested_above :: "nat \<Rightarrow> lock_action list \<Rightarrow> bool" where
  "nested_above r p \<longleftrightarrow> ordered {} p \<and> list_all (\<lambda>a. r \<le> action_rank a) p"

lemma ordered_append:
  assumes "ordered H' p" and "list_all (\<lambda>a. r \<le> action_rank a) p"
    and "\<forall>h \<in> H. lock_rank h < r" and "ordered H q"
  shows "ordered (H \<union> H') (p @ q)"
  using assms
proof (induction H' p rule: ordered.induct)
  case (1 H')
  then show ?case by simp
next
  case (2 H' m l p)
  then have "ordered (H \<union> insert l H') (p @ q)" by simp
  with 2 show ?case by (auto simp: insert_commute)
next
  case (3 H' l p)
  then have "ordered (H \<union> (H' - {l})) (p @ q)" and "l \<notin> H" by auto
  moreover have "H \<union> H' - {l} = H \<union> (H' - {l})" using \<open>l \<notin> H\<close> by blast
  ultimately show ?case using 3 by simp
qed

lemma nested_Nil [simp]: "nested_above r []"
  by (simp add: nested_above_def)

lemma nested_append: "nested_above r p \<Longrightarrow> nested_above r q \<Longrightarrow> nested_above r (p @ q)"
  using ordered_append [of "{}" p r "{}" q] by (simp add: nested_above_def)

lemma nested_concat: "(\<And>p. p \<in> set ps \<Longrightarrow> nested_above r p) \<Longrightarrow> nested_above r (concat ps)"
  by (induction ps) (auto intro: nested_append)

lemma nested_mono: "nested_above r p \<Longrightarrow> r' \<le> r \<Longrightarrow> nested_above r' p"
  by (auto simp: nested_above_def list_all_iff)

lemma nested_guarded:
  assumes "r \<le> lock_rank l" and "nested_above (Suc (lock_rank l)) p"
  shows "nested_above r (guarded m l p)"
proof -
  have "ordered ({l} \<union> {}) (p @ [Unlock l])"
    using assms(2) by (intro ordered_append [where r = "Suc (lock_rank l)"]) (simp_all add: nested_above_def)
  moreover have "list_all (\<lambda>a. r \<le> action_rank a) p"
    using assms by (auto simp: nested_above_def list_all_iff)
  ultimately show ?thesis using assms(1) by (simp add: nested_above_def guarded_def)
qed

lemma nested_guarded_leaf: "r \<le> lock_rank l \<Longrightarrow> nested_above r (guarded m l [])"
  by (rule nested_guarded) simp_all

lemmas leaf_locks = FindSession_locks_def InsertSession_locks_def EraseSession_locks_def
  EraseAllSession_locks_def ReleaseSession_locks_def FindNonNetworkActor_locks_def SendMessage_locks_def
  WriteLog_locks_def Worker_locks_def RegisterTimerEvent_locks_def UnregisterTimerEvent_locks_def

text \<open>What \<open>OnTimer\<close> of a session does is in order when its messages are.\<close>

lemma nested_ProcessMessage:
  assumes "r \<le> 5" and "\<And>h. h \<in> set handlers \<Longrightarrow> nested_above r h"
  shows "nested_above r (ProcessMessage_locks a handlers)"
  unfolding ProcessMessage_locks_def using assms
  by (intro nested_append nested_concat nested_guarded_leaf) simp_all

text \<open>
  The hypothesis on the virtual functions, and with it every pass of every thread is in order. No lock is
  held where the accept and the IO threads call \<open>OnActorCreated\<close> and \<open>OnActorDestroyed\<close>.
\<close>

definition hooks_ordered :: "hooks \<Rightarrow> bool" where
  "hooks_ordered H \<longleftrightarrow>
     (\<forall>p \<in> session_hooks H. nested_above 2 p) \<and> (\<forall>p \<in> actor_hooks H. nested_above 3 p) \<and>
     (\<forall>p \<in> fire_hooks H. nested_above 4 p) \<and>
     (\<forall>p \<in> created_hooks H. nested_above 0 p) \<and> (\<forall>p \<in> destroyed_hooks H. nested_above 0 p)"

lemma nested_DecreaseIOCount:
  "(\<And>d. d \<in> set_option zero \<Longrightarrow> nested_above 0 d) \<Longrightarrow> nested_above 0 (DecreaseIOCount_locks t zero)"
  by (cases zero) (auto simp: DecreaseIOCount_locks_def ReleaseSession_locks_def intro!: nested_guarded_leaf nested_append)

lemma nested_leaf_locks:
  "nested_above 0 (FindSession_locks t)" "nested_above 1 (FindSession_locks t)"
  "nested_above 0 (InsertSession_locks t)" "nested_above 1 (EraseSession_locks t)"
  "nested_above 0 (EraseAllSession_locks t)" "r \<le> 2 \<Longrightarrow> nested_above r (FindNonNetworkActor_locks t)"
  "r \<le> 6 \<Longrightarrow> nested_above r WriteLog_locks" "nested_above 0 Worker_locks"
  "r \<le> 5 \<Longrightarrow> nested_above r (SendMessage_locks a)" "r \<le> 3 \<Longrightarrow> nested_above r RegisterTimerEvent_locks"
  "r \<le> 4 \<Longrightarrow> nested_above r UnregisterTimerEvent_locks"
  unfolding leaf_locks by (rule nested_guarded_leaf; simp)+

lemma nested_post_locks:
  "(\<And>d. d \<in> set_post_result r \<Longrightarrow> nested_above 0 d) \<Longrightarrow> nested_above 0 (post_locks t r)"
  by (cases r) (auto simp: post_locks_def intro!: nested_append nested_leaf_locks nested_DecreaseIOCount)

lemmas nested_intros = nested_append nested_concat nested_DecreaseIOCount nested_leaf_locks nested_post_locks

lemma nested_accept:
  assumes "nested_above 0 created" and "\<And>d. d \<in> set_accept_end e \<union> set_option zero \<Longrightarrow> nested_above 0 d"
  shows "nested_above 0 (accept_locks a t created e zero)"
  using assms by (cases e) (auto simp: accept_locks_def DoRecv_locks_def intro!: nested_intros)

lemma nested_OnRecv:
  assumes "\<And>d. d \<in> set_post_result r \<union> set_option zero \<Longrightarrow> nested_above 0 d"
  shows "nested_above 0 (OnRecvIoCompleted_locks a t n ok r zero)"
  using assms by (auto simp: OnRecvIoCompleted_locks_def DoRecv_locks_def intro!: nested_intros)

lemma nested_OnSend:
  assumes "\<And>d. d \<in> set_post_result r \<union> set_option zero \<Longrightarrow> nested_above 0 d"
  shows "nested_above 0 (OnSendIoCompleted_locks t zero r)"
  using assms by (auto simp: OnSendIoCompleted_locks_def DoSend_locks_def intro!: nested_intros)

lemma nested_OnIoCompleted:
  assumes "\<And>d. d \<in> set_io_work w \<Longrightarrow> nested_above 0 d"
  shows "nested_above 0 (OnIoCompleted_locks a t w)"
  using assms by (cases w) (auto simp: OnIoCompleted_locks_def intro!: nested_OnRecv nested_OnSend nested_intros)

lemma nested_io:
  assumes "\<And>w' d. w = Some w' \<Longrightarrow> d \<in> set_io_work w' \<Longrightarrow> nested_above 0 d"
  shows "nested_above 0 (io_locks a t w)"
  using assms by (cases w) (auto simp: io_locks_def intro!: nested_append nested_OnIoCompleted nested_leaf_locks)

lemma nested_wake:
  assumes "hooks_ordered H" and "set (fst hs) \<subseteq> session_hooks H" and "set (snd hs) \<subseteq> actor_hooks H"
  shows "nested_above 0 (wake_locks t hs)"
  unfolding wake_locks_def using assms
  by (intro nested_append nested_guarded nested_concat) (auto simp: hooks_ordered_def eval_nat_numeral)

lemma nested_logic_turn:
  assumes "hooks_ordered H"
    and "list_all (\<lambda>ph. set (fst ph) \<subseteq> session_hooks H \<and> set (snd ph) \<subseteq> actor_hooks H) phases"
  shows "nested_above 0 (logic_turn_locks t phases)"
  unfolding logic_turn_locks_def using assms
  by (intro nested_concat) (auto simp: list_all_iff intro!: nested_wake)

lemma nested_release_turn: "nested_above 0 (release_turn_locks t es)"
  unfolding release_turn_locks_def
  by (intro nested_guarded nested_concat)
     (auto simp: release_entry_locks_def nested_leaf_locks [unfolded One_nat_def] nested_append)

lemma nested_UpdateTick:
  assumes "hooks_ordered H" and "set fs \<subseteq> fire_hooks H"
  shows "nested_above 0 (UpdateTick_locks p fs)"
  unfolding UpdateTick_locks_def UnregisterTimerEventImpl_locks_def using assms
  by (auto simp: hooks_ordered_def intro!: nested_append nested_guarded nested_guarded_leaf nested_concat)

lemma passes_nested:
  assumes H: "hooks_ordered H" and p: "p \<in> thread_passes H T"
  shows "nested_above 0 p"
proof (cases T)
  case AcceptThread
  with H p show ?thesis by (auto simp: hooks_ordered_def intro!: nested_accept)
next
  case IoThread
  with p obtain a t w where "p = io_locks a t w"
    and w: "\<And>w'. w = Some w' \<Longrightarrow> set_io_work w' \<subseteq> destroyed_hooks H"
    by fastforce
  with H show ?thesis unfolding hooks_ordered_def by (blast intro: nested_io)
qed (use H p in \<open>auto simp: nested_release_turn nested_leaf_locks nested_logic_turn nested_UpdateTick\<close>)

lemma passes_ordered: "hooks_ordered H \<Longrightarrow> p \<in> thread_passes H T \<Longrightarrow> ordered {} p"
  using passes_nested by (auto simp: nested_above_def)

section \<open>No deadlock in the order\<close>

definition held :: "lock_sys \<Rightarrow> nat \<Rightarrow> server_lock set" where
  "held s i = {l. \<exists>m. (i, m) \<in> set (holders s l)}"

definition lock_inv :: "lock_sys \<Rightarrow> bool" where
  "lock_inv s \<longleftrightarrow>
     (\<forall>l. distinct (map fst (holders s l))) \<and> (\<forall>i. ordered (held s i) (remaining s i))"

lemma set_remove_holder:
  "distinct (map fst hs) \<Longrightarrow> set (remove_holder i hs) = {h \<in> set hs. fst h \<noteq> i}"
  by (induction hs) (auto simp: image_iff)

lemma distinct_remove_holder: "distinct (map fst hs) \<Longrightarrow> distinct (map fst (remove_holder i hs))"
  by (induction hs) (auto simp: set_remove_holder)

lemma held_simps:
  "held (continue_with i p s) j = held s j"
  "held (acquire i m l s) j = (if j = i then insert l (held s i) else held s j)"
  by (auto simp: held_def lock_sys_defs)

lemma held_release:
  "distinct (map fst (holders s l)) \<Longrightarrow>
   held (release i l s) j = (if j = i then held s i - {l} else held s j)"
  by (auto simp: held_def lock_sys_defs set_remove_holder)

lemma remaining_simps [simp]:
  "remaining (continue_with i p s) = (remaining s)(i := p)"
  "remaining (acquire i m l s) = remaining s" "remaining (release i l s) = remaining s"
  "holders (continue_with i p s) = holders s"
  by (simp_all add: lock_sys_defs)

lemma lock_init_inv: "lock_init s \<Longrightarrow> lock_inv s"
  by (simp add: lock_init_def lock_inv_def held_def)

lemma lock_step_inv:
  assumes H: "hooks_ordered H" and "lock_step H T s t" and inv: "lock_inv s"
  shows "lock_inv t"
  using assms(2)
proof (cases rule: lock_step.cases)
  case (begin_pass i p)
  moreover have "ordered (held s i) []" using inv begin_pass(2) by (metis lock_inv_def)
  ultimately show ?thesis using inv passes_ordered [OF H] by (auto simp: lock_inv_def held_simps)
next
  case (lock i m l p)
  then have o: "ordered (held s i) (Acquire m l # p)" using inv by (metis lock_inv_def)
  then have "l \<notin> held s i" by auto
  then have "i \<notin> fst ` set (holders s l)" by (auto simp: held_def)
  with inv o show ?thesis unfolding lock(1)
    by (auto simp: lock_inv_def held_simps) (simp add: acquire_def)
next
  case (unlock i l p)
  then have o: "ordered (held s i) (Unlock l # p)" using inv by (metis lock_inv_def)
  have d: "distinct (map fst (holders s l'))" for l' using inv by (simp add: lock_inv_def)
  show ?thesis unfolding unlock(1) lock_inv_def using inv o d
    by (auto simp: lock_inv_def held_simps held_release) (simp add: release_def distinct_remove_holder)
qed

text \<open>
  A deadlock: threads each of which waits for a lock that one of them, possibly itself, holds in a
  way that keeps it out.
\<close>

definition waits_for :: "lock_sys \<Rightarrow> nat \<Rightarrow> nat \<Rightarrow> bool" where
  "waits_for s i j \<longleftrightarrow> (\<exists>m l p m'. remaining s i = Acquire m l # p \<and> (j, m') \<in> set (holders s l) \<and>
     (m = UniqueMode \<or> m' = UniqueMode))"

definition deadlocked :: "lock_sys \<Rightarrow> nat set \<Rightarrow> bool" where
  "deadlocked s D \<longleftrightarrow> D \<noteq> {} \<and> (\<forall>i \<in> D. \<exists>j \<in> D. waits_for s i j)"

fun wanted_rank :: "lock_action list \<Rightarrow> nat" where
  "wanted_rank (Acquire m l # p) = lock_rank l"
| "wanted_rank p = 0"

text \<open>A thread waits only for threads that wait, if at all, for a lock of a higher rank.\<close>

lemma waits_for_rank:
  assumes inv: "lock_inv s" and "waits_for s i j" and "waits_for s j k"
  shows "wanted_rank (remaining s i) < wanted_rank (remaining s j)"
proof -
  from assms(2) obtain m l p m' where l: "remaining s i = Acquire m l # p" "(j, m') \<in> set (holders s l)"
    by (auto simp: waits_for_def)
  from assms(3) obtain n l' q where l': "remaining s j = Acquire n l' # q"
    by (auto simp: waits_for_def)
  have "l \<in> held s j" using l(2) by (auto simp: held_def)
  moreover have "ordered (held s j) (Acquire n l' # q)" using inv l' by (metis lock_inv_def)
  ultimately show ?thesis using l(1) l' by simp
qed

lemma lock_rank_bound: "lock_rank l \<le> 6"
  by (cases l) simp_all

lemma wanted_rank_bound: "wanted_rank p \<le> 6"
  by (cases p rule: wanted_rank.cases) (simp_all add: lock_rank_bound)

lemma inv_not_deadlocked:
  assumes inv: "lock_inv s"
  shows "\<not> deadlocked s D"
proof
  assume d: "deadlocked s D"
  define R where "R = (\<lambda>i. wanted_rank (remaining s i)) ` D"
  have "finite R" unfolding R_def by (rule finite_subset [of _ "{..6}"]) (auto simp: wanted_rank_bound)
  moreover have "R \<noteq> {}" using d by (simp add: R_def deadlocked_def)
  ultimately have "Max R \<in> R" by simp
  then obtain i where i: "i \<in> D" "wanted_rank (remaining s i) = Max R" by (auto simp: R_def)
  then obtain j k where "j \<in> D" "waits_for s i j" "waits_for s j k" using d by (meson deadlocked_def)
  then have "Max R < wanted_rank (remaining s j)" using waits_for_rank [OF inv] i(2) by fastforce
  moreover have "wanted_rank (remaining s j) \<in> R" using \<open>j \<in> D\<close> by (simp add: R_def)
  ultimately show False using Max_ge [OF \<open>finite R\<close>] by fastforce
qed

interpretation lock: inductive_invariant lock_init "lock_step H T" "\<lambda>s. hooks_ordered H \<longrightarrow> lock_inv s" for H T
  by unfold_locales (auto intro: lock_init_inv lock_step_inv)

lemma lock_reach_inv: "hooks_ordered H \<Longrightarrow> reach lock_init (lock_step H T) s \<Longrightarrow> lock_inv s"
  using lock.reach_inv by blast

text \<open>A unique holder is alone, whatever the virtual functions do.\<close>

definition exclusive :: "lock_sys \<Rightarrow> bool" where
  "exclusive s \<longleftrightarrow> (\<forall>l. list_all (\<lambda>h. snd h = SharedMode) (holders s l) \<or> length (holders s l) = 1)"

lemma shared_remove_holder:
  "list_all (\<lambda>h. snd h = SharedMode) hs \<Longrightarrow> list_all (\<lambda>h. snd h = SharedMode) (remove_holder i hs)"
  by (induction hs) auto

lemma single_remove_holder:
  "length hs = 1 \<Longrightarrow> list_all (\<lambda>h. snd h = SharedMode) (remove_holder i hs) \<or> length (remove_holder i hs) = 1"
  by (cases hs) auto

interpretation excl: inductive_invariant lock_init "lock_step H T" exclusive for H T
proof
  show "exclusive s" if "lock_init s" for s using that by (simp add: lock_init_def exclusive_def)
next
  fix s t assume "lock_step H T s t" and ex: "exclusive s"
  from this(1) show "exclusive t"
  proof (cases rule: lock_step.cases)
    case (begin_pass i p)
    with ex show ?thesis by (simp add: exclusive_def)
  next
    case (lock i m l p)
    with ex show ?thesis
      by (cases m) (auto simp: exclusive_def can_acquire_def acquire_def)
  next
    case (unlock i l p)
    with ex show ?thesis using shared_remove_holder single_remove_holder [of "holders s l" i]
      unfolding exclusive_def by (auto simp: release_def simp del: One_nat_def)
  qed
qed

text \<open>A thread that can go on: it is inside a pass and its next action does not wait.\<close>

definition ready :: "lock_sys \<Rightarrow> nat \<Rightarrow> bool" where
  "ready s i \<longleftrightarrow> (case remaining s i of
     [] \<Rightarrow> False
   | Acquire m l # p \<Rightarrow> can_acquire m (holders s l)
   | Unlock l # p \<Rightarrow> True)"

lemma not_can_acquire:
  "\<not> can_acquire m hs \<Longrightarrow> \<exists>j m'. (j, m') \<in> set hs \<and> (m = UniqueMode \<or> m' = UniqueMode)"
proof (cases m)
  case SharedMode
  assume "\<not> can_acquire m hs"
  then obtain j m' where "(j, m') \<in> set hs" "m' \<noteq> SharedMode"
    by (auto simp: SharedMode can_acquire_def list_all_iff)
  then show ?thesis by (cases m') auto
next
  case UniqueMode
  assume "\<not> can_acquire m hs"
  then show ?thesis by (cases hs) (auto simp: UniqueMode can_acquire_def split_paired_Ex)
qed

lemma busy_not_ready_waits:
  assumes inv: "lock_inv s" and "remaining s i \<noteq> []" and "\<not> ready s i"
  shows "\<exists>j. remaining s j \<noteq> [] \<and> waits_for s i j"
proof -
  obtain m l p where l: "remaining s i = Acquire m l # p" "\<not> can_acquire m (holders s l)"
    using assms(2,3) by (auto simp: ready_def split: list.splits lock_action.splits)
  from not_can_acquire [OF l(2)] obtain j m'
    where j: "(j, m') \<in> set (holders s l)" "m = UniqueMode \<or> m' = UniqueMode" by blast
  then have "held s j \<noteq> {}" by (auto simp: held_def)
  then have "remaining s j \<noteq> []" using inv by (metis lock_inv_def ordered.simps(1))
  with j l(1) show ?thesis by (auto simp: waits_for_def)
qed

lemma inv_progress:
  assumes inv: "lock_inv s" and "remaining s i \<noteq> []"
  shows "\<exists>j. ready s j"
proof (rule ccontr)
  assume "\<nexists>j. ready s j"
  then have "deadlocked s {j. remaining s j \<noteq> []}"
    using assms busy_not_ready_waits [OF inv] by (auto simp: deadlocked_def)
  with inv_not_deadlocked [OF inv] show False by blast
qed

text \<open>
  C28. The locks of the server cannot deadlock as long as the virtual functions (the timer functions,
  \<open>Fire\<close>, \<open>OnActorCreated\<close> and \<open>OnActorDestroyed\<close>) keep the order, in particular as long as no timer
  function of a session gives back the last reference: in every run of any
  number of accept, IO, logic, release, ticker and logger threads no set of threads waits for itself,
  whenever a thread is inside a pass some thread can go on, and a unique holder of a lock is its only holder.
\<close>

theorem server_locks_deadlock_free:
  assumes "hooks_ordered H" and "reach lock_init (lock_step H T) s"
  shows "\<not> deadlocked s D \<and> (remaining s i \<noteq> [] \<longrightarrow> (\<exists>j. ready s j)) \<and> exclusive s"
  using inv_not_deadlocked [OF lock_reach_inv [OF assms]] inv_progress [OF lock_reach_inv [OF assms]]
    excl.reach_inv [OF assms(2)] by blast

section \<open>The deadlock of a logic thread and its release thread\<close>

lemma deadlocked_not_ready: "deadlocked s D \<Longrightarrow> i \<in> D \<Longrightarrow> \<not> ready s i"
  by (fastforce simp: deadlocked_def waits_for_def ready_def can_acquire_def list_all_iff
      split: lock_mode.splits)

lemma remove_holder_other: "(j, m) \<in> set hs \<Longrightarrow> j \<noteq> i \<Longrightarrow> (j, m) \<in> set (remove_holder i hs)"
  by (induction hs) auto

text \<open>Threads that are deadlocked stay where they are: nothing the others do gives them a lock.\<close>

lemma lock_step_frame:
  assumes "lock_step H T s t"
  obtains i where "remaining s i = [] \<or> ready s i"
    and "\<And>j. j \<noteq> i \<Longrightarrow> remaining t j = remaining s j"
    and "\<And>j l m. j \<noteq> i \<Longrightarrow> (j, m) \<in> set (holders s l) \<Longrightarrow> (j, m) \<in> set (holders t l)"
  using assms
proof (cases rule: lock_step.cases)
  case (begin_pass i p)
  then show ?thesis by (intro that [of i]) (auto simp: lock_sys_defs)
next
  case (lock i m l p)
  then show ?thesis by (intro that [of i]) (auto simp: lock_sys_defs ready_def)
next
  case (unlock i l p)
  then show ?thesis by (intro that [of i]) (auto simp: lock_sys_defs ready_def intro: remove_holder_other)
qed

lemma deadlocked_step:
  assumes "lock_step H T s t" and d: "deadlocked s D"
  shows "deadlocked t D \<and> (\<forall>i \<in> D. remaining t i = remaining s i)"
proof -
  have busy: "remaining s i \<noteq> []" if "i \<in> D" for i
    using d that by (auto simp: deadlocked_def waits_for_def)
  from assms(1) obtain k where k: "remaining s k = [] \<or> ready s k"
    and same: "\<And>j. j \<noteq> k \<Longrightarrow> remaining t j = remaining s j"
    and kept: "\<And>j l m. j \<noteq> k \<Longrightarrow> (j, m) \<in> set (holders s l) \<Longrightarrow> (j, m) \<in> set (holders t l)"
    by (rule lock_step_frame) blast
  have "k \<notin> D" using k busy deadlocked_not_ready [OF d] by blast
  then have D: "j \<noteq> k" if "j \<in> D" for j using that by blast
  have "\<exists>j \<in> D. waits_for t i j" if "i \<in> D" for i
    using d that D same kept unfolding deadlocked_def waits_for_def by metis
  with d D same show ?thesis by (auto simp: deadlocked_def)
qed

lemma deadlocked_forever:
  assumes "(lock_step H T)\<^sup>*\<^sup>* s t" and "deadlocked s D"
  shows "deadlocked t D \<and> (\<forall>i \<in> D. remaining t i = remaining s i)"
  using assms by (induction rule: rtranclp_induct) (auto dest: deadlocked_step)

text \<open>Runs of one thread in a system of which only two threads are inside a pass.\<close>

definition two :: "nat \<Rightarrow> nat \<Rightarrow> lock_action list \<Rightarrow> lock_action list \<Rightarrow>
    (server_lock \<Rightarrow> (nat \<times> lock_mode) list) \<Rightarrow> lock_sys" where
  "two i j p q h = \<lparr>remaining = (\<lambda>_. [])(i := p, j := q), holders = h\<rparr>"

fun alone :: "nat \<Rightarrow> lock_action list \<Rightarrow> (server_lock \<Rightarrow> (nat \<times> lock_mode) list)
    \<Rightarrow> (server_lock \<Rightarrow> (nat \<times> lock_mode) list) option" where
  "alone i [] h = Some h"
| "alone i (Acquire m l # p) h =
     (if can_acquire m (h l) then alone i p (h(l := (i, m) # h l)) else None)"
| "alone i (Unlock l # p) h = alone i p (h(l := remove_holder i (h l)))"

lemma alone_runs:
  assumes "alone i p h = Some h'" and "i \<noteq> j"
  shows "(lock_step H T)\<^sup>*\<^sup>* (two i j (p @ p') q h) (two i j p' q h')"
  using assms
proof (induction i p h rule: alone.induct)
  case (1 i h)
  then show ?case by simp
next
  case (2 i m l p h)
  then have ok: "can_acquire m (h l)" and al: "alone i p (h(l := (i, m) # h l)) = Some h'"
    by (simp_all split: if_splits)
  from 2(1) [OF ok al 2(3)] have
    rest: "(lock_step H T)\<^sup>*\<^sup>* (two i j (p @ p') q (h(l := (i, m) # h l))) (two i j p' q h')" .
  have "two i j (p @ p') q (h(l := (i, m) # h l)) =
      continue_with i (p @ p') (acquire i m l (two i j (Acquire m l # p @ p') q h))"
    using 2(3) by (auto simp: two_def lock_sys_defs fun_upd_twist)
  moreover have "lock_step H T (two i j (Acquire m l # p @ p') q h) \<dots>"
    using ok 2(3) by (intro lock_step.lock) (auto simp: two_def)
  ultimately show ?case using rest by (simp add: converse_rtranclp_into_rtranclp)
next
  case (3 i l p h)
  then have al: "alone i p (h(l := remove_holder i (h l))) = Some h'" by (simp only: alone.simps)
  from 3(1) [OF al 3(3)] have
    rest: "(lock_step H T)\<^sup>*\<^sup>* (two i j (p @ p') q (h(l := remove_holder i (h l)))) (two i j p' q h')" .
  have "two i j (p @ p') q (h(l := remove_holder i (h l))) =
      continue_with i (p @ p') (release i l (two i j (Unlock l # p @ p') q h))"
    using 3(3) by (auto simp: two_def lock_sys_defs fun_upd_twist)
  moreover have "lock_step H T (two i j (Unlock l # p @ p') q h) \<dots>"
    using 3(3) by (intro lock_step.unlock) (auto simp: two_def)
  ultimately show ?case using rest by (simp add: converse_rtranclp_into_rtranclp)
qed

lemma two_swap: "i \<noteq> j \<Longrightarrow> two i j p q h = two j i q p h"
  by (simp add: two_def fun_upd_twist)

lemma two_begin:
  assumes "i \<noteq> j" and "p \<in> thread_passes H (T i)"
  shows "lock_step H T (two i j [] q h) (two i j p q h)"
proof -
  have "two i j p q h = continue_with i p (two i j [] q h)"
    using assms(1) by (auto simp: two_def lock_sys_defs fun_upd_twist)
  then show ?thesis using assms by (auto simp: two_def intro!: lock_step.begin_pass)
qed

lemma two_init: "lock_init (two i j [] [] (\<lambda>_. []))"
  by (auto simp: lock_init_def two_def)

text \<open>
  The timer function of a session whose handler sends a packet: the send fails and gives back the last
  reference, so that the session is released while the lock of the session map is held (its
  \<open>OnActorDestroyed\<close> takes no lock).
\<close>

definition releasing_hook :: "nat \<Rightarrow> nat \<Rightarrow> lock_action list" where
  "releasing_hook a t = ProcessMessage_locks a [DoSend_locks t (PostFailed (Some []))]"

text \<open>Where the two threads come to, and what is left of their passes.\<close>

definition logic_rest :: "nat \<Rightarrow> lock_action list" where
  "logic_rest t = ReleaseSession_locks t @ Unlock (SessionMapLock t) # guarded SharedMode (ActorMapLock t) []"

definition release_rest :: "nat \<Rightarrow> lock_action list" where
  "release_rest t = EraseSession_locks t @ [Unlock (ReleaseQueueLock t)]"

lemma logic_pass_split:
  "logic_turn_locks t [([releasing_hook a t], [])] =
     (Acquire SharedMode (SessionMapLock t) # SendMessage_locks a @ WriteLog_locks) @ logic_rest t"
  by (simp add: logic_turn_locks_def wake_locks_def releasing_hook_def ProcessMessage_locks_def
      DoSend_locks_def post_locks_def DecreaseIOCount_locks_def logic_rest_def SendMessage_locks_def
      guarded_def)

lemma release_pass_split:
  "release_turn_locks t [(t, True)] =
     (Acquire UniqueMode (ReleaseQueueLock t) # FindSession_locks t) @ release_rest t"
  by (simp add: release_turn_locks_def release_entry_locks_def release_rest_def guarded_def)

lemma logic_alone:
  "alone i (Acquire SharedMode (SessionMapLock t) # SendMessage_locks a @ WriteLog_locks) (\<lambda>_. []) =
     Some ((\<lambda>_. [])(SessionMapLock t := [(i, SharedMode)]))"
  by (simp add: leaf_locks guarded_def can_acquire_def fun_eq_iff)

lemma release_alone:
  "alone j (Acquire UniqueMode (ReleaseQueueLock t) # FindSession_locks t)
       ((\<lambda>_. [])(SessionMapLock t := [(i, SharedMode)])) =
     Some ((\<lambda>_. [])(SessionMapLock t := [(i, SharedMode)], ReleaseQueueLock t := [(j, UniqueMode)]))"
  by (simp add: leaf_locks guarded_def can_acquire_def fun_eq_iff)

lemma deadlock_run:
  assumes "T i = LogicThread t" and "T j = ReleaseThread t" and "releasing_hook a t \<in> session_hooks H"
  shows "\<exists>s. reach lock_init (lock_step H T) s \<and> deadlocked s {i, j} \<and>
    remaining s i = logic_rest t \<and> remaining s j = release_rest t"
proof -
  have ij: "i \<noteq> j" using assms(1,2) by auto
  define h1 where "h1 = (\<lambda>_. [])(SessionMapLock t := [(i, SharedMode)])"
  define h2 where "h2 = h1(ReleaseQueueLock t := [(j, UniqueMode)])"
  let ?lp = "logic_turn_locks t [([releasing_hook a t], [])]" and ?rp = "release_turn_locks t [(t, True)]"
  have "lock_step H T (two i j [] [] (\<lambda>_. [])) (two i j ?lp [] (\<lambda>_. []))"
    using assms ij by (intro two_begin) auto
  also have "(lock_step H T)\<^sup>*\<^sup>* \<dots> (two i j (logic_rest t) [] h1)"
    unfolding logic_pass_split h1_def using ij by (intro alone_runs logic_alone)
  finally have 1: "(lock_step H T)\<^sup>*\<^sup>* (two i j [] [] (\<lambda>_. [])) (two i j (logic_rest t) [] h1)" by simp
  have "lock_step H T (two j i [] (logic_rest t) h1) (two j i ?rp (logic_rest t) h1)"
    using assms ij by (intro two_begin) auto
  also have "(lock_step H T)\<^sup>*\<^sup>* \<dots> (two j i (release_rest t) (logic_rest t) h2)"
    unfolding release_pass_split h2_def h1_def using ij by (intro alone_runs release_alone) simp
  finally have 2: "(lock_step H T)\<^sup>*\<^sup>* (two i j (logic_rest t) [] h1) (two i j (logic_rest t) (release_rest t) h2)"
    using ij by (simp add: two_swap [of i j])
  have "reach lock_init (lock_step H T) (two i j (logic_rest t) (release_rest t) h2)"
    by (rule reach_rtranclp [OF reach_rtranclp [OF reach_init [of lock_init, OF two_init] 1] 2])
  moreover have "deadlocked (two i j (logic_rest t) (release_rest t) h2) {i, j}"
    using ij by (auto simp: deadlocked_def waits_for_def two_def h1_def h2_def logic_rest_def
        release_rest_def leaf_locks guarded_def)
  ultimately show ?thesis using ij by (auto simp: two_def)
qed

text \<open>
  C29. The logic thread and the release thread of the same index can deadlock: the logic thread gives back
  the last reference of a session in a timer function, under the shared lock of the session map, and
  waits for the lock of the release queue; the release thread holds that lock over its whole loop and
  waits for the session map. From then on neither takes another step.
\<close>

theorem release_in_timer_deadlocks:
  assumes "T i = LogicThread t" and "T j = ReleaseThread t" and "releasing_hook a t \<in> session_hooks H"
  shows "\<exists>s. reach lock_init (lock_step H T) s \<and>
    (\<lambda>s'. (deadlocked s' {i, j}, remaining s' i, remaining s' j)) ` {s'. (lock_step H T)\<^sup>*\<^sup>* s s'} =
      {(True, logic_rest t, release_rest t)}"
proof -
  from deadlock_run [OF assms] obtain s where s: "reach lock_init (lock_step H T) s"
    "deadlocked s {i, j}" "remaining s i = logic_rest t" "remaining s j = release_rest t" by blast
  from deadlocked_forever [OF _ s(2)] s(3,4)
  have "(\<lambda>s'. (deadlocked s' {i, j}, remaining s' i, remaining s' j)) ` {s'. (lock_step H T)\<^sup>*\<^sup>* s s'} =
      {(True, logic_rest t, release_rest t)}"
    by (auto simp: image_iff)
  with s(1) show ?thesis by blast
qed

text \<open>
  Such a timer function exists: a session whose reference count is zero, which is in the map until the
  release thread takes it out, sends a packet, the send fails, and the session is released again.
\<close>

lemma failed_send_requests_release:
  assumes Q: "lfq_contract Q contents valid" "valid (sendQueue s)"
    and s: "ioMode s = IO_NONE_SENDING" "ioCount s = 0"
    and b: "BuildPacketBuffer nb alloc pkt = Some b"
  shows "\<exists>s'. SendPacket nb Q alloc IoFailed pkt s = Some (False, s') \<and>
    ReleaseRequested (actorId s) (threadId s) \<in> set (io_log s')"
proof -
  have f: "fifo_queue (lfq_Enqueue Q) (lfq_Dequeue Q) contents valid" using Q(1) by (simp add: lfq_contract_def)
  define s1 where "s1 = s\<lparr>sendQueue := lfq_Enqueue Q b (sendQueue s)\<rparr>"
  have v: "valid (sendQueue s1)" and c: "contents (sendQueue s1) \<noteq> []"
    using fifo_queue.valid_push [OF f Q(2)] fifo_queue.contents_push [OF f Q(2)] by (simp_all add: s1_def)
  have m: "ioMode s1 = IO_NONE_SENDING" using s(1) by (simp add: s1_def)
  from DoSend_posts [OF Q(1) v m c, of IoFailed] s(2) show ?thesis
    by (auto simp: SendPacket_def b s1_def after_post_def IncreaseIOCount_def DecreaseIOCount_def
        Session_ReleaseSession_def log_io_def)
qed

text \<open>
  The ticker can lock itself out: \<open>UpdateTick\<close> calls \<open>Fire\<close> under the shared lock of the events, so a \<open>Fire\<close>
  that registers another event waits for ever for its own thread.
\<close>

lemma register_in_fire_deadlocks:
  assumes "T i = TickerThread" and "RegisterTimerEvent_locks \<in> fire_hooks H"
  shows "\<exists>s. reach lock_init (lock_step H T) s \<and> (\<forall>s'. (lock_step H T)\<^sup>*\<^sup>* s s' \<longrightarrow> deadlocked s' {i})"
proof -
  let ?p = "guarded UniqueMode UnregisterListLock [] @ [Acquire SharedMode TimerEventsLock]"
  let ?q = "RegisterTimerEvent_locks @ [Unlock TimerEventsLock]"
  let ?h = "(\<lambda>_. [])(TimerEventsLock := [(i, SharedMode)])"
  have split: "UpdateTick_locks False [RegisterTimerEvent_locks] = ?p @ ?q"
    by (simp add: UpdateTick_locks_def UnregisterTimerEventImpl_locks_def guarded_def)
  have "UpdateTick_locks False [RegisterTimerEvent_locks] \<in> thread_passes H (T i)"
    using assms by fastforce
  then have "lock_step H T (two i (Suc i) [] [] (\<lambda>_. [])) (two i (Suc i) (?p @ ?q) [] (\<lambda>_. []))"
    unfolding split by (intro two_begin) simp_all
  with reach_init [of lock_init _ "lock_step H T", OF two_init]
  have "reach lock_init (lock_step H T) (two i (Suc i) (?p @ ?q) [] (\<lambda>_. []))" by (rule reach_step)
  moreover have "(lock_step H T)\<^sup>*\<^sup>* (two i (Suc i) (?p @ ?q) [] (\<lambda>_. [])) (two i (Suc i) ?q [] ?h)"
    by (rule alone_runs) (simp_all add: guarded_def can_acquire_def fun_eq_iff)
  ultimately have r: "reach lock_init (lock_step H T) (two i (Suc i) ?q [] ?h)" by (rule reach_rtranclp)
  have "deadlocked (two i (Suc i) ?q [] ?h) {i}"
    by (simp add: deadlocked_def waits_for_def two_def leaf_locks guarded_def)
  with r deadlocked_forever show ?thesis by blast
qed

section \<open>Instances\<close>

text \<open>
  Two logic threads with their release threads, an accept and an IO thread, the ticker and the logger, and
  timer functions that send messages and packets; a failed send does not give back the last reference.
\<close>

definition sample_threads :: "nat \<Rightarrow> server_thread" where
  "sample_threads i = ([LogicThread 0, ReleaseThread 0, LogicThread 1, ReleaseThread 1, AcceptThread,
      TickerThread, LoggerThread] @ replicate i IoThread) ! i"

definition sample_hooks :: hooks where
  "sample_hooks = \<lparr>created_hooks = {[], SendMessage_locks 7}, destroyed_hooks = {[], UnregisterTimerEvent_locks},
     session_hooks = {ProcessMessage_locks 7 [DoSend_locks 0 (PostFailed None), SendMessage_locks 8]},
     actor_hooks = {[], RegisterTimerEvent_locks}, fire_hooks = {SendMessage_locks 9, UnregisterTimerEvent_locks}\<rparr>"

lemma sample_hooks_ordered: "hooks_ordered sample_hooks"
proof -
  have "nested_above 2 (DoSend_locks 0 (PostFailed None))"
    by (simp add: DoSend_locks_def post_locks_def DecreaseIOCount_locks_def nested_leaf_locks)
  then have "nested_above 2 (ProcessMessage_locks 7 [DoSend_locks 0 (PostFailed None), SendMessage_locks 8])"
    by (intro nested_ProcessMessage) (auto simp: nested_leaf_locks)
  then show ?thesis by (simp add: hooks_ordered_def sample_hooks_def nested_leaf_locks)
qed

definition after_lock :: lock_sys where
  "after_lock = two 0 1 (drop 1 (logic_turn_locks 0 [([], [])])) []
     ((\<lambda>_. [])(SessionMapLock 0 := [(0, SharedMode)]))"

lemma reach_after_lock: "reach lock_init (lock_step sample_hooks sample_threads) after_lock"
proof -
  let ?p = "logic_turn_locks 0 [([], [])]"
  have p: "?p = [Acquire SharedMode (SessionMapLock 0)] @ drop 1 ?p"
    by (simp add: logic_turn_locks_def wake_locks_def guarded_def)
  have "lock_step sample_hooks sample_threads (two 0 1 [] [] (\<lambda>_. [])) (two 0 1 ?p [] (\<lambda>_. []))"
    by (rule two_begin) (auto simp: sample_threads_def)
  with reach_init [of lock_init _ "lock_step sample_hooks sample_threads", OF two_init [of 0 1]]
  have "reach lock_init (lock_step sample_hooks sample_threads) (two 0 1 ?p [] (\<lambda>_. []))"
    by (rule reach_step)
  then have "reach lock_init (lock_step sample_hooks sample_threads)
      (two 0 1 ([Acquire SharedMode (SessionMapLock 0)] @ drop 1 ?p) [] (\<lambda>_. []))"
    by (simp only: p [symmetric])
  moreover have "(lock_step sample_hooks sample_threads)\<^sup>*\<^sup>*
      (two 0 1 ([Acquire SharedMode (SessionMapLock 0)] @ drop 1 ?p) [] (\<lambda>_. [])) after_lock"
    unfolding after_lock_def by (rule alone_runs) (simp_all add: can_acquire_def)
  ultimately show ?thesis by (rule reach_rtranclp)
qed

theorem server_locks_deadlock_free_witness:
  "\<not> deadlocked after_lock {0, 1} \<and> (\<exists>j. ready after_lock j) \<and> exclusive after_lock"
proof -
  have "remaining after_lock 0 \<noteq> []"
    by (simp add: after_lock_def two_def logic_turn_locks_def wake_locks_def guarded_def)
  then show ?thesis
    using server_locks_deadlock_free [OF sample_hooks_ordered reach_after_lock, of "{0, 1}" 0] by blast
qed

definition releasing_hooks :: hooks where
  "releasing_hooks = \<lparr>created_hooks = {[]}, destroyed_hooks = {[]},
     session_hooks = {releasing_hook 7 0}, actor_hooks = {}, fire_hooks = {}\<rparr>"

theorem release_in_timer_deadlocks_witness:
  "\<exists>s. reach lock_init (lock_step releasing_hooks sample_threads) s \<and>
    (\<lambda>s'. (deadlocked s' {0, 1}, remaining s' 0, remaining s' 1)) `
        {s'. (lock_step releasing_hooks sample_threads)\<^sup>*\<^sup>* s s'} =
      {(True, logic_rest 0, release_rest 0)}"
  by (rule release_in_timer_deadlocks [where a = 7])
     (simp_all add: sample_threads_def releasing_hooks_def)

end
