(* ===== verification/ServerBoot.thy ===== *)
theory ServerBoot
  imports Prelude
begin

text \<open>
  Starting and stopping \<open>ServerCore\<close> (\<open>ServerCore.cpp\<close>: \<open>StartServer\<close>, \<open>OptionParsing\<close>,
  \<open>InitNetwork\<close>, \<open>InitThreads\<close>, \<open>SetSessionFactory\<close>, \<open>StopServer\<close>) and the threads it runs, as far as their
  starting and ending goes.

  The functions of the main thread return what they do as a list of actions. The actions then run one
  at a time, interleaved with the steps of the threads already started. The results of the calls of the
  operating system are arguments; the option parser (a class of a git submodule) is a pair of functions.
\<close>

section \<open>Options\<close>

record server_config =
  port :: u16
  numOfWorkerThread :: u8
  numOfUsingWorkerThread :: u8
  numOfLogicThread :: u8
  headerCode :: u8
  xorCode :: u8

record option_parser =
  GetValue_Short :: "u16 list \<Rightarrow> string \<Rightarrow> string \<Rightarrow> u16 option"
  GetValue_Byte :: "u16 list \<Rightarrow> string \<Rightarrow> string \<Rightarrow> u8 option"

text \<open>One \<open>if (not GetValue...) return false;\<close>: later options are not read after a failure.\<close>

definition read_option ::
  "'v option \<Rightarrow> ('v \<Rightarrow> server_config \<Rightarrow> server_config) \<Rightarrow> bool \<times> server_config \<Rightarrow> bool \<times> server_config" where
  "read_option r store st =
     (if fst st then (case r of None \<Rightarrow> (False, snd st) | Some v \<Rightarrow> (True, store v (snd st))) else st)"

text \<open>The file is \<open>None\<close> when it cannot be opened; at most \<open>BUFFER_MAX / 2\<close> characters are read.\<close>

definition OptionParsing ::
  "nat \<Rightarrow> option_parser \<Rightarrow> u16 list option \<Rightarrow> server_config \<Rightarrow> bool \<times> server_config" where
  "OptionParsing BUFFER_MAX P optionFile cfg =
     (case optionFile of
        None \<Rightarrow> (False, cfg)
      | Some file \<Rightarrow>
          (let buff = take (BUFFER_MAX div 2) file @ [0];
               s1 = read_option (GetValue_Short P buff ''SERVER'' ''BIND_PORT'') (\<lambda>v c. c\<lparr>port := v\<rparr>) (True, cfg);
               s2 = read_option (GetValue_Byte P buff ''SERVER'' ''WORKER_THREAD'') (\<lambda>v c. c\<lparr>numOfWorkerThread := v\<rparr>) s1;
               s3 = read_option (GetValue_Byte P buff ''SERVER'' ''USING_WORKER_THREAD'')
                      (\<lambda>v c. c\<lparr>numOfUsingWorkerThread := v\<rparr>) s2;
               s4 = read_option (GetValue_Byte P buff ''SERVER'' ''LOGIC_THREAD'') (\<lambda>v c. c\<lparr>numOfLogicThread := v\<rparr>) s3;
               s5 = read_option (GetValue_Byte P buff ''SERIALIZEBUF'' ''PACKET_CODE'') (\<lambda>v c. c\<lparr>headerCode := v\<rparr>) s4
           in read_option (GetValue_Byte P buff ''SERIALIZEBUF'' ''PACKET_KEY'') (\<lambda>v c. c\<lparr>xorCode := v\<rparr>) s5))"

section \<open>Start and stop\<close>

datatype boot_action =
    WsaStartup
  | OpenSocket
  | BindPort u16
  | Listen
  | StartAccept
  | CreateEvents
  | StartTicker nat
  | StartIo nat
  | GrowMaps
  | StartRelease nat
  | GrowReleaseQueue
  | StartLogic nat
  | SetFactory
  | CreatePort u64
  | CloseListen
  | JoinAccept
  | PostClose
  | JoinIo nat
  | SetStopEvent
  | JoinLogic nat
  | JoinRelease nat
  | ClosePort
  | WsaCleanup

record os_results =
  WSAStartup_ok :: bool
  socket_ok :: bool
  bind_ok :: bool
  listen_ok :: bool
  iocp_result :: u64

definition INVALID_HANDLE_VALUE :: u64 where
  "INVALID_HANDLE_VALUE = - 1"

definition InitNetwork :: "os_results \<Rightarrow> server_config \<Rightarrow> bool \<times> boot_action list" where
  "InitNetwork os cfg =
     (if \<not> WSAStartup_ok os then (False, [WsaStartup])
      else if \<not> socket_ok os then (False, [WsaStartup, OpenSocket])
      else if \<not> bind_ok os then (False, [WsaStartup, OpenSocket, BindPort (port cfg)])
      else (listen_ok os, [WsaStartup, OpenSocket, BindPort (port cfg), Listen]))"

definition InitThreads :: "server_config \<Rightarrow> bool \<times> boot_action list" where
  "InitThreads cfg =
     (True, [StartAccept, CreateEvents, StartTicker 100] @
        map StartIo [0..<unat (numOfWorkerThread cfg)] @
        concat (map (\<lambda>i. [GrowMaps, StartRelease i, GrowReleaseQueue, StartLogic i])
                  [0..<unat (numOfLogicThread cfg)]))"

definition SetSessionFactory :: "bool \<Rightarrow> bool \<times> boot_action list" where
  "SetSessionFactory given = (if \<not> given then (False, []) else (True, [SetFactory]))"

definition StartServer ::
  "nat \<Rightarrow> option_parser \<Rightarrow> u16 list option \<Rightarrow> os_results \<Rightarrow> bool \<Rightarrow> server_config
     \<Rightarrow> bool \<times> boot_action list \<times> server_config" where
  "StartServer BUFFER_MAX P optionFile os factory cfg =
     (let (parsed, c) = OptionParsing BUFFER_MAX P optionFile cfg in
      if \<not> parsed then (False, [], c)
      else let (netOk, as1) = InitNetwork os c in
      if \<not> netOk then (False, as1, c)
      else let (threadsOk, as2) = InitThreads c in
      if \<not> threadsOk then (False, as1 @ as2, c)
      else let (factoryOk, as3) = SetSessionFactory factory in
      if \<not> factoryOk then (False, as1 @ as2 @ as3, c)
      else if iocp_result os = INVALID_HANDLE_VALUE
      then (False, as1 @ as2 @ as3 @ [CreatePort (iocp_result os)], c)
      else (True, as1 @ as2 @ as3 @ [CreatePort (iocp_result os)], c))"

definition StopServer :: "server_config \<Rightarrow> boot_action list" where
  "StopServer cfg =
     [CloseListen, JoinAccept] @
     concat (map (\<lambda>i. [PostClose, JoinIo i]) [0..<unat (numOfWorkerThread cfg)]) @
     [SetStopEvent] @
     concat (map (\<lambda>i. [JoinLogic i, JoinRelease i]) [0..<unat (numOfLogicThread cfg)]) @
     [ClosePort, WsaCleanup]"

section \<open>The threads\<close>

datatype thread_state = NotStarted | Running | Exited | Joined

record process =
  todo :: "boot_action list"
  accept_th :: thread_state
  io_th :: "nat \<Rightarrow> thread_state"
  logic_th :: "nat \<Rightarrow> thread_state"
  release_th :: "nat \<Rightarrow> thread_state"
  listening :: bool
  port_open :: bool
  null_completions :: nat
  factory_set :: bool
  stop_event :: bool
  isStop :: bool
  terminated :: bool

text \<open>
  An action of the main thread; a \<open>join\<close> is possible once the thread has returned. A completion posted
  by \<open>StopServer\<close> has no \<open>OVERLAPPED\<close>; the others (of sockets) keep an IO thread in its loop, so only the number
  of the former matters here.
\<close>

definition is_port :: "u64 \<Rightarrow> bool" where
  "is_port h \<longleftrightarrow> h \<noteq> 0 \<and> h \<noteq> INVALID_HANDLE_VALUE"

fun joinable :: "boot_action \<Rightarrow> process \<Rightarrow> bool" where
  "joinable JoinAccept s = (accept_th s = Exited)"
| "joinable (JoinIo i) s = (io_th s i = Exited)"
| "joinable (JoinLogic i) s = (logic_th s i = Exited)"
| "joinable (JoinRelease i) s = (release_th s i = Exited)"
| "joinable _ s = True"

fun do_action :: "boot_action \<Rightarrow> process \<Rightarrow> process" where
  "do_action Listen s = s\<lparr>listening := True\<rparr>"
| "do_action StartAccept s = s\<lparr>accept_th := Running\<rparr>"
| "do_action (StartIo i) s = s\<lparr>io_th := (io_th s)(i := Running)\<rparr>"
| "do_action (StartRelease i) s = s\<lparr>release_th := (release_th s)(i := Running)\<rparr>"
| "do_action (StartLogic i) s = s\<lparr>logic_th := (logic_th s)(i := Running)\<rparr>"
| "do_action SetFactory s = s\<lparr>factory_set := True\<rparr>"
| "do_action (CreatePort h) s = s\<lparr>port_open := is_port h\<rparr>"
| "do_action CloseListen s = s\<lparr>listening := False\<rparr>"
| "do_action JoinAccept s = s\<lparr>accept_th := Joined\<rparr>"
| "do_action PostClose s = s\<lparr>null_completions := null_completions s + (if port_open s then 1 else 0)\<rparr>"
| "do_action (JoinIo i) s = s\<lparr>io_th := (io_th s)(i := Joined)\<rparr>"
| "do_action SetStopEvent s = s\<lparr>stop_event := True\<rparr>"
| "do_action (JoinLogic i) s = s\<lparr>logic_th := (logic_th s)(i := Joined)\<rparr>"
| "do_action (JoinRelease i) s = s\<lparr>release_th := (release_th s)(i := Joined)\<rparr>"
| "do_action ClosePort s = s\<lparr>port_open := False\<rparr>"
| "do_action _ s = s"

text \<open>
  The steps. The accept thread leaves its loop when the listening socket is closed; accepting a client
  before the session factory is set throws out of the thread function, which ends the process. An IO thread
  leaves its loop when \<open>GetQueuedCompletionStatus\<close> gives no \<open>OVERLAPPED\<close>: without a port, or for a
  completion that has none. The logic and release threads leave theirs when \<open>isStop\<close> is set.
\<close>

inductive proc_step :: "process \<Rightarrow> process \<Rightarrow> bool" where
  main: "\<not> terminated s \<Longrightarrow> todo s = a # rest \<Longrightarrow> joinable a s \<Longrightarrow>
     proc_step s ((do_action a s)\<lparr>todo := rest\<rparr>)"
| accept_early: "\<not> terminated s \<Longrightarrow> accept_th s = Running \<Longrightarrow> listening s \<Longrightarrow> \<not> factory_set s \<Longrightarrow>
     proc_step s (s\<lparr>terminated := True\<rparr>)"
| accept_ends: "\<not> terminated s \<Longrightarrow> accept_th s = Running \<Longrightarrow> isStop s \<or> \<not> listening s \<Longrightarrow>
     proc_step s (s\<lparr>accept_th := Exited\<rparr>)"
| io_no_port: "\<not> terminated s \<Longrightarrow> io_th s i = Running \<Longrightarrow> \<not> port_open s \<Longrightarrow>
     proc_step s (s\<lparr>io_th := (io_th s)(i := Exited)\<rparr>)"
| io_closed: "\<not> terminated s \<Longrightarrow> io_th s i = Running \<Longrightarrow> port_open s \<Longrightarrow> null_completions s = Suc n \<Longrightarrow>
     proc_step s (s\<lparr>io_th := (io_th s)(i := Exited), null_completions := n\<rparr>)"
| io_ends: "\<not> terminated s \<Longrightarrow> io_th s i = Running \<Longrightarrow> isStop s \<Longrightarrow>
     proc_step s (s\<lparr>io_th := (io_th s)(i := Exited)\<rparr>)"
| logic_ends: "\<not> terminated s \<Longrightarrow> logic_th s i = Running \<Longrightarrow> isStop s \<Longrightarrow>
     proc_step s (s\<lparr>logic_th := (logic_th s)(i := Exited)\<rparr>)"
| release_ends: "\<not> terminated s \<Longrightarrow> release_th s i = Running \<Longrightarrow> isStop s \<Longrightarrow>
     proc_step s (s\<lparr>release_th := (release_th s)(i := Exited)\<rparr>)"

definition process0 :: "boot_action list \<Rightarrow> process" where
  "process0 prog = \<lparr>todo = prog, accept_th = NotStarted, io_th = (\<lambda>_. NotStarted),
     logic_th = (\<lambda>_. NotStarted), release_th = (\<lambda>_. NotStarted), listening = False, port_open = False,
     null_completions = 0, factory_set = False, stop_event = False, isStop = False, terminated = False\<rparr>"

section \<open>Facts\<close>

text \<open>The actions of a successful start, and the state they lead to.\<close>

lemma StartServer_actions:
  assumes "StartServer B P f os given cfg = (True, acts, c)"
  shows "acts = [WsaStartup, OpenSocket, BindPort (port c), Listen] @ snd (InitThreads c) @
      [SetFactory] @ [CreatePort (iocp_result os)]"
    and "iocp_result os \<noteq> INVALID_HANDLE_VALUE"
  using assms
  by (auto simp: StartServer_def InitNetwork_def SetSessionFactory_def InitThreads_def Let_def
      split: prod.splits if_splits)

lemma fold_StartIo:
  "fold do_action (map StartIo [0..<n]) s = s\<lparr>io_th := (\<lambda>i. if i < n then Running else io_th s i)\<rparr>"
  by (induction n) (auto simp: fun_eq_iff)

lemma fold_StartLogic:
  "fold do_action (concat (map (\<lambda>i. [GrowMaps, StartRelease i, GrowReleaseQueue, StartLogic i]) [0..<n])) s =
     s\<lparr>release_th := (\<lambda>i. if i < n then Running else release_th s i),
       logic_th := (\<lambda>i. if i < n then Running else logic_th s i)\<rparr>"
  by (induction n) (auto simp: fun_eq_iff)

lemma fold_InitThreads:
  "fold do_action (snd (InitThreads c)) s =
     s\<lparr>accept_th := Running,
       io_th := (\<lambda>i. if i < unat (numOfWorkerThread c) then Running else io_th s i),
       release_th := (\<lambda>i. if i < unat (numOfLogicThread c) then Running else release_th s i),
       logic_th := (\<lambda>i. if i < unat (numOfLogicThread c) then Running else logic_th s i)\<rparr>"
  by (simp add: InitThreads_def fold_StartIo fold_StartLogic cong: if_cong)

text \<open>
  When \<open>StartServer\<close> returns true, the accept thread, exactly \<open>numOfWorkerThread\<close> IO threads and
  exactly \<open>numOfLogicThread\<close> logic and release threads have been started, the server listens and
  the session factory is set. There is a completion port only if \<open>CreateIoCompletionPort\<close> did not return
  \<open>NULL\<close>, which is what it returns on failure; the test against \<open>INVALID_HANDLE_VALUE\<close> lets that pass.
\<close>

theorem StartServer_starts:
  assumes "StartServer B P f os given cfg = (True, acts, c)"
  shows "let s = fold do_action acts (process0 prog) in
     accept_th s = Running \<and> listening s \<and> factory_set s \<and>
     (\<forall>i. io_th s i = (if i < unat (numOfWorkerThread c) then Running else NotStarted)) \<and>
     (\<forall>i. logic_th s i = (if i < unat (numOfLogicThread c) then Running else NotStarted)) \<and>
     (\<forall>i. release_th s i = (if i < unat (numOfLogicThread c) then Running else NotStarted)) \<and>
     (port_open s \<longleftrightarrow> iocp_result os \<noteq> 0)"
  using StartServer_actions [OF assms]
  by (simp add: fold_InitThreads process0_def is_port_def Let_def)

text \<open>A configuration file whose every byte option is 2, and a system on which every call succeeds.\<close>

definition parser2 :: option_parser where
  "parser2 = \<lparr>GetValue_Short = (\<lambda>_ _ _. Some 6000), GetValue_Byte = (\<lambda>_ _ _. Some 2)\<rparr>"

definition config2 :: server_config where
  "config2 = \<lparr>port = 6000, numOfWorkerThread = 2, numOfUsingWorkerThread = 2, numOfLogicThread = 2,
     headerCode = 2, xorCode = 2\<rparr>"

definition os_ok :: os_results where
  "os_ok = \<lparr>WSAStartup_ok = True, socket_ok = True, bind_ok = True, listen_ok = True, iocp_result = 64\<rparr>"

definition start2 :: "boot_action list" where
  "start2 = [WsaStartup, OpenSocket, BindPort 6000, Listen] @ snd (InitThreads config2) @
     [SetFactory, CreatePort 64]"

lemma StartServer_start2:
  "StartServer 1024 parser2 (Some []) os_ok True (config2\<lparr>port := 0\<rparr>) = (True, start2, config2)"
  by (simp add: StartServer_def OptionParsing_def read_option_def parser2_def config2_def os_ok_def
      start2_def InitNetwork_def SetSessionFactory_def InitThreads_def INVALID_HANDLE_VALUE_def)

theorem StartServer_starts_witness:
  "io_th (fold do_action start2 (process0 [])) 1 = Running \<and>
   io_th (fold do_action start2 (process0 [])) 2 = NotStarted \<and>
   port_open (fold do_action start2 (process0 []))"
  using StartServer_starts [OF StartServer_start2, of "[]"] by (simp add: Let_def config2_def os_ok_def)

section \<open>Stopping\<close>

text \<open>
  Nothing sets \<open>isStop\<close>, so no logic or release thread ever ends.
\<close>

definition never_ends :: "process \<Rightarrow> bool" where
  "never_ends s \<longleftrightarrow> \<not> isStop s \<and> (\<forall>i. logic_th s i \<noteq> Exited) \<and> (\<forall>i. release_th s i \<noteq> Exited)"

lemma do_action_fields:
  "isStop (do_action a s) = isStop s" "terminated (do_action a s) = terminated s"
  "todo (do_action a s) = todo s"
  by (cases a; simp)+

lemma do_action_never_ends: "never_ends s \<Longrightarrow> joinable a s \<Longrightarrow> never_ends (do_action a s)"
  by (cases a) (auto simp: never_ends_def)

lemma never_ends_todo [simp]: "never_ends (s\<lparr>todo := as\<rparr>) = never_ends s"
  by (simp add: never_ends_def)

lemma proc_step_never_ends: "proc_step s t \<Longrightarrow> never_ends s \<Longrightarrow> never_ends t"
proof (induction rule: proc_step.induct)
  case (main s a rest)
  then show ?case by (simp add: do_action_never_ends)
qed (auto simp: never_ends_def)

text \<open>So the join of a logic thread stays in the rest of the main thread's program.\<close>

definition join_pending :: "nat \<Rightarrow> process \<Rightarrow> bool" where
  "join_pending i s \<longleftrightarrow> never_ends s \<and> JoinLogic i \<in> set (todo s)"

lemma proc_step_join_pending: "proc_step s t \<Longrightarrow> join_pending i s \<Longrightarrow> join_pending i t"
proof -
  assume st: "proc_step s t" and jp: "join_pending i s"
  then have ne: "never_ends s" and l: "logic_th s i \<noteq> Exited"
    by (auto simp: join_pending_def never_ends_def dest: spec [of _ i])
  from st jp l have "JoinLogic i \<in> set (todo t)"
    by (induction rule: proc_step.induct) (auto simp: join_pending_def)
  then show ?thesis using proc_step_never_ends [OF st ne] by (simp add: join_pending_def)
qed

lemma process0_join_pending:
  assumes "numOfLogicThread c \<noteq> 0"
  shows "join_pending 0 (process0 (acts @ StopServer c))"
proof -
  have "0 < unat (numOfLogicThread c)" using assms by (simp add: unat_gt_0)
  then show ?thesis by (auto simp: join_pending_def never_ends_def process0_def StopServer_def)
qed

interpretation proc: inductive_invariant "\<lambda>s. s = process0 prog \<and> join_pending i s" proc_step "join_pending i"
  for prog i
  by unfold_locales (auto intro: proc_step_join_pending)

text \<open>
  C21. \<open>StopServer\<close> never returns. However the process runs after \<open>StartServer\<close> has succeeded with at
  least one logic thread, the join of the first logic thread is still to be done, so the completion port is
  never closed and \<open>WSACleanup\<close> never called: no code sets \<open>isStop\<close>.
\<close>

theorem StopServer_never_returns:
  assumes "StartServer B P f os given cfg = (True, acts, c)" and "numOfLogicThread c \<noteq> 0"
    and "reach (\<lambda>s. s = process0 (acts @ StopServer c)) proc_step s"
  shows "JoinLogic 0 \<in> set (todo s) \<and> \<not> isStop s \<and> (\<forall>i. logic_th s i \<noteq> Exited)"
proof -
  have "reach (\<lambda>s. s = process0 (acts @ StopServer c) \<and> join_pending 0 s) proc_step s"
    using assms(3) by (induction rule: reach.induct)
      (auto intro: reach.intros process0_join_pending [OF assms(2)])
  then have "join_pending 0 s" by (rule proc.reach_inv)
  then show ?thesis by (auto simp: join_pending_def never_ends_def)
qed

section \<open>Runs of the process\<close>

text \<open>Actions that are not joins run without waiting.\<close>

fun waits :: "boot_action \<Rightarrow> bool" where
  "waits JoinAccept = True"
| "waits (JoinIo i) = True"
| "waits (JoinLogic i) = True"
| "waits (JoinRelease i) = True"
| "waits _ = False"

lemma not_waits_joinable: "\<not> waits a \<Longrightarrow> joinable a s"
  by (cases a) auto

lemma do_action_todo: "do_action a (s\<lparr>todo := as\<rparr>) = (do_action a s)\<lparr>todo := as\<rparr>"
  by (cases a) (cases s, simp)+

lemma run_actions:
  assumes "\<forall>a \<in> set as. \<not> waits a" and "todo s = as @ rest" and "\<not> terminated s"
  shows "proc_step\<^sup>*\<^sup>* s ((fold do_action as s)\<lparr>todo := rest\<rparr>)"
  using assms
proof (induction as arbitrary: s)
  case Nil
  then have "s\<lparr>todo := rest\<rparr> = s" by (cases s) simp
  then show ?case by simp
next
  case (Cons a as)
  let ?s = "(do_action a s)\<lparr>todo := as @ rest\<rparr>"
  have "proc_step s ?s" using Cons.prems by (auto intro!: main not_waits_joinable)
  moreover have "proc_step\<^sup>*\<^sup>* ?s ((fold do_action as ?s)\<lparr>todo := rest\<rparr>)"
    using Cons.prems by (intro Cons.IH) (auto simp: do_action_fields)
  moreover have "(fold do_action as ?s)\<lparr>todo := rest\<rparr> = (fold do_action as (do_action a s))\<lparr>todo := rest\<rparr>"
  proof -
    have "fold do_action as (u\<lparr>todo := q\<rparr>) = (fold do_action as u)\<lparr>todo := q\<rparr>" for u q
      by (induction as arbitrary: u) (simp_all add: do_action_todo)
    then show ?thesis by simp
  qed
  ultimately show ?case by simp
qed

lemma InitThreads_no_wait: "\<forall>a \<in> set (snd (InitThreads c)). \<not> waits a"
  by (auto simp: InitThreads_def)

text \<open>Without a completion port every IO thread may leave its loop.\<close>

lemma io_threads_leave:
  assumes "\<not> terminated s" and "\<not> port_open s" and "\<forall>i. io_th s i \<in> {NotStarted, Running}"
  shows "proc_step\<^sup>*\<^sup>* s (s\<lparr>io_th := (\<lambda>i. if i < n \<and> io_th s i = Running then Exited else io_th s i)\<rparr>)"
    (is "proc_step\<^sup>*\<^sup>* s (?f n)")
proof (induction n)
  case 0
  then show ?case by simp
next
  case (Suc n)
  show ?case
  proof (cases "io_th s n = Running")
    case True
    have "proc_step (?f n) ((?f n)\<lparr>io_th := (io_th (?f n))(n := Exited)\<rparr>)"
      using assms True by (intro io_no_port) auto
    moreover have "(?f n)\<lparr>io_th := (io_th (?f n))(n := Exited)\<rparr> = ?f (Suc n)"
      using True by (auto simp: fun_eq_iff less_Suc_eq)
    ultimately have "proc_step (?f n) (?f (Suc n))" by (simp only:)
    then show ?thesis by (rule rtranclp.rtrancl_into_rtrancl [OF Suc])
  next
    case False
    then have "?f (Suc n) = ?f n"
      by (intro arg_cong [where f = "\<lambda>h. s\<lparr>io_th := h\<rparr>"]) (auto simp: fun_eq_iff less_Suc_eq)
    with Suc show ?thesis by simp
  qed
qed

text \<open>
  The server may be left without IO threads. \<open>InitThreads\<close> starts them before \<open>StartServer\<close> creates the
  completion port: there is a run in which \<open>StartServer\<close> returns true, the port exists and the process
  has not ended, and every IO thread has already left its loop.
\<close>

theorem io_threads_may_die_at_start:
  assumes "StartServer B P f os given cfg = (True, acts, c)" and "iocp_result os \<noteq> 0"
  shows "\<exists>s. reach (\<lambda>s. s = process0 (acts @ StopServer c)) proc_step s \<and> todo s = StopServer c \<and>
     port_open s \<and> \<not> terminated s \<and> (\<forall>i < unat (numOfWorkerThread c). io_th s i = Exited)"
proof -
  let ?W = "unat (numOfWorkerThread c)" and ?port = "[CreatePort (iocp_result os)]"
  define as where "as = [WsaStartup, OpenSocket, BindPort (port c), Listen] @ snd (InitThreads c) @ [SetFactory]"
  have acts: "acts = as @ ?port" using StartServer_actions(1) [OF assms(1)] by (simp add: as_def)
  have port: "is_port (iocp_result os)"
    using StartServer_actions(2) [OF assms(1)] assms(2) by (simp add: is_port_def)
  let ?s0 = "process0 (acts @ StopServer c)"
  define s1 where "s1 = (fold do_action as ?s0)\<lparr>todo := ?port @ StopServer c\<rparr>"
  define s2 where "s2 = s1\<lparr>io_th := (\<lambda>i. if i < ?W \<and> io_th s1 i = Running then Exited else io_th s1 i)\<rparr>"
  define s3 where "s3 = (fold do_action ?port s2)\<lparr>todo := StopServer c\<rparr>"
  have s1: "\<not> terminated s1" "\<not> port_open s1" "\<forall>i. io_th s1 i = (if i < ?W then Running else NotStarted)"
    "todo s1 = ?port @ StopServer c"
    by (simp_all add: s1_def as_def fold_InitThreads process0_def)
  have "proc_step\<^sup>*\<^sup>* ?s0 s1" unfolding s1_def
    using InitThreads_no_wait by (intro run_actions) (auto simp: as_def process0_def acts)
  also have "proc_step\<^sup>*\<^sup>* s1 s2" unfolding s2_def using s1 by (intro io_threads_leave) auto
  also have "proc_step\<^sup>*\<^sup>* s2 s3" unfolding s3_def
    using s1 by (intro run_actions) (auto simp: s2_def)
  finally have "reach (\<lambda>s. s = ?s0) proc_step s3" by (rule reach_from)
  moreover have "todo s3 = StopServer c" "port_open s3" "\<not> terminated s3" "\<forall>i < ?W. io_th s3 i = Exited"
    using s1 port by (simp_all add: s3_def s2_def)
  ultimately show ?thesis by blast
qed

theorem io_threads_may_die_at_start_witness:
  "\<exists>s. reach (\<lambda>s. s = process0 (start2 @ StopServer config2)) proc_step s \<and> port_open s \<and>
     io_th s 0 = Exited \<and> io_th s 1 = Exited"
proof -
  have "unat (numOfWorkerThread config2) = 2" "iocp_result os_ok \<noteq> 0"
    by (simp_all add: config2_def os_ok_def)
  with io_threads_may_die_at_start [OF StartServer_start2] show ?thesis by force
qed

text \<open>
  The close of a single worker thread reaches it; with two, the completion meant to wake every worker in turn
  wakes one, which ends without passing it on: the test for a missing \<open>OVERLAPPED\<close> comes before
  the test for the close key, where it would be posted again.
\<close>

definition io_stuck :: "nat \<Rightarrow> process \<Rightarrow> bool" where
  "io_stuck i s \<longleftrightarrow> (\<exists>rest. todo s = JoinIo i # rest) \<and> io_th s i = Running \<and> port_open s \<and>
     null_completions s = 0 \<and> \<not> isStop s"

lemma proc_step_stuck: "proc_step s t \<Longrightarrow> io_stuck i s \<Longrightarrow> io_stuck i t \<and> todo t = todo s"
  by (induction rule: proc_step.induct) (auto simp: io_stuck_def)

lemma proc_steps_stuck: "proc_step\<^sup>*\<^sup>* s t \<Longrightarrow> io_stuck i s \<Longrightarrow> io_stuck i t \<and> todo t = todo s"
  by (induction rule: rtranclp_induct) (auto dest: proc_step_stuck)

lemma StopServer_two_workers:
  assumes "2 \<le> unat (numOfWorkerThread c)"
  shows "\<exists>rest. StopServer c = CloseListen # JoinAccept # PostClose # JoinIo 0 # rest"
  using assms by (simp add: StopServer_def upt_rec [of 0])

text \<open>
  \<open>StopServer\<close> can wait for ever for an IO thread. With two or more worker threads there is a run in
  which the first close completion ends worker 1 while \<open>StopServer\<close> joins worker 0, and whatever happens then
  the main thread stays at that join.
\<close>

theorem StopServer_io_join_can_hang:
  assumes "StartServer B P f os given cfg = (True, acts, c)" and "iocp_result os \<noteq> 0"
    and "2 \<le> unat (numOfWorkerThread c)"
  shows "\<exists>s rest. reach (\<lambda>s. s = process0 (acts @ StopServer c)) proc_step s \<and> todo s = JoinIo 0 # rest \<and>
     io_th s 0 = Running \<and> io_th s 1 = Exited \<and> (\<forall>t. proc_step\<^sup>*\<^sup>* s t \<longrightarrow> todo t = todo s)"
proof -
  note acts = StartServer_actions(1) [OF assms(1)]
  have port: "is_port (iocp_result os)"
    using StartServer_actions(2) [OF assms(1)] assms(2) by (simp add: is_port_def)
  obtain rest where stop: "StopServer c = CloseListen # JoinAccept # PostClose # JoinIo 0 # rest"
    using StopServer_two_workers [OF assms(3)] by blast
  let ?s0 = "process0 (acts @ StopServer c)"
  define s1 where "s1 = (fold do_action (acts @ [CloseListen]) ?s0)\<lparr>todo := JoinAccept # PostClose # JoinIo 0 # rest\<rparr>"
  define s2 where "s2 = s1\<lparr>accept_th := Exited\<rparr>"
  define s3 where "s3 = (do_action JoinAccept s2)\<lparr>todo := PostClose # JoinIo 0 # rest\<rparr>"
  define s4 where "s4 = (do_action PostClose s3)\<lparr>todo := JoinIo 0 # rest\<rparr>"
  define s5 where "s5 = s4\<lparr>io_th := (io_th s4)(1 := Exited), null_completions := 0\<rparr>"
  have s1: "\<not> terminated s1" "port_open s1" "accept_th s1 = Running" "\<not> listening s1" "\<not> isStop s1"
    "todo s1 = JoinAccept # PostClose # JoinIo 0 # rest" "null_completions s1 = 0"
    "io_th s1 0 = Running" "io_th s1 1 = Running"
    using port assms(3) by (simp_all add: s1_def acts fold_InitThreads process0_def)
  have "proc_step\<^sup>*\<^sup>* ?s0 s1" unfolding s1_def
    using InitThreads_no_wait by (intro run_actions) (auto simp: acts process0_def stop)
  also have "proc_step s1 s2" unfolding s2_def using s1 by (intro accept_ends) auto
  also have "proc_step s2 s3" unfolding s3_def using s1 by (intro main) (auto simp: s2_def)
  also have "proc_step s3 s4" unfolding s4_def using s1 by (intro main) (auto simp: s3_def s2_def)
  also have "proc_step s4 s5" unfolding s5_def using s1 by (intro io_closed) (auto simp: s4_def s3_def s2_def)
  finally have "reach (\<lambda>s. s = ?s0) proc_step s5" by (rule reach_from)
  moreover have s5: "io_stuck 0 s5" "todo s5 = JoinIo 0 # rest" "io_th s5 0 = Running" "io_th s5 1 = Exited"
    using s1 by (simp_all add: io_stuck_def s5_def s4_def s3_def s2_def)
  ultimately show ?thesis using proc_steps_stuck [OF _ s5(1)] by blast
qed

theorem StopServer_io_join_can_hang_witness:
  "\<exists>s rest. reach (\<lambda>s. s = process0 (start2 @ StopServer config2)) proc_step s \<and> todo s = JoinIo 0 # rest \<and>
     (\<forall>t. proc_step\<^sup>*\<^sup>* s t \<longrightarrow> todo t = todo s)"
proof -
  have "2 \<le> unat (numOfWorkerThread config2)" "iocp_result os_ok \<noteq> 0"
    by (simp_all add: config2_def os_ok_def)
  from StopServer_io_join_can_hang [OF StartServer_start2 this(2,1)] show ?thesis by blast
qed

theorem StopServer_never_returns_witness:
  "\<exists>s. reach (\<lambda>s. s = process0 (start2 @ StopServer config2)) proc_step s \<and> todo s = StopServer config2 \<and>
     JoinLogic 0 \<in> set (todo s) \<and> logic_th s 0 \<noteq> Exited"
proof -
  let ?init = "\<lambda>s. s = process0 (start2 @ StopServer config2)"
  have "\<forall>a \<in> set start2. \<not> waits a" using InitThreads_no_wait by (auto simp: start2_def)
  then have "proc_step\<^sup>*\<^sup>* (process0 (start2 @ StopServer config2))
      ((fold do_action start2 (process0 (start2 @ StopServer config2)))\<lparr>todo := StopServer config2\<rparr>)"
    by (intro run_actions) (auto simp: process0_def)
  then have r: "reach ?init proc_step
      ((fold do_action start2 (process0 (start2 @ StopServer config2)))\<lparr>todo := StopServer config2\<rparr>)"
    by (rule reach_from)
  have "numOfLogicThread config2 \<noteq> 0" by (simp add: config2_def)
  from StopServer_never_returns [OF StartServer_start2 this r] r show ?thesis by force
qed

text \<open>A client accepted before \<open>StartServer\<close> sets the session factory ends the process.\<close>

lemma early_client_terminates:
  assumes "StartServer B P f os given cfg = (True, acts, c)"
  shows "\<exists>s. reach (\<lambda>s. s = process0 (acts @ StopServer c)) proc_step s \<and> terminated s"
proof -
  let ?as = "[WsaStartup, OpenSocket, BindPort (port c), Listen, StartAccept]"
  let ?s0 = "process0 (acts @ StopServer c)"
  obtain rest where rest: "acts = ?as @ rest"
    using StartServer_actions(1) [OF assms] by (simp add: InitThreads_def)
  let ?s1 = "(fold do_action ?as ?s0)\<lparr>todo := rest @ StopServer c\<rparr>"
  have "proc_step\<^sup>*\<^sup>* ?s0 ?s1" by (intro run_actions) (simp_all add: process0_def rest)
  also have "proc_step ?s1 (?s1\<lparr>terminated := True\<rparr>)" by (intro accept_early) (simp_all add: process0_def)
  finally have "reach (\<lambda>s. s = ?s0) proc_step (?s1\<lparr>terminated := True\<rparr>)" by (rule reach_from)
  then show ?thesis by fastforce
qed

end
