(* ===== verification/NetThreads.thy ===== *)
theory NetThreads
  imports ServerRuns SessionRuns
begin

text \<open>
  The network threads of \<open>ServerCore\<close>: \<open>RunAcceptThread\<close>, \<open>RunIoThread\<close> and \<open>CreateSession\<close>, on the session
  registry of \<open>ServerRegistry\<close> and the sessions of \<open>SessionIO\<close> together.

  A session object at an address has its full state in \<open>sess\<close>; the registry sees its actor part. What a
  session operation asks of the server (a release request, a call of \<open>OnActorDestroyed\<close>) is in the
  session's log, and \<open>store_session\<close> carries the new entries out. The completion keys are cells of a
  memory pool: \<open>keys\<close> maps the addresses of the live ones to their values, and reading a freed one is
  undefined (\<open>None\<close>).
\<close>

section \<open>The world of the network threads\<close>

record ('h, 'b, 'q, 'r) net_world =
  core :: "'h server"
  sess :: "nat \<rightharpoonup> ('h, 'b, 'q, 'r) session"
  keys :: "nat \<rightharpoonup> u64 \<times> u8"
  registered :: "(u64 \<times> nat) list"
  close_posts :: nat

text \<open>The type and the pool's static cell of \<open>IOCP_CLOSE_KEY\<close>.\<close>

type_synonym IOCompletionKeyType = "u64 \<times> u8"

definition IOCP_CLOSE_KEY :: IOCompletionKeyType where
  "IOCP_CLOSE_KEY = (0xffffffffffffffff, - 1)"

fun carry_out :: "nat \<Rightarrow> 'b io_event list \<Rightarrow> 'h server \<Rightarrow> 'h server option" where
  "carry_out p [] srv = Some srv"
| "carry_out p (ReleaseRequested i t # es) srv =
     (case ReleaseSession i t srv of None \<Rightarrow> None | Some srv' \<Rightarrow> carry_out p es srv')"
| "carry_out p (OnActorDestroyedCalled # es) srv = carry_out p es (log_event (ActorDestroyed p) srv)"
| "carry_out p (_ # es) srv = carry_out p es srv"

definition store_session ::
  "nat \<Rightarrow> ('h, 'b, 'q, 'r) session \<Rightarrow> ('h, 'b, 'q, 'r) session \<Rightarrow> ('h, 'b, 'q, 'r) net_world
     \<Rightarrow> ('h, 'b, 'q, 'r) net_world option" where
  "store_session p s s' w =
     (let srv = (core w)\<lparr>objs := (objs (core w))
                  (p \<mapsto> \<lparr>act = actor.truncate s', kind = SessionKind, isTesterActor = False\<rparr>)\<rparr>
      in map_option (\<lambda>c. w\<lparr>core := c, sess := (sess w)(p \<mapsto> s')\<rparr>)
           (carry_out p (drop (length (io_log s)) (io_log s')) srv))"

section \<open>Accepting\<close>

datatype accept_result = Accepted u64 | Interrupted | AcceptFailed

datatype 'w thread_run = Going 'w | Left 'w | Aborted 'w

text \<open>\<open>None\<close> for an empty factory: \<open>std::logic_error\<close>, which leaves the thread function.\<close>

definition CreateSession ::
  "(u64 \<Rightarrow> 'w \<Rightarrow> 'p option \<times> 'w) option \<Rightarrow> u64 \<Rightarrow> 'w \<Rightarrow> ('p option \<times> 'w) option" where
  "CreateSession sessionFactory clientSock w =
     (case sessionFactory of None \<Rightarrow> None | Some factory \<Rightarrow> Some (factory clientSock w))"

text \<open>What the factory gives: an address and a new session object there.\<close>

record ('h, 'b, 'q, 'r) accept_env =
  sessionFactory :: "(u64 \<Rightarrow> ('h, 'b, 'q, 'r) net_world
     \<Rightarrow> (nat \<times> ('h, 'b, 'q, 'r) session) option \<times> ('h, 'b, 'q, 'r) net_world) option"
  ring :: "'r ring_ops"
  on_created :: 'h

record accept_input =
  accepted :: accept_result
  key_cell :: nat
  port_handle :: u64
  recv_result :: io_result

text \<open>The part of the loop after the session is created: address \<open>p\<close>, object \<open>s\<close>.\<close>

definition enter_session ::
  "'r ring_ops \<Rightarrow> 'h \<Rightarrow> accept_input \<Rightarrow> u64 \<Rightarrow> nat \<Rightarrow> ('h, 'b, 'q, 'r) session
     \<Rightarrow> ('h, 'b, 'q, 'r) net_world \<Rightarrow> ('h, 'b, 'q, 'r) net_world option" where
  "enter_session R created inp clientSock p s0 w =
     (let s1 = IncreaseIOCount s0;
          w1 = w\<lparr>keys := (keys w)(key_cell inp \<mapsto> (actorId s1, threadId s1))\<rparr>
      in if port_handle inp = - 1 then store_session p s0 (DecreaseIOCount s1) w1
         else (let s2 = snd (SendMessage_bind created [] s1);
                   w2 = w1\<lparr>registered := registered w1 @ [(clientSock, key_cell inp)]\<rparr>
               in case store_session p s0 s2 w2 of
                    None \<Rightarrow> None
                  | Some w3 \<Rightarrow>
                      (case InsertSession p (core w3) of
                         None \<Rightarrow> None
                       | Some srv \<Rightarrow>
                           (let w4 = w3\<lparr>core := log_event (ActorCreated p) srv\<rparr>;
                                s3 = snd (DoRecv R (recv_result inp) s2)
                            in store_session p s2 (DecreaseIOCount s3) w4))))"

definition accept_iteration ::
  "('h, 'b, 'q, 'r) accept_env \<Rightarrow> accept_input \<Rightarrow> ('h, 'b, 'q, 'r) net_world
     \<Rightarrow> ('h, 'b, 'q, 'r) net_world thread_run option" where
  "accept_iteration E inp w =
     (case accepted inp of
        Interrupted \<Rightarrow> Some (Left w)
      | AcceptFailed \<Rightarrow> Some (Going w)
      | Accepted clientSock \<Rightarrow>
          (case CreateSession (sessionFactory E) clientSock w of
             None \<Rightarrow> Some (Aborted w)
           | Some (None, w1) \<Rightarrow> Some (Going w1)
           | Some (Some (p, s), w1) \<Rightarrow>
               map_option Going (enter_session (ring E) (on_created E) inp clientSock p s w1)))"

fun RunAcceptThread ::
  "('h, 'b, 'q, 'r) accept_env \<Rightarrow> accept_input list \<Rightarrow> ('h, 'b, 'q, 'r) net_world
     \<Rightarrow> ('h, 'b, 'q, 'r) net_world thread_run option" where
  "RunAcceptThread E [] w = Some (Going w)"
| "RunAcceptThread E (i # is) w =
     (if serverIsStop (core w) then Some (Left w)
      else case accept_iteration E i w of
             Some (Going w1) \<Rightarrow> RunAcceptThread E is w1
           | r \<Rightarrow> r)"

section \<open>Completions\<close>

record completion =
  succeeded :: bool
  completion_key :: "nat option"
  overlapped_ptr :: "overlapped option"
  transferred :: int
  next_result :: io_result

text \<open>
  One turn of the loop of \<open>RunIoThread\<close>: the key of the turn before is freed, a completion is taken and
  handled. The result carries the key this turn leaves in \<open>ioCompletionKey\<close>.
\<close>

definition free_key :: "nat option \<Rightarrow> ('h, 'b, 'q, 'r) net_world \<Rightarrow> ('h, 'b, 'q, 'r) net_world" where
  "free_key k w = (case k of None \<Rightarrow> w | Some a \<Rightarrow> w\<lparr>keys := (keys w)(a := None)\<rparr>)"

definition complete_session ::
  "('b, 'y) NetBuffer_io_scheme \<Rightarrow> 'r ring_ops \<Rightarrow> ('b, 'q) lfq \<Rightarrow> completion \<Rightarrow> overlapped \<Rightarrow> nat
     \<Rightarrow> ('h, 'b, 'q, 'r) net_world \<Rightarrow> ('h, 'b, 'q, 'r) net_world option" where
  "complete_session nb R Q c ov p w =
     (case sess w p of
        None \<Rightarrow> None
      | Some s \<Rightarrow>
          (if \<not> succeeded c then store_session p s (DecreaseIOCount s) w
           else case OnIoCompleted nb R Q (next_result c) s ov (transferred c) of
                  None \<Rightarrow> None
                | Some (_, s') \<Rightarrow> store_session p s s' w))"

definition io_iteration ::
  "('b, 'y) NetBuffer_io_scheme \<Rightarrow> 'r ring_ops \<Rightarrow> ('b, 'q) lfq \<Rightarrow> nat option \<Rightarrow> completion
     \<Rightarrow> ('h, 'b, 'q, 'r) net_world \<Rightarrow> (nat option \<times> ('h, 'b, 'q, 'r) net_world) thread_run option" where
  "io_iteration nb R Q old c w0 =
     (let w = free_key old w0; k = completion_key c in
      case overlapped_ptr c of
        None \<Rightarrow> Some (Left (k, w))
      | Some ov \<Rightarrow>
          (case k of
             None \<Rightarrow> Some (Going (k, w))
           | Some a \<Rightarrow>
               (case keys w a of
                  None \<Rightarrow> None
                | Some key \<Rightarrow>
                    (if key = IOCP_CLOSE_KEY then Some (Left (k, w\<lparr>close_posts := close_posts w + 1\<rparr>))
                     else case FindSession (fst key) (snd key) (core w) of
                            None \<Rightarrow> None
                          | Some None \<Rightarrow> Some (Going (k, w))
                          | Some (Some p) \<Rightarrow>
                              map_option (\<lambda>w1. Going (k, w1)) (complete_session nb R Q c ov p w)))))"

fun RunIoThread ::
  "('b, 'y) NetBuffer_io_scheme \<Rightarrow> 'r ring_ops \<Rightarrow> ('b, 'q) lfq \<Rightarrow> nat option \<Rightarrow> completion list
     \<Rightarrow> ('h, 'b, 'q, 'r) net_world \<Rightarrow> (nat option \<times> ('h, 'b, 'q, 'r) net_world) thread_run option" where
  "RunIoThread nb R Q old [] w = Some (Going (old, w))"
| "RunIoThread nb R Q old (c # cs) w =
     (if serverIsStop (core w) then Some (Left (old, w))
      else case io_iteration nb R Q old c w of
             Some (Going (k, w1)) \<Rightarrow> RunIoThread nb R Q k cs w1
           | r \<Rightarrow> r)"

section \<open>Facts\<close>

lemma carry_out_fields:
  "carry_out p es srv = Some srv' \<Longrightarrow>
     sessionMap srv' = sessionMap srv \<and> serverIsStop srv' = serverIsStop srv \<and> numOfUser srv' = numOfUser srv \<and>
     objs srv' = objs srv"
  by (induction p es srv rule: carry_out.induct)
     (auto simp: ReleaseSession_def log_event_def split: option.splits if_splits)

lemma store_session_stop: "store_session p s s' w = Some w' \<Longrightarrow> serverIsStop (core w') = serverIsStop (core w)"
  by (auto simp: store_session_def Let_def dest: carry_out_fields)

lemma io_iteration_going:
  assumes "io_iteration nb R Q old c w = Some (Going (k, w1))"
  shows "k = completion_key c" and "serverIsStop (core w1) = serverIsStop (core w)"
proof -
  have free: "serverIsStop (core (free_key old w)) = serverIsStop (core w)"
    by (simp add: free_key_def split: option.splits)
  have "serverIsStop (core w2) = serverIsStop (core w')"
    if "complete_session nb R Q c ov p w' = Some w2" for ov p w' w2
    using that by (auto simp: complete_session_def dest: store_session_stop split: option.splits if_splits)
  with assms free show "k = completion_key c" "serverIsStop (core w1) = serverIsStop (core w)"
    by (auto simp: io_iteration_def Let_def split: option.splits if_splits)
qed

text \<open>
  C20. The completion key of a session is used after it has been freed. The key is allocated once, when the
  session is accepted, and stays registered with its socket; an IO thread frees it after the first completion
  it handles for the session. The next completion with that key reads a freed cell.
\<close>

theorem completion_key_used_after_free:
  assumes "\<not> serverIsStop (core w)"
    and "io_iteration nb R Q old c1 w = Some (Going (k, w1))" and "completion_key c1 = Some a"
    and "completion_key c2 = Some a" and "overlapped_ptr c2 = Some ov"
  shows "RunIoThread nb R Q old (c1 # c2 # cs) w = None"
  using assms io_iteration_going [OF assms(2)]
  by (simp add: io_iteration_def [of nb R Q "Some a" c2 w1] free_key_def Let_def)

text \<open>A world with one accepted session, whose completion key is at cell 5.\<close>

type_synonym sample_world =
  "(nat, u8 list \<times> nat, (u8 list \<times> nat) list, u8 list \<times> u8 list) net_world"

definition world0 :: sample_world where
  "world0 = \<lparr>core = (server0 1)\<lparr>sessionMap := [[]], releaseThreadsQueue := [[]], releaseEvents := [False]\<rparr>,
     sess = Map.empty, keys = Map.empty, registered = [], close_posts = 0\<rparr>"

definition env0 :: "(nat, u8 list \<times> nat, (u8 list \<times> nat) list, u8 list \<times> u8 list) accept_env" where
  "env0 = \<lparr>sessionFactory = Some (\<lambda>s w. (Some (3, Session_ctor (new_actor 1 0) s [] ([], [])), w)),
     ring = list_ring, on_created = 77\<rparr>"

definition client :: "io_result \<Rightarrow> accept_input" where
  "client r = \<lparr>accepted = Accepted 9, key_cell = 5, port_handle = 64, recv_result = r\<rparr>"

definition world1 :: sample_world where
  "world1 = (case accept_iteration env0 (client IoPending) world0 of Some (Going w) \<Rightarrow> w | _ \<Rightarrow> world0)"

definition closed :: completion where
  "closed = \<lparr>succeeded = True, completion_key = Some 5, overlapped_ptr = Some RecvOverlapped, transferred = 0,
     next_result = IoPending\<rparr>"

lemmas accept_defs = accept_iteration_def CreateSession_def enter_session_def store_session_def
  InsertSession_def in_range_def log_event_def DoRecv_def DecreaseIOCount_def IncreaseIOCount_def log_io_def
  Session_ReleaseSession_def SendMessage_bind_def push_store_def queue_push_def ReleaseSession_def Let_def

lemma world1_eq:
  "\<exists>s. sess world1 3 = Some s \<and> ioCount s = 1 \<and> threadId s = 0 \<and> releaseThreadsQueue (core world1) = [[]] \<and>
     FindSession 1 0 (core world1) = Some (Some 3) \<and>
     keys world1 5 = Some (1, 0) \<and> \<not> serverIsStop (core world1)"
  by (simp add: world1_def accept_defs env0_def world0_def client_def Session_ctor_def new_actor_def
      server0_def list_ring_def actor.defs FindSession_def umap_emplace_def
      umap_find_def)

theorem completion_key_used_after_free_witness:
  "RunIoThread list_io list_ring list_lfq None [closed, closed] world1 = None \<and>
   keys world1 5 \<noteq> None"
proof -
  obtain s where s: "sess world1 3 = Some s" "ioCount s = 1" "FindSession 1 0 (core world1) = Some (Some 3)"
    "keys world1 5 = Some (1, 0)" "\<not> serverIsStop (core world1)" "threadId s = 0"
    "releaseThreadsQueue (core world1) = [[]]" using world1_eq by blast
  have "\<exists>w. io_iteration list_io list_ring list_lfq None closed world1 = Some (Going (Some 5, w))"
    using s by (simp add: io_iteration_def free_key_def closed_def IOCP_CLOSE_KEY_def complete_session_def
        OnIoCompleted_def accept_defs)
  then show ?thesis using s completion_key_used_after_free [OF s(5), of list_io list_ring list_lfq None closed
      "Some 5" _ 5 closed RecvOverlapped "[]"] by (auto simp: closed_def)
qed

section \<open>A session enters the server\<close>

lemma umap_emplace_new: "umap_find m k = None \<Longrightarrow> umap_find (umap_emplace k v m) k = Some v"
  by (simp add: store_simps)

text \<open>
  What accepting a client does. The new session is in the map of its logic thread under its id, the
  user count has grown by one, and the session's completion key is registered with its socket. With the first
  receive posted the session's reference count is 1 and nothing is released; if posting fails, the count
  is 0 and exactly one release request for the session is queued. In both cases \<open>OnActorCreated\<close> has been
  called and is also waiting in the session's mailbox, so that it will run a second time.
\<close>

theorem accept_enters_session:
  assumes "sessionFactory E = Some f" and "f clientSock w = (Some (p, s), w1)"
    and "accepted inp = Accepted clientSock" and "port_handle inp \<noteq> - 1"
    and "ioCount s = 0" and "\<not> ActorCore.isStop s" and "in_range (threadId s) (sessionMap (core w1))"
    and "in_range (threadId s) (releaseThreadsQueue (core w1))"
    and "umap_find (sessionMap (core w1) ! unat (threadId s)) (actorId s) = None"
  shows "\<exists>w' s'. accept_iteration E inp w = Some (Going w') \<and> sess w' p = Some s' \<and>
     FindSession (actorId s) (threadId s) (core w') = Some (Some p) \<and>
     numOfUser (core w') = numOfUser (core w1) + 1 \<and>
     registered w' = registered w1 @ [(clientSock, key_cell inp)] \<and>
     keys w' (key_cell inp) = Some (actorId s, threadId s) \<and>
     storeQueue s' = storeQueue s @ [Bound (on_created E) []] \<and>
     (if recv_result inp = IoFailed
      then ioCount s' = 0 \<and> lifecycle (core w') = lifecycle (core w1) @ [ActorCreated p, ActorDestroyed p] \<and>
        releaseThreadsQueue (core w') ! unat (threadId s) =
          releaseThreadsQueue (core w1) ! unat (threadId s) @ [(actorId s, threadId s)]
      else ioCount s' = 1 \<and> lifecycle (core w') = lifecycle (core w1) @ [ActorCreated p] \<and>
        releaseThreadsQueue (core w') = releaseThreadsQueue (core w1))"
  using assms
  by (cases "recv_result inp") (simp_all add: accept_defs FindSession_def actor.defs umap_emplace_new)

theorem accept_enters_session_witness:
  "\<exists>w' s'. accept_iteration env0 (client IoFailed) world0 = Some (Going w') \<and> sess w' 3 = Some s' \<and>
     ioCount s' = 0 \<and> releaseThreadsQueue (core w') ! 0 = [(1, 0)]"
  using accept_enters_session [of env0 "\<lambda>s w. (Some (3, Session_ctor (new_actor 1 0) s [] ([], [])), w)" 9 world0 3
      "Session_ctor (new_actor 1 0) 9 [] ([], [])" world0 "client IoFailed"]
  by (simp add: env0_def client_def world0_def Session_ctor_def new_actor_def actor.defs in_range_def server0_def)
    metis

end
