(* ===== verification/NetRuns.thy ===== *)
theory NetRuns
  imports NetThreads
begin

text \<open>
  The composition of the network server: the accept thread, the IO threads, the logic threads' use of
  sessions and the release threads, on the registries, the session objects and the release queues
  together. A session does the steps of \<open>SessionRuns\<close>, what it asks of the server is carried out on the
  registry, the release threads call \<open>OnDisconnected\<close> on the session objects. Each operation is one step,
  so the handlers of one session do not overlap; the races inside them are the subject of \<open>SendRaces\<close>,
  \<open>SessionTeardown\<close> and, for a pass of a release thread, \<open>ReleaseThreads\<close>. A completion names its
  session: the step is taken with the ids of any registered session, which covers every turn of
  \<open>RunIoThread\<close> whose key cell is still as \<open>RunAcceptThread\<close> filled it, and the frees of key cells are steps
  of their own. Runs in which a completion reads a freed key are not among these runs: there the code
  is undefined (\<open>completion_key_used_after_free\<close>).
\<close>

section \<open>What a session operation asks of the server\<close>

text \<open>
  An operation keeps the ids, adds to the log, requests only the release of its own session, and does
  request it when the reference count falls to zero.
\<close>

definition op_ok :: "('h, 'b, 'q, 'r) session \<Rightarrow> ('h, 'b, 'q, 'r) session \<Rightarrow> bool" where
  "op_ok x y \<longleftrightarrow> actorId y = actorId x \<and> threadId y = threadId x \<and>
     (\<exists>es. io_log y = io_log x @ es \<and>
        (\<forall>i t. ReleaseRequested i t \<in> set es \<longrightarrow> i = actorId x \<and> t = threadId x) \<and>
        (0 < ioCount x \<and> ioCount y \<le> 0 \<longrightarrow> ReleaseRequested (actorId x) (threadId x) \<in> set es))"

lemma op_ok_refl: "op_ok x x"
  by (simp add: op_ok_def)

lemma op_ok_trans [trans]:
  assumes "op_ok x y" and "op_ok y z"
  shows "op_ok x z"
proof -
  from assms(1) obtain es where es: "io_log y = io_log x @ es" "actorId y = actorId x" "threadId y = threadId x"
    "\<And>i t. ReleaseRequested i t \<in> set es \<Longrightarrow> i = actorId x \<and> t = threadId x"
    "0 < ioCount x \<Longrightarrow> ioCount y \<le> 0 \<Longrightarrow> ReleaseRequested (actorId x) (threadId x) \<in> set es"
    by (auto simp: op_ok_def)
  from assms(2) obtain fs where fs: "io_log z = io_log y @ fs" "actorId z = actorId y" "threadId z = threadId y"
    "\<And>i t. ReleaseRequested i t \<in> set fs \<Longrightarrow> i = actorId y \<and> t = threadId y"
    "0 < ioCount y \<Longrightarrow> ioCount z \<le> 0 \<Longrightarrow> ReleaseRequested (actorId y) (threadId y) \<in> set fs"
    by (auto simp: op_ok_def)
  have "0 < ioCount x \<and> ioCount z \<le> 0 \<longrightarrow> ReleaseRequested (actorId x) (threadId x) \<in> set (es @ fs)"
    using es(2,3,5) fs(5) by (cases "0 < ioCount y") auto
  with es fs show ?thesis unfolding op_ok_def by (intro conjI exI [of _ "es @ fs"]) auto
qed

text \<open>A step that writes no log entry and does not lower the count.\<close>

lemma op_okI:
  "actorId y = actorId x \<Longrightarrow> threadId y = threadId x \<Longrightarrow> io_log y = io_log x \<Longrightarrow> ioCount x \<le> ioCount y \<Longrightarrow> op_ok x y"
  by (simp add: op_ok_def)

lemma op_ok_Increase: "op_ok x (IncreaseIOCount x)"
  by (rule op_okI) (simp_all add: IncreaseIOCount_def)

lemma op_ok_Decrease: "op_ok x (DecreaseIOCount x)"
  by (auto simp: op_ok_def DecreaseIOCount_def Session_ReleaseSession_def log_io_def Let_def)

lemma op_ok_log: "(\<And>i t. e \<noteq> ReleaseRequested i t) \<Longrightarrow> op_ok x (log_io e x)"
  by (auto simp: op_ok_def log_io_def)

lemma op_ok_DoRecv: "op_ok x (snd (DoRecv R result x))"
proof -
  have "op_ok x (IncreaseIOCount x)" by (rule op_ok_Increase)
  also have "op_ok \<dots> (log_io (RecvPosted (rb_GetNotBrokenPutSize R (ringBuffer x))
      (max 0 (rb_GetFreeSize R (ringBuffer x) - rb_GetNotBrokenPutSize R (ringBuffer x)))) (IncreaseIOCount x))"
    by (rule op_ok_log) simp
  finally show ?thesis
    using op_ok_trans [OF _ op_ok_Decrease] by (auto simp: DoRecv_def Let_def split: io_result.splits)
qed

lemma op_ok_DoSend_loop: "DoSend_loop Q result e x = Some (ok, y) \<Longrightarrow> op_ok x y"
proof (induction Q result e x rule: DoSend_loop.induct)
  case (1 Q result e x)
  let ?x1 = "x\<lparr>ioMode := IO_SENDING\<rparr>"
  have x1: "op_ok x ?x1" by (rule op_okI) simp_all
  show ?case
  proof (cases "ioMode x = e \<and> 0 < lfq_GetRestSize Q (sendQueue x)")
    case True
    then obtain bs q where d: "dequeue_n Q (min ONE_SEND_WSABUF_MAX (nat (lfq_GetRestSize Q (sendQueue x)))) (sendQueue x)
        = Some (bs, q)"
      using 1(2) by (subst (asm) DoSend_loop.simps) (auto simp: Let_def split: if_splits option.splits)
    define z where "z = log_io (SendPosted bs) (IncreaseIOCount (?x1\<lparr>sendQueue := q,
        bufferCount := bufferCount ?x1 + int (min ONE_SEND_WSABUF_MAX (nat (lfq_GetRestSize Q (sendQueue x)))),
        sendBufferStore := bs @ drop (min ONE_SEND_WSABUF_MAX (nat (lfq_GetRestSize Q (sendQueue x))))
          (sendBufferStore ?x1)\<rparr>))"
    have "op_ok x z" unfolding z_def
      by (rule op_ok_trans [OF op_ok_trans [OF op_okI op_ok_Increase] op_ok_log]) simp_all
    moreover have "y = z \<or> y = DecreaseIOCount z"
      using 1(2) True d unfolding z_def by (subst (asm) DoSend_loop.simps) (auto simp: Let_def split: io_result.splits)
    ultimately show ?thesis using op_ok_trans [OF _ op_ok_Decrease] by blast
  next
    case False
    have "op_ok x (?x1\<lparr>ioMode := IO_NONE_SENDING\<rparr>)" by (rule op_okI) simp_all
    with 1 False x1 op_ok_refl op_ok_trans [OF x1] show ?thesis
      by (subst (asm) (2) DoSend_loop.simps) (auto simp: Let_def split: if_splits)
  qed
qed

lemma op_ok_DoSend: "DoSend Q result x = Some (ok, y) \<Longrightarrow> op_ok x y"
  unfolding DoSend_def by (rule op_ok_DoSend_loop)

lemma op_ok_SendPacket:
  assumes "SendPacket nb Q alloc result pkt x = Some (ok, y)"
  shows "op_ok x y"
proof (cases "BuildPacketBuffer nb alloc pkt")
  case None
  with assms show ?thesis by (simp add: SendPacket_def op_ok_refl)
next
  case (Some b)
  let ?x = "x\<lparr>sendQueue := lfq_Enqueue Q b (sendQueue x)\<rparr>"
  have "op_ok x ?x" by (rule op_okI) simp_all
  also have "op_ok ?x y" using assms Some by (intro op_ok_DoSend) (simp add: SendPacket_def)
  finally show ?thesis .
qed

lemma op_ok_Freed: "op_ok x (fold (\<lambda>b. log_io (Freed b)) bs x)"
proof (induction bs arbitrary: x)
  case (Cons b bs)
  have "op_ok x (log_io (Freed b) x)" by (rule op_ok_log) simp
  also have "op_ok \<dots> (fold (\<lambda>b. log_io (Freed b)) bs (log_io (Freed b) x))" by (rule Cons)
  finally show ?case by simp
qed (simp add: op_ok_refl)

lemma op_ok_OnSend:
  assumes "OnSendIoCompleted Q result x = Some (ok, y)"
  shows "op_ok x y"
proof -
  define z where "z = fold (\<lambda>b. log_io (Freed b)) (take (nat (bufferCount x)) (sendBufferStore x)) x"
  have "op_ok x z" unfolding z_def by (rule op_ok_Freed)
  also have "op_ok z (z\<lparr>bufferCount := 0, ioMode := IO_NONE_SENDING\<rparr>)" by (rule op_okI) simp_all
  also have "op_ok \<dots> (DecreaseIOCount (z\<lparr>bufferCount := 0, ioMode := IO_NONE_SENDING\<rparr>))" by (rule op_ok_Decrease)
  also have "op_ok \<dots> y" using assms unfolding OnSendIoCompleted_def z_def Let_def by (rule op_ok_DoSend)
  finally show ?thesis .
qed

text \<open>The receive loop changes the ring buffer and the mailbox only.\<close>

lemma recv_one_ids:
  "recv_one nb R x rest = Some (sent, y, rest') \<Longrightarrow> actorId y = actorId x \<and> threadId y = threadId x"
  by (auto simp: recv_one_def RecvStreamToBuffer_def SendMessage_def push_store_def
      Let_def split: prod.splits if_splits read.splits)

lemma recv_loop_ids:
  assumes "recv_loop nb R x rest = Some r"
  shows "actorId (snd r) = actorId x \<and> threadId (snd r) = threadId x"
proof (rule recv_loop.raw_induct [where P = "\<lambda>nb R x rest r. actorId (snd r) = actorId x \<and> threadId (snd r) = threadId x",
      OF _ assms], goal_cases)
  case (1 f nb R x rest r)
  then show ?case by (auto split: if_splits option.splits prod.splits dest!: recv_one_ids)
qed

lemma op_ok_recv_loop:
  assumes "recv_loop nb R x rest = Some (ok, y)"
  shows "op_ok x y"
  using recv_loop_ids [OF assms] recv_loop_view [OF assms] by (intro op_okI) (auto simp: io_view_def)

lemma op_ok_OnRecv:
  assumes "OnRecvIoCompleted nb R result x n = Some (ok, y)"
  shows "op_ok x y"
proof -
  let ?x = "x\<lparr>ringBuffer := rb_MoveWritePos R n (ringBuffer x)\<rparr>"
  obtain ok1 x1 where l: "recv_loop nb R ?x (rb_GetUseSize R (ringBuffer ?x)) = Some (ok1, x1)"
    using assms by (auto simp: OnRecvIoCompleted_def Let_def split: option.splits)
  have "op_ok x ?x" by (rule op_okI) simp_all
  also have "op_ok ?x x1" using l by (rule op_ok_recv_loop)
  also have "op_ok x1 y"
  proof (cases ok1)
    case False
    then have "y = DecreaseIOCount x1" using assms l by (simp add: OnRecvIoCompleted_def Let_def)
    then show ?thesis using op_ok_Decrease by blast
  next
    case True
    then have "y = DecreaseIOCount (snd (DoRecv R result x1))"
      using assms l by (auto simp: OnRecvIoCompleted_def Let_def split: prod.splits)
    then show ?thesis using op_ok_trans [OF op_ok_DoRecv op_ok_Decrease] by blast
  qed
  finally show ?thesis .
qed

lemma op_ok_OnIo: "OnIoCompleted nb R Q result x ov n = Some (ok, y) \<Longrightarrow> op_ok x y"
  by (auto simp: OnIoCompleted_def op_ok_Decrease op_ok_refl op_ok_OnSend op_ok_OnRecv
      split: if_splits overlapped.splits)

lemma op_ok_Disconnect: "op_ok x (Disconnect x)"
  by (auto simp: op_ok_def Disconnect_def log_io_def)

lemma op_ok_io_step: "io_step nb R Q s t \<Longrightarrow> op_ok (ses s) (ses t)"
proof (induction rule: io_step.induct)
  case (first_recv s result ok x)
  then show ?case using op_ok_DoRecv [of "ses s" R result] by simp
qed (auto simp: op_ok_Increase op_ok_Decrease op_ok_Disconnect intro: op_ok_SendPacket op_ok_OnIo)

section \<open>The composed system\<close>

text \<open>
  The body of \<open>RunReleaseThread\<close> for a signalled event, on the session objects: a session that is found
  is erased and its \<open>OnDisconnected\<close> is run.
\<close>

fun net_release_loop ::
  "('b, 'q) lfq \<Rightarrow> ('b, 'q) lfq \<Rightarrow> (u64 \<times> u8) list \<Rightarrow> ('h, 'b, 'q, 'r) net_world
     \<Rightarrow> ('h, 'b, 'q, 'r) net_world option" where
  "net_release_loop RQ Q [] w = Some w"
| "net_release_loop RQ Q ((sessionId, t) # q) w =
     (case FindSession sessionId t (core w) of
        None \<Rightarrow> None
      | Some None \<Rightarrow> net_release_loop RQ Q q w
      | Some (Some p) \<Rightarrow>
          (case EraseSession sessionId t (core w) of
             None \<Rightarrow> None
           | Some c \<Rightarrow>
               (case sess w p of
                  None \<Rightarrow> None
                | Some s \<Rightarrow>
                    (case OnDisconnected RQ Q s of
                       None \<Rightarrow> None
                     | Some s' \<Rightarrow> net_release_loop RQ Q q
                         (w\<lparr>core := log_event (Disconnected p) c, sess := (sess w)(p \<mapsto> s')\<rparr>)))))"

definition net_release_iteration ::
  "('b, 'q) lfq \<Rightarrow> ('b, 'q) lfq \<Rightarrow> u8 \<Rightarrow> ('h, 'b, 'q, 'r) net_world \<Rightarrow> ('h, 'b, 'q, 'r) net_world option" where
  "net_release_iteration RQ Q t w =
     (if in_range t (releaseThreadsQueue (core w))
      then map_option (\<lambda>w1. w1\<lparr>core := (core w1)\<lparr>releaseThreadsQueue :=
               (releaseThreadsQueue (core w1))[unat t := []]\<rparr>\<rparr>)
             (net_release_loop RQ Q (releaseThreadsQueue (core w) ! unat t)
                (w\<lparr>core := (core w)\<lparr>releaseEvents := (releaseEvents (core w))[unat t := False]\<rparr>\<rparr>))
      else None)"

text \<open>
  A system: the world, the generator of actor ids, which sessions have been inserted, and for each
  session what is outstanding on its socket and what has been sent on it.
\<close>

record ('h, 'b, 'q, 'r) net_sys =
  world :: "('h, 'b, 'q, 'r) net_world"
  gen :: u64
  entered :: "nat set"
  ios :: "nat \<Rightarrow> ('h, 'b, 'q, 'r) io_sys"

definition net_init :: "('h, 'b, 'q, 'r) net_sys \<Rightarrow> bool" where
  "net_init s \<longleftrightarrow>
     reg_init \<lparr>reg_sys.core = core (world s), idGen = gen s, inserted = entered s\<rparr> \<and> sess (world s) = Map.empty"

definition new_io :: "accept_input \<Rightarrow> ('h, 'b, 'q, 'r) session \<Rightarrow> ('h, 'b, 'q, 'r) io_sys" where
  "new_io inp x = \<lparr>ses = x, sends_out = 0,
     recvs_out = (if port_handle inp = - 1 then 0 else successes (recv_result inp) 1), holds = 0, enqueued = []\<rparr>"

text \<open>
  The steps. \<open>accept\<close>: the factory constructs a session, whose class registers its packet handlers, and
  the accept thread takes it in.
  \<open>session_io\<close>: a completion, or a packet sent by the logic thread, of a session that is found;
  \<open>mailbox\<close>: messages are sent to it or run. \<open>release\<close>: a release thread handles its queue.
  The others concern actors that are not sessions, and the order of the containers.
\<close>

inductive net_step ::
  "('b, 'y) NetBuffer_io_scheme \<Rightarrow> 'r ring_ops \<Rightarrow> ('b, 'q) lfq \<Rightarrow> ('b, 'q) lfq \<Rightarrow> 'q \<Rightarrow>
     ('h, 'b, 'q, 'r) net_sys \<Rightarrow> ('h, 'b, 'q, 'r) net_sys \<Rightarrow> bool"
  for nb R Q RQ q0 where
  accept: "unat (gen s) < 2 ^ 64 - 1 \<Longrightarrow> objs (core (world s)) p = None \<Longrightarrow>
     Actor_ctor (numOfLogicThread (core (world s))) (gen s) = Some (a, g) \<Longrightarrow>
     enter_session R created inp clientSock p (Session_ctor (a\<lparr>messageFactories := handlers\<rparr>) clientSock q0 ring0)
       (world s) = Some w \<Longrightarrow>
     sess w p = Some x \<Longrightarrow>
     net_step nb R Q RQ q0 s \<lparr>world = w, gen = g,
       entered = (if port_handle inp = - 1 then entered s else insert p (entered s)),
       ios = (ios s)(p := new_io inp x)\<rparr>"
| session_io: "FindSession i t (core (world s)) = Some (Some p) \<Longrightarrow> sess (world s) p = Some x \<Longrightarrow>
     io_step nb R Q (ios s p) y \<Longrightarrow> holds y = 0 \<Longrightarrow> store_session p x (ses y) (world s) = Some w \<Longrightarrow>
     net_step nb R Q RQ q0 s (s\<lparr>world := w, ios := (ios s)(p := y)\<rparr>)"
| key_freed: "net_step nb R Q RQ q0 s (s\<lparr>world := free_key k (world s)\<rparr>)"
| mailbox: "FindSession i t (core (world s)) = Some (Some p) \<Longrightarrow> sess (world s) p = Some x \<Longrightarrow>
     y = x\<lparr>storeQueue := sq, consumerQueue := cq\<rparr> \<Longrightarrow> store_session p x y (world s) = Some w \<Longrightarrow>
     net_step nb R Q RQ q0 s (s\<lparr>world := w, ios := (ios s)(p := (ios s p)\<lparr>ses := y\<rparr>)\<rparr>)"
| release: "unat t < unat (numOfLogicThread (core (world s))) \<Longrightarrow>
     net_release_iteration RQ Q t (world s) = Some w \<Longrightarrow> net_step nb R Q RQ q0 s (s\<lparr>world := w\<rparr>)"
| other_actor: "unat (gen s) < 2 ^ 64 - 1 \<Longrightarrow> objs (core (world s)) p = None \<Longrightarrow> k \<noteq> SessionKind \<Longrightarrow>
     Actor_ctor (numOfLogicThread (core (world s))) (gen s) = Some (a, g) \<Longrightarrow>
     net_step nb R Q RQ q0 s (s\<lparr>world := (world s)\<lparr>core := (core (world s))\<lparr>objs :=
       (objs (core (world s)))(p \<mapsto> \<lparr>act = a, kind = k, isTesterActor = b\<rparr>)\<rparr>\<rparr>, gen := g\<rparr>)"
| register: "objs (core (world s)) p = Some ob \<Longrightarrow> kind ob \<noteq> SessionKind \<Longrightarrow>
     RegisterNonNetworkActor p (core (world s)) = Some c \<Longrightarrow>
     net_step nb R Q RQ q0 s (s\<lparr>world := (world s)\<lparr>core := c\<rparr>\<rparr>)"
| unregister: "UnregisterNonNetworkActor p (core (world s)) = Some c \<Longrightarrow>
     net_step nb R Q RQ q0 s (s\<lparr>world := (world s)\<lparr>core := c\<rparr>\<rparr>)"
| reorder: "t < length (sessionMap (core (world s))) \<Longrightarrow> mset m = mset (sessionMap (core (world s)) ! t) \<Longrightarrow>
     net_step nb R Q RQ q0 s
       (s\<lparr>world := (world s)\<lparr>core := (core (world s))\<lparr>sessionMap := (sessionMap (core (world s)))[t := m]\<rparr>\<rparr>\<rparr>)"

definition reg_view :: "('h, 'b, 'q, 'r) net_sys \<Rightarrow> 'h reg_sys" where
  "reg_view s = \<lparr>reg_sys.core = core (world s), idGen = gen s, inserted = entered s\<rparr>"

section \<open>The registry of the composed system\<close>

text \<open>All release requests of a log are for one session.\<close>

definition own_requests :: "u64 \<Rightarrow> u8 \<Rightarrow> 'b io_event list \<Rightarrow> bool" where
  "own_requests i t es \<longleftrightarrow> list_all (\<lambda>e. case e of ReleaseRequested j u \<Rightarrow> j = i \<and> u = t | _ \<Rightarrow> True) es"

lemma own_requestsI: "(\<And>j u. ReleaseRequested j u \<in> set es \<Longrightarrow> j = i \<and> u = t) \<Longrightarrow> own_requests i t es"
  by (auto simp: own_requests_def list_all_iff split: io_event.splits)

lemma own_requests_Cons:
  "own_requests i t (ReleaseRequested j u # es) \<longleftrightarrow> j = i \<and> u = t \<and> own_requests i t es"
  "own_requests i t (e # es) \<Longrightarrow> own_requests i t es"
  by (auto simp: own_requests_def)

lemma op_ok_own: "op_ok x y \<Longrightarrow> own_requests (actorId y) (threadId y) (drop (length (io_log x)) (io_log y))"
  by (auto simp: op_ok_def intro!: own_requestsI)

lemma op_ok_requests:
  assumes "op_ok x y" and "0 < ioCount x" and "ioCount y \<le> 0"
  shows "ReleaseRequested (actorId x) (threadId x) \<in> set (drop (length (io_log x)) (io_log y))"
proof -
  from assms obtain es where "io_log y = io_log x @ es" "ReleaseRequested (actorId x) (threadId x) \<in> set es"
    by (auto simp: op_ok_def)
  then show ?thesis by simp
qed

text \<open>The registry steps that a session's operation amounts to.\<close>

lemma carry_out_reg:
  assumes "carry_out p es srv = Some srv'" and "objs srv p = Some ob"
    and "own_requests (actorId (act ob)) (threadId (act ob)) es"
  shows "reg_step\<^sup>*\<^sup>* \<lparr>reg_sys.core = srv, idGen = g, inserted = ins\<rparr>
    \<lparr>reg_sys.core = srv', idGen = g, inserted = ins\<rparr>"
  using assms
proof (induction p es srv rule: carry_out.induct)
  case (2 p i t es srv)
  then obtain c where c: "ReleaseSession i t srv = Some c" "carry_out p es c = Some srv'"
    by (auto split: option.splits)
  have it: "i = actorId (act ob)" "t = threadId (act ob)" "own_requests (actorId (act ob)) (threadId (act ob)) es"
    using 2(4) by (simp_all add: own_requests_Cons(1))
  have "reg_step \<lparr>reg_sys.core = srv, idGen = g, inserted = ins\<rparr> \<lparr>reg_sys.core = c, idGen = g, inserted = ins\<rparr>"
    using reg_step.release_session [of "\<lparr>reg_sys.core = srv, idGen = g, inserted = ins\<rparr>" p ob c] 2(3) c(1) it(1,2)
    by simp
  moreover have "objs c p = Some ob" using 2(3) objs_kept(2) [OF c(1)] by simp
  from 2(1) [OF c(1) c(2) this it(3)]
  have "reg_step\<^sup>*\<^sup>* \<lparr>reg_sys.core = c, idGen = g, inserted = ins\<rparr> \<lparr>reg_sys.core = srv', idGen = g, inserted = ins\<rparr>" .
  ultimately show ?case by (rule converse_rtranclp_into_rtranclp)
next
  case (3 p es srv)
  have "reg_step \<lparr>reg_sys.core = srv, idGen = g, inserted = ins\<rparr>
      \<lparr>reg_sys.core = log_event (ActorDestroyed p) srv, idGen = g, inserted = ins\<rparr>"
    using reg_step.lifecycle_call [of "ActorDestroyed p" "\<lparr>reg_sys.core = srv, idGen = g, inserted = ins\<rparr>"] by simp
  moreover have "objs (log_event (ActorDestroyed p) srv) p = Some ob" using 3(3) by (simp add: log_event_def)
  from 3(1) [OF _ this own_requests_Cons(2) [OF 3(4)]] 3(2)
  have "reg_step\<^sup>*\<^sup>* \<lparr>reg_sys.core = log_event (ActorDestroyed p) srv, idGen = g, inserted = ins\<rparr>
    \<lparr>reg_sys.core = srv', idGen = g, inserted = ins\<rparr>" by simp
  ultimately show ?case by (rule converse_rtranclp_into_rtranclp)
qed (auto dest: own_requests_Cons(2))

lemma store_session_reg:
  assumes w: "store_session p x y w = Some w'" and ok: "op_ok x y" and ob: "objs (core w) p = Some ob"
    and info: "obj_info ob = (actorId y, threadId y, SessionKind, False)"
  shows "reg_step\<^sup>*\<^sup>* \<lparr>reg_sys.core = core w, idGen = g, inserted = ins\<rparr>
    \<lparr>reg_sys.core = core w', idGen = g, inserted = ins\<rparr>"
proof -
  define ob' where "ob' = \<lparr>act = actor.truncate y, kind = SessionKind, isTesterActor = False\<rparr>"
  define srv where "srv = (core w)\<lparr>objs := (objs (core w))(p \<mapsto> ob')\<rparr>"
  have c: "carry_out p (drop (length (io_log x)) (io_log y)) srv = Some (core w')"
    using w by (auto simp: store_session_def Let_def srv_def ob'_def)
  have "obj_info ob' = obj_info ob" using info by (simp add: obj_info_def ob'_def actor.defs)
  then have "registry_kept (core w) srv" using ob by (simp add: registry_kept_def srv_def)
  then have "reg_step \<lparr>reg_sys.core = core w, idGen = g, inserted = ins\<rparr> \<lparr>reg_sys.core = srv, idGen = g, inserted = ins\<rparr>"
    using reg_step.messages [of "\<lparr>reg_sys.core = core w, idGen = g, inserted = ins\<rparr>" srv] by simp
  moreover have "reg_step\<^sup>*\<^sup>* \<lparr>reg_sys.core = srv, idGen = g, inserted = ins\<rparr>
      \<lparr>reg_sys.core = core w', idGen = g, inserted = ins\<rparr>"
    using op_ok_own [OF ok] by (intro carry_out_reg [OF c, of ob']) (simp_all add: srv_def ob'_def actor.defs)
  ultimately show ?thesis by (rule converse_rtranclp_into_rtranclp)
qed

section \<open>The invariant of the composed system\<close>

text \<open>The registry and the session objects agree.\<close>

definition synced :: "('h, 'b, 'q, 'r) net_world \<Rightarrow> bool" where
  "synced w \<longleftrightarrow>
     (\<forall>p x. sess w p = Some x \<longrightarrow>
        objs (core w) p = Some \<lparr>act = actor.truncate x, kind = SessionKind, isTesterActor = False\<rparr>) \<and>
     (\<forall>p ob. objs (core w) p = Some ob \<and> kind ob = SessionKind \<longrightarrow> sess w p \<noteq> None)"

text \<open>A registered session whose reference count is zero has its release queued.\<close>

definition idle_queued :: "('h, 'b, 'q, 'r) net_world \<Rightarrow> bool" where
  "idle_queued w \<longleftrightarrow>
     (\<forall>u < length (sessionMap (core w)). \<forall>e \<in> set (sessionMap (core w) ! u). \<forall>x.
        sess w (snd e) = Some x \<and> ioCount x \<le> 0 \<longrightarrow>
        (actorId x, threadId x) \<in> set (releaseThreadsQueue (core w) ! u))"

text \<open>A session that is not disconnected is as its own run says.\<close>

definition live_io :: "('q \<Rightarrow> 'b list) \<Rightarrow> ('q \<Rightarrow> bool) \<Rightarrow> ('h, 'b, 'q, 'r) net_sys \<Rightarrow> bool" where
  "live_io contents valid s \<longleftrightarrow>
     (\<forall>p x. sess (world s) p = Some x \<and> Disconnected p \<notin> set (lifecycle (core (world s))) \<longrightarrow>
        ses (ios s p) = x \<and> holds (ios s p) = 0 \<and> io_inv contents valid (ios s p))"

definition world_ok :: "u64 \<Rightarrow> nat set \<Rightarrow> ('h, 'b, 'q, 'r) net_world \<Rightarrow> bool" where
  "world_ok g ins w \<longleftrightarrow>
     reg_inv \<lparr>reg_sys.core = core w, idGen = g, inserted = ins\<rparr> \<and> synced w \<and> queue_placed (core w) \<and> idle_queued w"

definition net_inv :: "('q \<Rightarrow> 'b list) \<Rightarrow> ('q \<Rightarrow> bool) \<Rightarrow> ('h, 'b, 'q, 'r) net_sys \<Rightarrow> bool" where
  "net_inv contents valid s \<longleftrightarrow> world_ok (gen s) (entered s) (world s) \<and> live_io contents valid s"

lemma world_okD:
  assumes "world_ok g ins w"
  shows "reg_inv \<lparr>reg_sys.core = core w, idGen = g, inserted = ins\<rparr>" and "reg_ok g ins (core w)"
    and "synced w" and "queue_placed (core w)" and "idle_queued w"
  using assms by (auto simp: world_ok_def reg_inv_def)

lemma syncedD:
  assumes "synced w" and "sess w p = Some x"
  shows "objs (core w) p = Some \<lparr>act = actor.truncate x, kind = SessionKind, isTesterActor = False\<rparr>"
  using assms by (simp add: synced_def)

lemma truncate_ids: "actorId (actor.truncate x) = actorId x" "threadId (actor.truncate x) = threadId x"
  by (simp_all add: actor.defs)

lemma synced_entry:
  assumes "reg_ok g ins (core w)" and "synced w" and "u < length (sessionMap (core w))"
    and "e \<in> set (sessionMap (core w) ! u)"
  shows "\<exists>x. sess w (snd e) = Some x \<and> actorId x = fst e \<and> unat (threadId x) = u"
proof -
  from buckets_okD(2) [OF reg_okD(5) [OF assms(1)] assms(3,4)]
  obtain ob where ob: "objs (core w) (snd e) = Some ob" "kind ob = SessionKind" "actorId (act ob) = fst e"
    "unat (threadId (act ob)) = u" by (auto simp: session_entry_def)
  with assms(2) obtain x where "sess w (snd e) = Some x" unfolding synced_def by blast
  with ob syncedD [OF assms(2) this] show ?thesis by (auto simp: truncate_ids)
qed

text \<open>What carrying out a session's requests does to the release queues.\<close>

lemma ReleaseSession_queue:
  assumes "ReleaseSession i t srv = Some c"
  shows "set (releaseThreadsQueue srv ! u) \<subseteq> set (releaseThreadsQueue c ! u)"
    and "(i, t) \<in> set (releaseThreadsQueue c ! unat t)"
    and "queue_placed srv \<Longrightarrow> queue_placed c" and "lifecycle c = lifecycle srv"
proof -
  have lt: "unat t < length (releaseThreadsQueue srv)"
    and c: "c = srv\<lparr>releaseThreadsQueue := (releaseThreadsQueue srv)
        [unat t := releaseThreadsQueue srv ! unat t @ [(i, t)]], releaseEvents := (releaseEvents srv)[unat t := True]\<rparr>"
    using assms by (auto simp: ReleaseSession_def in_range_def queue_push_def split: if_splits)
  show "set (releaseThreadsQueue srv ! u) \<subseteq> set (releaseThreadsQueue c ! u)"
    using lt by (cases "u = unat t") (auto simp: c)
  show "(i, t) \<in> set (releaseThreadsQueue c ! unat t)" using lt by (simp add: c)
  show "queue_placed c" if "queue_placed srv"
    using that lt by (auto simp: queue_placed_def c nth_list_update)
  show "lifecycle c = lifecycle srv" by (simp add: c)
qed

lemma carry_out_queue:
  assumes "carry_out p es srv = Some srv'"
  shows "set (releaseThreadsQueue srv ! u) \<subseteq> set (releaseThreadsQueue srv' ! u) \<and>
    (ReleaseRequested i t \<in> set es \<longrightarrow> (i, t) \<in> set (releaseThreadsQueue srv' ! unat t)) \<and>
    (queue_placed srv \<longrightarrow> queue_placed srv') \<and>
    (Disconnected q \<in> set (lifecycle srv') \<longleftrightarrow> Disconnected q \<in> set (lifecycle srv))"
  using assms
proof (induction p es srv arbitrary: u rule: carry_out.induct)
  case (2 p j v es srv)
  then obtain c where c: "ReleaseSession j v srv = Some c" "carry_out p es c = Some srv'"
    by (auto split: option.splits)
  note R = ReleaseSession_queue [OF c(1)] and I = 2(1) [OF c(1) c(2)]
  have "set (releaseThreadsQueue srv ! u) \<subseteq> set (releaseThreadsQueue srv' ! u)"
    using R(1) [of u] I [of u] by blast
  moreover have "(i, t) \<in> set (releaseThreadsQueue srv' ! unat t)" if "ReleaseRequested i t \<in> set (ReleaseRequested j v # es)"
    using that R(2) I [of "unat t"] by auto
  ultimately show ?case using R(3,4) I [of u] by simp
next
  case (3 p es srv)
  then show ?case by (simp add: log_event_def queue_placed_def)
qed (simp_all)

lemma store_session_facts:
  assumes "store_session p x y w = Some w'"
  shows "sess w' = (sess w)(p \<mapsto> y)" and "keys w' = keys w"
    and "sessionMap (core w') = sessionMap (core w)"
    and "objs (core w') = (objs (core w))(p \<mapsto> \<lparr>act = actor.truncate y, kind = SessionKind, isTesterActor = False\<rparr>)"
    and "set (releaseThreadsQueue (core w) ! u) \<subseteq> set (releaseThreadsQueue (core w') ! u)"
    and "ReleaseRequested i t \<in> set (drop (length (io_log x)) (io_log y)) \<Longrightarrow>
      (i, t) \<in> set (releaseThreadsQueue (core w') ! unat t)"
    and "queue_placed (core w) \<Longrightarrow> queue_placed (core w')"
    and "Disconnected q \<in> set (lifecycle (core w')) \<longleftrightarrow> Disconnected q \<in> set (lifecycle (core w))"
proof -
  define srv where "srv = (core w)\<lparr>objs := (objs (core w))
      (p \<mapsto> \<lparr>act = actor.truncate y, kind = SessionKind, isTesterActor = False\<rparr>)\<rparr>"
  obtain c where c: "carry_out p (drop (length (io_log x)) (io_log y)) srv = Some c"
    and w': "w' = w\<lparr>core := c, sess := (sess w)(p \<mapsto> y)\<rparr>"
    using assms by (auto simp: store_session_def Let_def srv_def)
  note F = carry_out_fields [OF c] and Q = carry_out_queue [OF c]
  show "sess w' = (sess w)(p \<mapsto> y)" "keys w' = keys w" by (simp_all add: w')
  show "sessionMap (core w') = sessionMap (core w)"
    "objs (core w') = (objs (core w))(p \<mapsto> \<lparr>act = actor.truncate y, kind = SessionKind, isTesterActor = False\<rparr>)"
    using F by (simp_all add: w' srv_def)
  show "set (releaseThreadsQueue (core w) ! u) \<subseteq> set (releaseThreadsQueue (core w') ! u)"
    using Q [of u] by (simp add: w' srv_def)
  show "ReleaseRequested i t \<in> set (drop (length (io_log x)) (io_log y)) \<Longrightarrow>
      (i, t) \<in> set (releaseThreadsQueue (core w') ! unat t)"
    using Q [of _ i t] by (simp add: w')
  show "queue_placed (core w) \<Longrightarrow> queue_placed (core w')"
    using Q by (simp add: w' srv_def queue_placed_def)
  show "Disconnected q \<in> set (lifecycle (core w')) \<longleftrightarrow> Disconnected q \<in> set (lifecycle (core w))"
    using Q [of _ _ _ q] by (simp add: w' srv_def)
qed

text \<open>Storing a session after an operation keeps the invariant, and is a run of the registry.\<close>

lemma store_session_world:
  assumes ok: "world_ok g ins w" and x: "sess w p = Some x" and op: "op_ok x y"
    and w': "store_session p x y w = Some w'"
  shows "world_ok g ins w'"
    and "reg_step\<^sup>*\<^sup>* \<lparr>reg_sys.core = core w, idGen = g, inserted = ins\<rparr>
      \<lparr>reg_sys.core = core w', idGen = g, inserted = ins\<rparr>"
proof -
  note W = world_okD [OF ok] and F = store_session_facts [OF w']
  have ids: "actorId y = actorId x" "threadId y = threadId x" using op by (simp_all add: op_ok_def)
  note ob = syncedD [OF W(3) x]
  show run: "reg_step\<^sup>*\<^sup>* \<lparr>reg_sys.core = core w, idGen = g, inserted = ins\<rparr>
      \<lparr>reg_sys.core = core w', idGen = g, inserted = ins\<rparr>"
    by (rule store_session_reg [OF w' op ob]) (simp add: obj_info_def truncate_ids ids)
  have "synced w'" using W(3) unfolding synced_def F(1,4) by auto
  moreover have "idle_queued w'"
    unfolding idle_queued_def F(3)
  proof (intro allI impI ballI)
    fix u e z
    assume u: "u < length (sessionMap (core w))" and e: "e \<in> set (sessionMap (core w) ! u)"
      and z: "sess w' (snd e) = Some z \<and> ioCount z \<le> 0"
    obtain x' where x': "sess w (snd e) = Some x'" "unat (threadId x') = u"
      using synced_entry [OF W(2,3) u e] by blast
    have old: "(actorId x', threadId x') \<in> set (releaseThreadsQueue (core w') ! u)" if "ioCount x' \<le> 0"
      using W(5) u e x'(1) that F(5) [of u] unfolding idle_queued_def by blast
    show "(actorId z, threadId z) \<in> set (releaseThreadsQueue (core w') ! u)"
    proof (cases "snd e = p")
      case False
      with z x'(1) old show ?thesis by (simp add: F(1))
    next
      case True
      with z x x' have zy: "z = y" "x' = x" by (simp_all add: F(1))
      show ?thesis
      proof (cases "ioCount x \<le> 0")
        case True
        then show ?thesis using old unfolding zy ids by blast
      next
        case False
        then have "ReleaseRequested (actorId x) (threadId x) \<in> set (drop (length (io_log x)) (io_log y))"
          using z by (intro op_ok_requests [OF op]) (simp_all add: zy(1))
        from F(6) [OF this] x'(2) show ?thesis unfolding zy ids by simp
      qed
    qed
  qed
  ultimately show "world_ok g ins w'"
    using registry_runs.steps_inv [OF run W(1)] F(7) W(4) by (simp add: world_ok_def)
qed

subsection \<open>Accepting a session\<close>

lemma world_ok_keys:
  "world_ok g ins (w\<lparr>keys := k\<rparr>) = world_ok g ins w"
  "world_ok g ins (w\<lparr>registered := r\<rparr>) = world_ok g ins w"
  by (simp_all add: world_ok_def synced_def idle_queued_def)

lemma fresh_session_world:
  assumes ok: "world_ok g ins w" and g: "unat g < 2 ^ 64 - 1" and p: "objs (core w) p = None"
    and a: "Actor_ctor (numOfLogicThread (core w)) g = Some (a, g')"
    and x: "actor.truncate x = a\<lparr>messageFactories := fs\<rparr>"
  defines "w1 \<equiv> w\<lparr>core := (core w)\<lparr>objs := (objs (core w))(p \<mapsto> \<lparr>act = a\<lparr>messageFactories := fs\<rparr>, kind = SessionKind, isTesterActor = False\<rparr>)\<rparr>,
    sess := (sess w)(p \<mapsto> x)\<rparr>"
  shows "world_ok g' ins w1"
    and "reg_step\<^sup>*\<^sup>* \<lparr>reg_sys.core = core w, idGen = g, inserted = ins\<rparr>
      \<lparr>reg_sys.core = core w1, idGen = g', inserted = ins\<rparr>"
proof -
  note W = world_okD [OF ok]
  have sp: "sess w p = None" using syncedD [OF W(3)] p by (cases "sess w p") auto
  let ?c = "(core w)\<lparr>objs := (objs (core w))(p \<mapsto> \<lparr>act = a, kind = SessionKind, isTesterActor = False\<rparr>)\<rparr>"
  have step1: "reg_step \<lparr>reg_sys.core = core w, idGen = g, inserted = ins\<rparr>
      \<lparr>reg_sys.core = ?c, idGen = g', inserted = ins\<rparr>"
    using reg_step.construct [of "\<lparr>reg_sys.core = core w, idGen = g, inserted = ins\<rparr>" p a g' SessionKind False] g p a
    by simp
  have "registry_kept ?c (core w1)" by (simp add: registry_kept_def w1_def obj_info_def)
  then have step2: "reg_step \<lparr>reg_sys.core = ?c, idGen = g', inserted = ins\<rparr>
      \<lparr>reg_sys.core = core w1, idGen = g', inserted = ins\<rparr>"
    using reg_step.messages [of "\<lparr>reg_sys.core = ?c, idGen = g', inserted = ins\<rparr>" "core w1"] by simp
  from step1 step2 show "reg_step\<^sup>*\<^sup>* \<lparr>reg_sys.core = core w, idGen = g, inserted = ins\<rparr>
      \<lparr>reg_sys.core = core w1, idGen = g', inserted = ins\<rparr>" by simp
  have "synced w1" using W(3) x unfolding synced_def w1_def by auto
  moreover have "idle_queued w1"
    unfolding idle_queued_def
  proof (intro allI impI ballI)
    fix u e z
    assume u: "u < length (sessionMap (core w1))" "e \<in> set (sessionMap (core w1) ! u)"
      and z: "sess w1 (snd e) = Some z \<and> ioCount z \<le> 0"
    then have u': "u < length (sessionMap (core w))" "e \<in> set (sessionMap (core w) ! u)" by (simp_all add: w1_def)
    then have "snd e \<noteq> p" using synced_entry [OF W(2,3) u'] sp by auto
    with z u' W(5) show "(actorId z, threadId z) \<in> set (releaseThreadsQueue (core w1) ! u)"
      by (simp add: w1_def idle_queued_def)
  qed
  moreover have "queue_placed (core w1)" using W(4) by (simp add: queue_placed_def w1_def)
  ultimately show "world_ok g' ins w1" using reg_step_inv [OF step2 reg_step_inv [OF step1 W(1)]] by (simp add: world_ok_def)
qed

lemma insert_session_world:
  assumes ok: "world_ok g ins w" and x: "sess w p = Some x" and pos: "0 < ioCount x" and p: "p \<notin> ins"
    and i: "InsertSession p (core w) = Some srv"
  defines "w1 \<equiv> w\<lparr>core := log_event (ActorCreated p) srv\<rparr>"
  shows "world_ok g (insert p ins) w1"
    and "reg_step\<^sup>*\<^sup>* \<lparr>reg_sys.core = core w, idGen = g, inserted = ins\<rparr>
      \<lparr>reg_sys.core = core w1, idGen = g, inserted = insert p ins\<rparr>"
proof -
  note W = world_okD [OF ok]
  note ob = syncedD [OF W(3) x]
  have step1: "reg_step \<lparr>reg_sys.core = core w, idGen = g, inserted = ins\<rparr>
      \<lparr>reg_sys.core = srv, idGen = g, inserted = insert p ins\<rparr>"
    using reg_step.insert_session [of "\<lparr>reg_sys.core = core w, idGen = g, inserted = ins\<rparr>" p _ srv] ob p i by simp
  have step2: "reg_step \<lparr>reg_sys.core = srv, idGen = g, inserted = insert p ins\<rparr>
      \<lparr>reg_sys.core = core w1, idGen = g, inserted = insert p ins\<rparr>"
    using reg_step.lifecycle_call [of "ActorCreated p" "\<lparr>reg_sys.core = srv, idGen = g, inserted = insert p ins\<rparr>"]
    by (simp add: w1_def)
  show "reg_step\<^sup>*\<^sup>* \<lparr>reg_sys.core = core w, idGen = g, inserted = ins\<rparr>
      \<lparr>reg_sys.core = core w1, idGen = g, inserted = insert p ins\<rparr>"
    using step1 step2 by (meson converse_rtranclp_into_rtranclp rtranclp.rtrancl_refl)
  have srv: "sessionMap srv = (sessionMap (core w))[unat (threadId x) :=
        umap_emplace (actorId x) p (sessionMap (core w) ! unat (threadId x))]"
    and same: "objs srv = objs (core w)" "releaseThreadsQueue srv = releaseThreadsQueue (core w)"
    using i ob by (auto simp: InsertSession_def truncate_ids Let_def split: if_splits)
  have old: "e \<in> set (sessionMap (core w) ! u) \<or> snd e = p"
    if "u < length (sessionMap srv)" "e \<in> set (sessionMap srv ! u)" for u e
    using that set_umap_emplace [of "actorId x" p "sessionMap (core w) ! unat (threadId x)"]
    by (cases "u = unat (threadId x)") (auto simp: srv)
  have "idle_queued w1"
    unfolding idle_queued_def
  proof (intro allI impI ballI)
    fix u e z
    assume u: "u < length (sessionMap (core w1))" "e \<in> set (sessionMap (core w1) ! u)"
      and z: "sess w1 (snd e) = Some z \<and> ioCount z \<le> 0"
    have "snd e \<noteq> p" using z x pos by (auto simp: w1_def)
    then have "u < length (sessionMap (core w))" "e \<in> set (sessionMap (core w) ! u)"
      using old [of u e] u srv by (auto simp: w1_def log_event_def)
    with z W(5) show "(actorId z, threadId z) \<in> set (releaseThreadsQueue (core w1) ! u)"
      by (simp add: w1_def idle_queued_def log_event_def same)
  qed
  moreover have "synced w1" "queue_placed (core w1)"
    using W(3,4) by (simp_all add: synced_def queue_placed_def w1_def log_event_def same)
  ultimately show "world_ok g (insert p ins) w1"
    using reg_step_inv [OF step2 reg_step_inv [OF step1 W(1)]] by (simp add: world_ok_def)
qed

lemma truncate_Session_ctor: "actor.truncate (Session_ctor a sk q r) = a"
  by (simp add: Session_ctor_def actor.defs)

text \<open>The session's own run while it is accepted.\<close>

lemma accepted_io:
  fixes s1 s2 :: "('h, 'b, 'q, 'r) session"
  assumes c: "lfq_contract Q contents valid" and q: "valid q" "contents q = []"
    and s1: "s1 = IncreaseIOCount (Session_ctor a sk q r)"
  shows "port_handle inp = - 1 \<Longrightarrow> io_inv contents valid (new_io inp (DecreaseIOCount s1))"
    and "port_handle inp \<noteq> - 1 \<Longrightarrow> send_view s2 = send_view s1 \<Longrightarrow> \<not> isUsingSession s2 \<Longrightarrow>
      ioCount s2 = ioCount s1 \<Longrightarrow>
      io_inv contents valid (new_io inp (DecreaseIOCount (snd (DoRecv R (recv_result inp) s2))))"
proof -
  let ?init = "\<lparr>ses = Session_ctor a sk q r, sends_out = 0, recvs_out = 0, holds = 0, enqueued = []\<rparr>"
  let ?held = "\<lparr>ses = s1, sends_out = 0, recvs_out = 0, holds = 1, enqueued = []\<rparr>"
  note step = io_step_inv [OF c, where nb = undefined and R = R]
  have "io_inv contents valid ?init" by (rule io_init_inv) (use q in \<open>auto simp: io_init_def\<close>)
  from step [OF io_step.hold this] have held: "io_inv contents valid ?held" by (simp add: s1)
  {
    assume "port_handle inp = - 1"
    from step [OF io_step.unhold held]
    show "io_inv contents valid (new_io inp (DecreaseIOCount s1))"
      using \<open>port_handle inp = - 1\<close> by (simp add: new_io_def)
  next
    assume p: "port_handle inp \<noteq> - 1" and s2: "send_view s2 = send_view s1" "\<not> isUsingSession s2"
      "ioCount s2 = ioCount s1"
    have "ioCount s1 = 1" using held by (simp add: io_inv_def)
    with io_invI_view [OF held, of s2 0 1] s2
    have h2: "io_inv contents valid \<lparr>ses = s2, sends_out = 0, recvs_out = 0, holds = 1, enqueued = []\<rparr>" by simp
    obtain ok s3 where d: "DoRecv R (recv_result inp) s2 = (ok, s3)" by fastforce
    have h3: "io_inv contents valid \<lparr>ses = s3, sends_out = 0, recvs_out = successes (recv_result inp) 1, holds = 1,
        enqueued = []\<rparr>"
      using step [OF io_step.first_recv [of "\<lparr>ses = s2, sends_out = 0, recvs_out = 0, holds = 1, enqueued = []\<rparr>" R
            "recv_result inp" ok s3] h2] d by simp
    from step [OF io_step.unhold this]
    show "io_inv contents valid (new_io inp (DecreaseIOCount (snd (DoRecv R (recv_result inp) s2))))"
      using p d by (simp add: new_io_def)
  }
qed

lemma SendMessage_bind_session:
  "op_ok s (snd (SendMessage_bind f args s))" "send_view (snd (SendMessage_bind f args s)) = send_view s"
  "isUsingSession (snd (SendMessage_bind f args s)) = isUsingSession s"
  "ioCount (snd (SendMessage_bind f args s)) = ioCount s"
  by (auto simp: SendMessage_bind_def push_store_def send_view_def op_ok_refl intro: op_okI)

lemma enter_session_world:
  fixes w w' :: "('h, 'b, 'q, 'r) net_world"
  assumes c: "lfq_contract Q contents valid" and q: "valid q" "contents q = []"
    and ok: "world_ok g ins w" and g: "unat g < 2 ^ 64 - 1" and p: "objs (core w) p = None"
    and a: "Actor_ctor (numOfLogicThread (core w)) g = Some (a, g')"
    and e: "enter_session R created inp sk p (Session_ctor (a\<lparr>messageFactories := fs\<rparr>) sk q r) w = Some w'"
    and x: "sess w' p = Some x"
  defines "ins' \<equiv> (if port_handle inp = - 1 then ins else insert p ins)"
  shows "world_ok g' ins' w'"
    and "reg_step\<^sup>*\<^sup>* \<lparr>reg_sys.core = core w, idGen = g, inserted = ins\<rparr>
      \<lparr>reg_sys.core = core w', idGen = g', inserted = ins'\<rparr>"
    and "sess w' = (sess w)(p \<mapsto> x)" and "io_inv contents valid (new_io inp x)"
    and "Disconnected d \<in> set (lifecycle (core w')) \<longleftrightarrow> Disconnected d \<in> set (lifecycle (core w))"
proof -
  define s0 :: "('h, 'b, 'q, 'r) session" where "s0 = Session_ctor (a\<lparr>messageFactories := fs\<rparr>) sk q r"
  define s1 where "s1 = IncreaseIOCount s0"
  define wf where "wf = w\<lparr>core := (core w)\<lparr>objs := (objs (core w))
      (p \<mapsto> \<lparr>act = a\<lparr>messageFactories := fs\<rparr>, kind = SessionKind, isTesterActor = False\<rparr>)\<rparr>, sess := (sess w)(p \<mapsto> s0)\<rparr>"
  note fresh = fresh_session_world [OF ok g p a truncate_Session_ctor [of "a\<lparr>messageFactories := fs\<rparr>" sk q r],
      folded s0_def, folded wf_def]
  have sf: "sess wf p = Some s0" by (simp add: wf_def)
  have over: "store_session p s0 y (wf\<lparr>keys := k, registered := rg\<rparr>) = store_session p s0 y (w\<lparr>keys := k, registered := rg\<rparr>)" for y k rg
    by (simp add: store_session_def Let_def wf_def)
  have okk: "world_ok g' ins (wf\<lparr>keys := k, registered := rg\<rparr>)" for k rg
    using fresh(1) by (simp only: world_ok_keys)
  have lf: "Disconnected d \<in> set (lifecycle (core wf)) \<longleftrightarrow> Disconnected d \<in> set (lifecycle (core w))"
    by (simp add: wf_def)
  have op1: "op_ok s0 s1" by (simp add: s1_def op_ok_Increase)
  have "world_ok g' ins' w' \<and> reg_step\<^sup>*\<^sup>* \<lparr>reg_sys.core = core w, idGen = g, inserted = ins\<rparr>
      \<lparr>reg_sys.core = core w', idGen = g', inserted = ins'\<rparr> \<and> sess w' = (sess w)(p \<mapsto> x) \<and>
      io_inv contents valid (new_io inp x) \<and>
      (Disconnected d \<in> set (lifecycle (core w')) \<longleftrightarrow> Disconnected d \<in> set (lifecycle (core w)))"
  proof (cases "port_handle inp = - 1")
    case True
    define wk where "wk = wf\<lparr>keys := (keys w)(key_cell inp \<mapsto> (actorId s1, threadId s1)), registered := registered w\<rparr>"
    have st: "store_session p s0 (DecreaseIOCount s1) wk = Some w'"
      using e True unfolding wk_def over by (simp add: enter_session_def Let_def s0_def s1_def)
    have skp: "sess wk p = Some s0" by (simp add: wk_def sf)
    note S = store_session_world [OF okk skp [unfolded wk_def] op_ok_trans [OF op1 op_ok_Decrease] st [unfolded wk_def]]
    note F = store_session_facts [OF st]
    have "x = DecreaseIOCount s1" using F(1) x by simp
    moreover have "sess wk = (sess w)(p \<mapsto> s0)" "core wk = core wf" by (simp_all add: wk_def wf_def)
    ultimately show ?thesis
      using S F(1,8) lf True accepted_io(1) [OF c q s1_def [unfolded s0_def]]
        rtranclp_trans [of reg_step, OF fresh(2)]
      by (simp add: ins'_def)
  next
    case False
    define s2 where "s2 = snd (SendMessage_bind created [] s1)"
    define s4 where "s4 = DecreaseIOCount (snd (DoRecv R (recv_result inp) s2))"
    define wk where "wk = wf\<lparr>keys := (keys w)(key_cell inp \<mapsto> (actorId s1, threadId s1)),
        registered := registered w @ [(sk, key_cell inp)]\<rparr>"
    obtain w3 srv where w3: "store_session p s0 s2 wk = Some w3" and srv: "InsertSession p (core w3) = Some srv"
      and st: "store_session p s2 s4 (w3\<lparr>core := log_event (ActorCreated p) srv\<rparr>) = Some w'"
      using e False unfolding wk_def over
      by (auto simp: enter_session_def Let_def s0_def s1_def s2_def s4_def split: option.splits)
    have skp: "sess wk p = Some s0" by (simp add: wk_def sf)
    have op2: "op_ok s0 s2" using op_ok_trans [OF op1 SendMessage_bind_session(1)] by (simp add: s2_def)
    note S3 = store_session_world [OF okk skp [unfolded wk_def] op2 w3 [unfolded wk_def]]
    note F3 = store_session_facts [OF w3]
    have x3: "sess w3 p = Some s2" using F3(1) by simp
    have cnt: "ioCount s2 = ioCount s1" "ioCount s1 = 1"
      by (simp_all add: s2_def SendMessage_bind_session s1_def s0_def IncreaseIOCount_def Session_ctor_def actor.extend_def)
    have pi: "p \<notin> ins" using world_okD(1) [OF ok] p by (auto simp: reg_inv_def)
    note I = insert_session_world [OF S3(1) x3 _ pi srv]
    have pos: "0 < ioCount s2" using cnt by simp
    define w4 where "w4 = w3\<lparr>core := log_event (ActorCreated p) srv\<rparr>"
    have x4: "sess w4 p = Some s2" by (simp add: w4_def x3)
    have op4: "op_ok s2 s4" unfolding s4_def by (rule op_ok_trans [OF op_ok_DoRecv op_ok_Decrease])
    note S4 = store_session_world [OF I(1) [OF pos, folded w4_def] x4 op4 st [folded w4_def]]
    note F4 = store_session_facts [OF st]
    have "x = s4" using F4(1) x by simp
    moreover have "sess w' = (sess w)(p \<mapsto> s4)" using F4(1) F3(1) by (simp add: wk_def wf_def)
    moreover have "lifecycle srv = lifecycle (core w3)"
      using srv by (auto simp: InsertSession_def Let_def split: option.splits if_splits)
    then have "Disconnected d \<in> set (lifecycle (core w')) \<longleftrightarrow> Disconnected d \<in> set (lifecycle (core w))"
      using F4(8) [of d] F3(8) [of d] lf by (simp add: log_event_def wk_def)
    moreover have "io_inv contents valid (new_io inp s4)"
      unfolding s4_def
      by (rule accepted_io(2) [OF c q s1_def [unfolded s0_def] False])
         (simp_all add: s2_def SendMessage_bind_session, simp add: s1_def s0_def IncreaseIOCount_def Session_ctor_def actor.extend_def)
    moreover have "reg_step\<^sup>*\<^sup>* \<lparr>reg_sys.core = core w, idGen = g, inserted = ins\<rparr>
        \<lparr>reg_sys.core = core w', idGen = g', inserted = insert p ins\<rparr>"
    proof -
      have "core wk = core wf" by (simp add: wk_def)
      with S3(2) have "reg_step\<^sup>*\<^sup>* \<lparr>reg_sys.core = core wf, idGen = g', inserted = ins\<rparr>
          \<lparr>reg_sys.core = core w3, idGen = g', inserted = ins\<rparr>" by (simp add: wk_def)
      from rtranclp_trans [OF rtranclp_trans [OF rtranclp_trans [OF _ this] I(2) [OF pos, folded w4_def]] S4(2)]
        fresh(2) show ?thesis by blast
    qed
    ultimately show ?thesis using S4(1) False by (simp add: ins'_def)
  qed
  then show "world_ok g' ins' w'"
    and "reg_step\<^sup>*\<^sup>* \<lparr>reg_sys.core = core w, idGen = g, inserted = ins\<rparr>
      \<lparr>reg_sys.core = core w', idGen = g', inserted = ins'\<rparr>"
    and "sess w' = (sess w)(p \<mapsto> x)" and "io_inv contents valid (new_io inp x)"
    and "Disconnected d \<in> set (lifecycle (core w')) \<longleftrightarrow> Disconnected d \<in> set (lifecycle (core w))"
    by auto
qed

subsection \<open>A release thread at work\<close>

lemma fold_Freed_actor: "actor.truncate (fold (\<lambda>b. log_io (Freed b)) bs x) = actor.truncate x"
  by (induction bs arbitrary: x) (simp_all add: log_io_def actor.defs)

lemma truncate_updates:
  "actor.truncate (x\<lparr>bufferCount := n\<rparr>) = actor.truncate x" "actor.truncate (x\<lparr>sendQueue := q\<rparr>) = actor.truncate x"
  "actor.truncate (x\<lparr>sock := k\<rparr>) = actor.truncate x" "actor.truncate (x\<lparr>recvStoredQueue := q\<rparr>) = actor.truncate x"
  "actor.truncate (log_io e x) = actor.truncate x"
  by (simp_all add: actor.defs log_io_def)

lemma OnDisconnected_actor: "OnDisconnected RQ Q x = Some y \<Longrightarrow> actor.truncate y = actor.truncate x"
  by (auto simp: OnDisconnected_def Let_def fold_Freed_actor truncate_updates split: option.splits prod.splits)

text \<open>On the registry it is the loop of \<open>ServerRegistry\<close>.\<close>

lemma net_release_loop_core:
  "net_release_loop RQ Q q w = Some w' \<Longrightarrow> release_loop q (core w) = Some (core w')"
  by (induction RQ Q q w rule: net_release_loop.induct) (auto split: option.splits)

lemma release_loop_shrinks:
  "release_loop q srv = Some srv' \<Longrightarrow>
     length (sessionMap srv') = length (sessionMap srv) \<and> set (sessionMap srv' ! u) \<subseteq> set (sessionMap srv ! u) \<and>
     releaseThreadsQueue srv' = releaseThreadsQueue srv \<and> set (lifecycle srv) \<subseteq> set (lifecycle srv')"
proof (induction q srv rule: release_loop.induct)
  case (2 i t q srv)
  show ?case
  proof (cases "\<exists>p. FindSession i t srv = Some (Some p)")
    case False
    with 2 show ?thesis by (auto split: option.splits)
  next
    case True
    then obtain p srv1 where p: "FindSession i t srv = Some (Some p)" "EraseSession i t srv = Some srv1"
      "release_loop q (log_event (Disconnected p) srv1) = Some srv'"
      using 2(3) by (auto split: option.splits)
    have s1: "srv1 = srv\<lparr>sessionMap := (sessionMap srv)[unat t := umap_erase i (sessionMap srv ! unat t)],
        numOfUser := numOfUser srv - 1\<rparr>" "unat t < length (sessionMap srv)"
      using p(2) by (auto simp: EraseSession_def in_range_def split: if_splits)
    have "set (sessionMap srv1 ! u) \<subseteq> set (sessionMap srv ! u)"
      using s1 by (cases "u = unat t") (auto simp: set_umap_erase)
    with 2(2) [OF p(1) _ p(2) p(3)] s1(1) show ?thesis by (auto simp: log_event_def)
  qed
qed simp

text \<open>The session objects: only disconnected ones change, and their actor part stays.\<close>

lemma net_release_loop_sess:
  assumes "net_release_loop RQ Q q w = Some w'"
  shows "map_option actor.truncate (sess w' p) = map_option actor.truncate (sess w p) \<and> objs (core w') = objs (core w) \<and>
    (sess w' p \<noteq> sess w p \<longrightarrow> Disconnected p \<in> set (lifecycle (core w')))"
  using assms
proof (induction RQ Q q w rule: net_release_loop.induct)
  case (2 RQ Q i t q w)
  show ?case
  proof (cases "\<exists>r. FindSession i t (core w) = Some (Some r)")
    case False
    with 2 show ?thesis by (auto split: option.splits)
  next
    case True
    then obtain r c x y where r: "FindSession i t (core w) = Some (Some r)" "EraseSession i t (core w) = Some c"
      "sess w r = Some x" "OnDisconnected RQ Q x = Some y"
      and l: "net_release_loop RQ Q q (w\<lparr>core := log_event (Disconnected r) c, sess := (sess w)(r \<mapsto> y)\<rparr>) = Some w'"
      using 2(3) by (auto split: option.splits)
    note IH = 2(2) [OF r(1) _ r(2,3,4) l]
    have "Disconnected r \<in> set (lifecycle (core w'))"
      using release_loop_shrinks [OF net_release_loop_core [OF l]] by (auto simp: log_event_def)
    moreover have "objs c = objs (core w)" using r(2) by (auto simp: EraseSession_def split: if_splits)
    ultimately show ?thesis
      using IH OnDisconnected_actor [OF r(4)] r(3) by (cases "p = r") (auto simp: log_event_def)
  qed
qed simp

lemma net_release_iteration_split:
  assumes "net_release_iteration RQ Q t w = Some w'"
  obtains w1 where "net_release_loop RQ Q (releaseThreadsQueue (core w) ! unat t)
      (w\<lparr>core := (core w)\<lparr>releaseEvents := (releaseEvents (core w))[unat t := False]\<rparr>\<rparr>) = Some w1"
    and "w' = w1\<lparr>core := (core w1)\<lparr>releaseThreadsQueue := (releaseThreadsQueue (core w1))[unat t := []]\<rparr>\<rparr>"
    and "unat t < length (releaseThreadsQueue (core w))"
  using assms by (auto simp: net_release_iteration_def in_range_def split: if_splits)

lemma net_release_iteration_core:
  assumes "net_release_iteration RQ Q t w = Some w'"
  shows "release_iteration t ReleaseSignalled (core w) = Some (core w')"
  using assms by (rule net_release_iteration_split)
    (auto simp: release_iteration_def in_range_def dest: net_release_loop_core)

lemma bucket_FindSession:
  assumes "reg_ok g ins srv" and "u < length (sessionMap srv)" and "e \<in> set (sessionMap srv ! u)" and "unat t = u"
  shows "FindSession (fst e) t srv = Some (Some (snd e))"
  using umap_find_Some_iff [OF buckets_okD(1) [OF reg_okD(5) [OF assms(1)] assms(2)], of "fst e" "snd e"] assms
  by (simp add: FindSession_def in_range_def)

lemma release_world:
  assumes ok: "world_ok g ins w" and w': "net_release_iteration RQ Q t w = Some w'"
    and t: "unat t < unat (numOfLogicThread (core w))"
  shows "world_ok g ins w'"
    and "reg_step \<lparr>reg_sys.core = core w, idGen = g, inserted = ins\<rparr> \<lparr>reg_sys.core = core w', idGen = g, inserted = ins\<rparr>"
    and "sess w' p \<noteq> sess w p \<Longrightarrow> Disconnected p \<in> set (lifecycle (core w'))"
    and "Disconnected p \<in> set (lifecycle (core w)) \<Longrightarrow> Disconnected p \<in> set (lifecycle (core w'))"
    and "FindSession i t (core w) = Some (Some q) \<Longrightarrow> (i, t) \<in> set (releaseThreadsQueue (core w) ! unat t) \<Longrightarrow>
      Disconnected q \<in> set (lifecycle (core w'))"
proof -
  note W = world_okD [OF ok]
  show step: "reg_step \<lparr>reg_sys.core = core w, idGen = g, inserted = ins\<rparr>
      \<lparr>reg_sys.core = core w', idGen = g, inserted = ins\<rparr>"
    using reg_step.release_thread [of t "\<lparr>reg_sys.core = core w, idGen = g, inserted = ins\<rparr>" "core w'"]
      net_release_iteration_core [OF w'] t by simp
  have reg': "reg_inv \<lparr>reg_sys.core = core w', idGen = g, inserted = ins\<rparr>" by (rule reg_step_inv [OF step W(1)])
  then have ok': "reg_ok g ins (core w')" by (simp add: reg_inv_def)
  define w0 where "w0 = w\<lparr>core := (core w)\<lparr>releaseEvents := (releaseEvents (core w))[unat t := False]\<rparr>\<rparr>"
  obtain w1 where l: "net_release_loop RQ Q (releaseThreadsQueue (core w) ! unat t) w0 = Some w1"
    and w'_eq: "w' = w1\<lparr>core := (core w1)\<lparr>releaseThreadsQueue := (releaseThreadsQueue (core w1))[unat t := []]\<rparr>\<rparr>"
    and lt: "unat t < length (releaseThreadsQueue (core w))"
    using net_release_iteration_split [OF w'] unfolding w0_def by metis
  note S = release_loop_shrinks [OF net_release_loop_core [OF l]] and T = net_release_loop_sess [OF l]
  show changed: "sess w' p \<noteq> sess w p \<Longrightarrow> Disconnected p \<in> set (lifecycle (core w'))" for p
    using T [of p] by (simp add: w'_eq w0_def)
  show "Disconnected p \<in> set (lifecycle (core w)) \<Longrightarrow> Disconnected p \<in> set (lifecycle (core w'))"
    using S by (auto simp: w'_eq w0_def)
  show gone: "Disconnected q \<in> set (lifecycle (core w'))"
    if "FindSession i t (core w) = Some (Some q)" "(i, t) \<in> set (releaseThreadsQueue (core w) ! unat t)" for i q
  proof -
    have "FindSession i t (core w0) = Some (Some q)" using that(1) by (simp add: w0_def FindSession_def split: if_splits)
    from release_loop_disconnects [OF net_release_loop_core [OF l] this that(2)] show ?thesis by (simp add: w'_eq)
  qed
  have "synced w'"
  proof -
    have objs: "objs (core w') = objs (core w)" using T by (simp add: w'_eq w0_def)
    have tr: "map_option actor.truncate (sess w' p) = map_option actor.truncate (sess w p)" for p
      using T [of p] by (simp add: w'_eq w0_def)
    show ?thesis
      unfolding synced_def
    proof (intro conjI allI impI)
      fix p x assume "sess w' p = Some x"
      with tr [of p] obtain y where "sess w p = Some y" "actor.truncate y = actor.truncate x"
        by (cases "sess w p") simp_all
      with syncedD [OF W(3)] objs
      show "objs (core w') p = Some \<lparr>act = actor.truncate x, kind = SessionKind, isTesterActor = False\<rparr>" by simp
    next
      fix p ob assume "objs (core w') p = Some ob \<and> kind ob = SessionKind"
      with objs W(3) have "sess w p \<noteq> None" unfolding synced_def by metis
      with tr [of p] show "sess w' p \<noteq> None" by auto
    qed
  qed
  moreover have "queue_placed (core w')"
    using W(4) S lt by (auto simp: queue_placed_def w'_eq w0_def nth_list_update)
  moreover have "idle_queued w'"
    unfolding idle_queued_def
  proof (intro allI impI ballI)
    fix u e z
    assume u': "u < length (sessionMap (core w'))" and e': "e \<in> set (sessionMap (core w') ! u)"
      and z: "sess w' (snd e) = Some z \<and> ioCount z \<le> 0"
    have u: "u < length (sessionMap (core w))" and e: "e \<in> set (sessionMap (core w) ! u)"
      using u' e' S [of u] by (auto simp: w'_eq w0_def)
    have nd: "Disconnected (snd e) \<notin> set (lifecycle (core w'))"
      using buckets_okD(2) [OF reg_okD(5) [OF ok'] u' e'] by (simp add: session_entry_def)
    then have "sess w' (snd e) = sess w (snd e)" using changed [of "snd e"] by blast
    with z have zs: "sess w (snd e) = Some z" by simp
    have q: "(actorId z, threadId z) \<in> set (releaseThreadsQueue (core w) ! u)"
      using W(5) u e zs z unfolding idle_queued_def by blast
    obtain x where "sess w (snd e) = Some x" "actorId x = fst e" "unat (threadId x) = u"
      using synced_entry [OF W(2,3) u e] by blast
    with zs have zi: "actorId z = fst e" "unat (threadId z) = u" by simp_all
    show "(actorId z, threadId z) \<in> set (releaseThreadsQueue (core w') ! u)"
    proof (cases "u = unat t")
      case True
      then have "threadId z = t" using zi(2) by (simp add: word_unat_eq_iff)
      with gone [of "fst e" "snd e"] bucket_FindSession [OF W(2) u e, of t] True q zi nd show ?thesis by simp
    next
      case False
      with q S show ?thesis by (simp add: w'_eq w0_def)
    qed
  qed
  ultimately show "world_ok g ins w'" using reg' by (simp add: world_ok_def)
qed

text \<open>
  The loop always gets through: what it finds are session objects whose \<open>OnDisconnected\<close> returns, with all
  their buffers freed.
\<close>

lemma net_release_loop_total:
  assumes Q: "lfq_contract Q contents valid" "lfq_contract RQ contents valid"
    and ok: "reg_ok g ins (core w)" and sy: "synced w"
    and live: "\<And>p x. sess w p = Some x \<Longrightarrow> Disconnected p \<notin> set (lifecycle (core w)) \<Longrightarrow>
      send_inv contents valid x (sent p)"
    and q: "\<forall>(i, t) \<in> set q. unat t < unat (numOfLogicThread (core w))"
  shows "\<exists>w'. net_release_loop RQ Q q w = Some w' \<and>
    (\<forall>p. Disconnected p \<in> set (lifecycle (core w)) \<longrightarrow> sess w' p = sess w p) \<and>
    (\<forall>p x. sess w' p = Some x \<and> Disconnected p \<in> set (lifecycle (core w')) \<and>
       Disconnected p \<notin> set (lifecycle (core w)) \<longrightarrow> freed (io_log x) = sent p \<and> sock x = INVALID_SOCKET)"
  using ok sy live q
proof (induction q arbitrary: w)
  case Nil
  then show ?case by simp
next
  case (Cons e q)
  obtain i t where e: "e = (i, t)" by (cases e)
  have lt: "unat t < unat (numOfLogicThread (core w))" using Cons(5) e by simp
  then have r: "in_range t (sessionMap (core w))" using reg_okD(1) [OF Cons(2)] by simp
  show ?case
  proof (cases "umap_find (sessionMap (core w) ! unat t) i")
    case None
    then have "FindSession i t (core w) = Some None" using r by (simp add: FindSession_def)
    with Cons.IH [OF Cons(2,3,4)] Cons(5) e show ?thesis by simp
  next
    case (Some p)
    then have f: "FindSession i t (core w) = Some (Some p)" using r by (simp add: FindSession_def)
    obtain c where c: "EraseSession i t (core w) = Some c" using r by (simp add: EraseSession_def)
    note F = FindSession_entry [OF Cons(2) f]
    have nd: "Disconnected p \<notin> set (lifecycle (core w))" using F(1) by (simp add: session_entry_def)
    obtain ob where "objs (core w) p = Some ob" "kind ob = SessionKind" using F(1) by (auto simp: session_entry_def)
    then obtain x where x: "sess w p = Some x" using Cons(3) unfolding synced_def by blast
    obtain y where y: "OnDisconnected RQ Q x = Some y" "freed (io_log y) = sent p" "sock y = INVALID_SOCKET"
      "actor.truncate y = actor.truncate x"
      using OnDisconnected_exact [OF Q Cons(4) [OF x nd]] by blast
    have cf: "objs c = objs (core w)" "lifecycle c = lifecycle (core w)" "numOfLogicThread c = numOfLogicThread (core w)"
      using c by (auto simp: EraseSession_def split: if_splits)
    define w1 where "w1 = w\<lparr>core := log_event (Disconnected p) c, sess := (sess w)(p \<mapsto> y)\<rparr>"
    have "reg_ok g ins (core w1)" using disconnect_ok [OF Cons(2) f c] by (simp add: w1_def)
    moreover have "synced w1"
      using Cons(3) x y(4) unfolding synced_def w1_def by (auto simp: log_event_def cf)
    moreover have "send_inv contents valid z (sent r)"
      if "sess w1 r = Some z" "Disconnected r \<notin> set (lifecycle (core w1))" for r z
      using that Cons(4) [of r z] by (auto simp: w1_def log_event_def cf split: if_splits)
    moreover have "\<forall>(i, t) \<in> set q. unat t < unat (numOfLogicThread (core w1))"
      using Cons(5) by (simp add: w1_def log_event_def cf)
    ultimately obtain w' where w': "net_release_loop RQ Q q w1 = Some w'"
      and kept: "\<And>r. Disconnected r \<in> set (lifecycle (core w1)) \<Longrightarrow> sess w' r = sess w1 r"
      and fin: "\<And>r z. sess w' r = Some z \<Longrightarrow> Disconnected r \<in> set (lifecycle (core w')) \<Longrightarrow>
        Disconnected r \<notin> set (lifecycle (core w1)) \<Longrightarrow> freed (io_log z) = sent r \<and> sock z = INVALID_SOCKET"
      using Cons.IH [of w1] by blast
    have lc: "Disconnected r \<in> set (lifecycle (core w1)) \<longleftrightarrow> r = p \<or> Disconnected r \<in> set (lifecycle (core w))" for r
      by (auto simp: w1_def log_event_def cf)
    have "net_release_loop RQ Q (e # q) w = Some w'" using f c x y(1) w' by (simp add: e w1_def)
    moreover have "sess w' r = sess w r" if "Disconnected r \<in> set (lifecycle (core w))" for r
      using kept [of r] that nd lc [of r] by (auto simp: w1_def)
    moreover have "freed (io_log z) = sent r \<and> sock z = INVALID_SOCKET"
      if z: "sess w' r = Some z" "Disconnected r \<in> set (lifecycle (core w'))"
        "Disconnected r \<notin> set (lifecycle (core w))" for r z
    proof (cases "r = p")
      case True
      then have "z = y" using kept [of p] lc [of p] z(1) by (simp add: w1_def)
      with y True show ?thesis by simp
    next
      case False
      with fin [OF z(1,2)] lc [of r] z(3) show ?thesis by blast
    qed
    ultimately show ?thesis by blast
  qed
qed

subsection \<open>Every step\<close>

lemma FindSession_live:
  assumes "reg_ok g ins srv" and "FindSession i t srv = Some (Some p)"
  shows "Disconnected p \<notin> set (lifecycle srv)"
  using FindSession_entry(1) [OF assms] by (simp add: session_entry_def)

text \<open>A step that leaves the sessions, the release queues and the lookups alone.\<close>

lemma other_world:
  assumes ok: "world_ok g ins w" and step: "reg_step \<lparr>reg_sys.core = core w, idGen = g, inserted = ins\<rparr>
      \<lparr>reg_sys.core = c, idGen = g', inserted = ins\<rparr>"
    and q: "releaseThreadsQueue c = releaseThreadsQueue (core w)" "length (sessionMap c) = length (sessionMap (core w))"
      "\<And>u. u < length (sessionMap (core w)) \<Longrightarrow> set (sessionMap c ! u) = set (sessionMap (core w) ! u)"
    and o: "\<And>p. objs (core w) p = None \<or> objs c p = objs (core w) p"
      "\<And>p ob. objs (core w) p = None \<Longrightarrow> objs c p = Some ob \<Longrightarrow> kind ob \<noteq> SessionKind"
  shows "world_ok g' ins (w\<lparr>core := c\<rparr>)"
proof -
  note W = world_okD [OF ok]
  have "synced (w\<lparr>core := c\<rparr>)"
    unfolding synced_def
  proof (intro conjI allI impI)
    fix p x assume "sess (w\<lparr>core := c\<rparr>) p = Some x"
    then show "objs (core (w\<lparr>core := c\<rparr>)) p = Some \<lparr>act = actor.truncate x, kind = SessionKind, isTesterActor = False\<rparr>"
      using syncedD [OF W(3)] o(1) [of p] by simp
  next
    fix p ob assume *: "objs (core (w\<lparr>core := c\<rparr>)) p = Some ob \<and> kind ob = SessionKind"
    then have "objs (core w) p = Some ob" using o(1) [of p] o(2) [of p ob] by (cases "objs (core w) p") auto
    with * W(3) show "sess (w\<lparr>core := c\<rparr>) p \<noteq> None" unfolding synced_def by simp
  qed
  moreover have "queue_placed c" using W(4) by (simp add: queue_placed_def q)
  moreover have "idle_queued (w\<lparr>core := c\<rparr>)" using W(5) by (auto simp: idle_queued_def q)
  ultimately show ?thesis using reg_step_inv [OF step W(1)] by (simp add: world_ok_def)
qed

lemma live_io_core:
  assumes "live_io contents valid s" and "sess w = sess (world s)"
    and "\<And>p. Disconnected p \<in> set (lifecycle (core w)) \<longleftrightarrow> Disconnected p \<in> set (lifecycle (core (world s)))"
  shows "live_io contents valid (s\<lparr>world := w, gen := g\<rparr>)" and "live_io contents valid (s\<lparr>world := w\<rparr>)"
  using assms by (simp_all add: live_io_def)

lemma register_facts:
  assumes "RegisterNonNetworkActor p srv = Some c"
  shows "releaseThreadsQueue c = releaseThreadsQueue srv" "sessionMap c = sessionMap srv" "objs c = objs srv"
    "Disconnected r \<in> set (lifecycle c) \<longleftrightarrow> Disconnected r \<in> set (lifecycle srv)"
  using assms by (auto simp: RegisterNonNetworkActor_def core_RegisterNonNetworkActor_def log_event_def
      split: option.splits if_splits)

lemma unregister_facts:
  assumes "UnregisterNonNetworkActor p srv = Some c"
  shows "releaseThreadsQueue c = releaseThreadsQueue srv" "sessionMap c = sessionMap srv" "objs c = objs srv"
    "Disconnected r \<in> set (lifecycle c) \<longleftrightarrow> Disconnected r \<in> set (lifecycle srv)"
  using assms by (auto simp: UnregisterNonNetworkActor_def core_UnregisterNonNetworkActor_def log_event_def
      Let_def split: option.splits if_splits)

lemma free_key_parts:
  "core (free_key k w) = core w" "sess (free_key k w) = sess w"
  by (simp_all add: free_key_def split: option.splits)

lemma net_key_freed:
  assumes inv: "net_inv contents valid s"
  shows "net_inv contents valid (s\<lparr>world := free_key k (world s)\<rparr>)"
    and "reg_view (s\<lparr>world := free_key k (world s)\<rparr>) = reg_view s"
proof -
  have "world_ok (gen s) (entered s) (world s)" using inv by (simp add: net_inv_def)
  then have "world_ok (gen s) (entered s) (free_key k (world s))"
    by (cases k) (simp_all add: free_key_def world_ok_keys)
  moreover have "live_io contents valid (s\<lparr>world := free_key k (world s)\<rparr>)"
    using inv by (simp add: net_inv_def live_io_def free_key_parts)
  ultimately show "net_inv contents valid (s\<lparr>world := free_key k (world s)\<rparr>)" by (simp add: net_inv_def)
qed (simp add: reg_view_def free_key_parts)

lemma net_step_sound:
  assumes c: "lfq_contract Q contents valid" and e: "valid q0" "contents q0 = []"
    and step: "net_step nb R Q RQ q0 s t" and inv: "net_inv contents valid s"
  shows "net_inv contents valid t \<and> reg_step\<^sup>*\<^sup>* (reg_view s) (reg_view t)"
proof -
  have ok: "world_ok (gen s) (entered s) (world s)" and live: "live_io contents valid s"
    using inv by (simp_all add: net_inv_def)
  note W = world_okD [OF ok]
  from step show ?thesis
  proof (cases rule: net_step.cases)
    case (accept p a g created inp handlers clientSock ring0 w x)
    note E = enter_session_world [OF c e ok accept(2,3,4,5,6)]
    have "live_io contents valid t"
      unfolding live_io_def accept(1)
    proof (intro allI impI)
      fix q z assume z: "sess (world \<lparr>world = w, gen = g, entered = if port_handle inp = - 1 then entered s else insert p (entered s),
            ios = (ios s)(p := new_io inp x)\<rparr>) q = Some z \<and> Disconnected q \<notin> set (lifecycle (core (world
          \<lparr>world = w, gen = g, entered = if port_handle inp = - 1 then entered s else insert p (entered s),
            ios = (ios s)(p := new_io inp x)\<rparr>)))"
      show "ses (ios \<lparr>world = w, gen = g, entered = if port_handle inp = - 1 then entered s else insert p (entered s),
            ios = (ios s)(p := new_io inp x)\<rparr> q) = z \<and> holds (ios \<lparr>world = w, gen = g,
            entered = if port_handle inp = - 1 then entered s else insert p (entered s),
            ios = (ios s)(p := new_io inp x)\<rparr> q) = 0 \<and> io_inv contents valid (ios \<lparr>world = w, gen = g,
            entered = if port_handle inp = - 1 then entered s else insert p (entered s),
            ios = (ios s)(p := new_io inp x)\<rparr> q)"
        using z E(3,4) E(5) [of q] live by (cases "q = p") (auto simp: live_io_def new_io_def)
    qed
    with E(1,2) show ?thesis by (simp add: accept(1) net_inv_def reg_view_def)
  next
    case (session_io i u p x y w)
    have nd: "Disconnected p \<notin> set (lifecycle (core (world s)))" by (rule FindSession_live [OF W(2) session_io(2)])
    with live session_io(3) have l: "ses (ios s p) = x" "io_inv contents valid (ios s p)" by (auto simp: live_io_def)
    have op: "op_ok x (ses y)" using op_ok_io_step [OF session_io(4)] l by simp
    note S = store_session_world [OF ok session_io(3) op session_io(6)] and F = store_session_facts [OF session_io(6)]
    have "io_inv contents valid y" by (rule io_step_inv [OF c session_io(4) l(2)])
    then have "live_io contents valid t" using live F(1,8) session_io(5) by (auto simp: live_io_def session_io(1))
    with S show ?thesis by (simp add: session_io(1) net_inv_def reg_view_def)
  next
    case (key_freed k)
    show ?thesis using net_key_freed [OF inv, of k] by (simp add: key_freed)
  next
    case (mailbox i u p x y sq cq w)
    have nd: "Disconnected p \<notin> set (lifecycle (core (world s)))" by (rule FindSession_live [OF W(2) mailbox(2)])
    with live mailbox(3) have l: "ses (ios s p) = x" "io_inv contents valid (ios s p)" "holds (ios s p) = 0"
      by (auto simp: live_io_def)
    have op: "op_ok x y" by (rule op_okI) (simp_all add: mailbox(4))
    note S = store_session_world [OF ok mailbox(3) op mailbox(5)] and F = store_session_facts [OF mailbox(5)]
    have "io_inv contents valid ((ios s p)\<lparr>ses := y, recvs_out := recvs_out (ios s p), holds := holds (ios s p)\<rparr>)"
      using l by (intro io_invI_view [OF l(2)]) (auto simp: mailbox(4) send_view_def io_inv_def send_inv_def)
    then have "io_inv contents valid ((ios s p)\<lparr>ses := y\<rparr>)" by simp
    then have "live_io contents valid t" using live F(1,8) l(3) by (auto simp: live_io_def mailbox(1))
    with S show ?thesis by (simp add: mailbox(1) net_inv_def reg_view_def)
  next
    case (release u w)
    note S = release_world [OF ok release(3,2)]
    have "live_io contents valid t"
      using live S(3,4) unfolding live_io_def release(1) by (simp del: not_None_eq) metis
    with S(1,2) show ?thesis by (auto simp: release(1) net_inv_def reg_view_def)
  next
    case (other_actor p k a g b)
    have st: "reg_step \<lparr>reg_sys.core = core (world s), idGen = gen s, inserted = entered s\<rparr>
      \<lparr>reg_sys.core = (core (world s))\<lparr>objs := (objs (core (world s)))(p \<mapsto> \<lparr>act = a, kind = k, isTesterActor = b\<rparr>)\<rparr>,
        idGen = g, inserted = entered s\<rparr>"
      using reg_step.construct [of "reg_view s" p a g k b] other_actor by (simp add: reg_view_def)
    have "world_ok g (entered s) ((world s)\<lparr>core := (core (world s))\<lparr>objs :=
        (objs (core (world s)))(p \<mapsto> \<lparr>act = a, kind = k, isTesterActor = b\<rparr>)\<rparr>\<rparr>)"
      by (rule other_world [OF ok st]) (use other_actor(3,4) in \<open>auto split: if_splits\<close>)
    then have "world_ok g (entered s) (world t)" by (simp add: other_actor(1))
    moreover have "live_io contents valid t"
      unfolding other_actor(1) by (rule live_io_core(1) [OF live]) simp_all
    ultimately show ?thesis using st by (auto simp: other_actor(1) net_inv_def reg_view_def)
  next
    case (register p ob c')
    note F = register_facts [OF register(4)]
    have st: "reg_step \<lparr>reg_sys.core = core (world s), idGen = gen s, inserted = entered s\<rparr>
      \<lparr>reg_sys.core = c', idGen = gen s, inserted = entered s\<rparr>"
      using reg_step.register_actor [of "reg_view s" p ob c'] register by (simp add: reg_view_def)
    have "world_ok (gen s) (entered s) ((world s)\<lparr>core := c'\<rparr>)" by (rule other_world [OF ok st]) (simp_all add: F)
    moreover have "live_io contents valid t" unfolding register(1) by (rule live_io_core(2) [OF live]) (simp_all add: F)
    ultimately show ?thesis using st by (auto simp: register(1) net_inv_def reg_view_def)
  next
    case (unregister p c')
    note F = unregister_facts [OF unregister(2)]
    have st: "reg_step \<lparr>reg_sys.core = core (world s), idGen = gen s, inserted = entered s\<rparr>
      \<lparr>reg_sys.core = c', idGen = gen s, inserted = entered s\<rparr>"
      using reg_step.unregister_actor [of p "reg_view s" c'] unregister by (simp add: reg_view_def)
    have "world_ok (gen s) (entered s) ((world s)\<lparr>core := c'\<rparr>)" by (rule other_world [OF ok st]) (simp_all add: F)
    moreover have "live_io contents valid t" unfolding unregister(1) by (rule live_io_core(2) [OF live]) (simp_all add: F)
    ultimately show ?thesis using st by (auto simp: unregister(1) net_inv_def reg_view_def)
  next
    case (reorder u m)
    let ?c = "(core (world s))\<lparr>sessionMap := (sessionMap (core (world s)))[u := m]\<rparr>"
    have st: "reg_step \<lparr>reg_sys.core = core (world s), idGen = gen s, inserted = entered s\<rparr>
      \<lparr>reg_sys.core = ?c, idGen = gen s, inserted = entered s\<rparr>"
      using reg_step.reorder_sessions [of u "reg_view s" m] reorder by (simp add: reg_view_def)
    have "set m = set (sessionMap (core (world s)) ! u)" using reorder(3) by (metis set_mset_mset)
    then have "world_ok (gen s) (entered s) ((world s)\<lparr>core := ?c\<rparr>)"
      using reorder(2) by (intro other_world [OF ok st]) (auto simp: nth_list_update)
    moreover have "live_io contents valid t" unfolding reorder(1) by (rule live_io_core(2) [OF live]) simp_all
    ultimately show ?thesis using st by (auto simp: reorder(1) net_inv_def reg_view_def)
  qed
qed

section \<open>Properties of every run of the composed system\<close>

lemma net_init_inv:
  assumes "net_init s"
  shows "net_inv contents valid s"
proof -
  have r: "reg_init \<lparr>reg_sys.core = core (world s), idGen = gen s, inserted = entered s\<rparr>"
    and w: "sess (world s) = Map.empty" using assms by (simp_all add: net_init_def)
  then show ?thesis using reg_init_inv [OF r]
    by (auto simp: net_inv_def world_ok_def live_io_def synced_def queue_placed_def idle_queued_def reg_init_def)
qed

lemma net_runs:
  assumes "lfq_contract Q contents valid" and "valid q0" and "contents q0 = []"
  shows "inductive_invariant net_init (net_step nb R Q RQ q0) (net_inv contents valid)"
proof
  fix s t assume "net_step nb R Q RQ q0 s t" and "net_inv contents valid s"
  then show "net_inv contents valid t" by (rule conjunct1 [OF net_step_sound [OF assms]])
qed (rule net_init_inv)

lemmas net_reach_inv = inductive_invariant.reach_inv [OF net_runs]

text \<open>
  C32. The composition refines the registry. Whatever the accept thread, the IO threads, the logic threads
  and the release threads do with the session objects, seen through \<open>reg_view\<close> the server is in a
  state the registries reach by their own steps: all that holds of every run of the registries, such as
  the exact user count and at most one \<open>OnDisconnected\<close> a session, holds of the whole server.
\<close>

theorem net_refines_registry:
  assumes c: "lfq_contract Q contents valid" and e: "valid q0" "contents q0 = []"
    and r: "reach net_init (net_step nb R Q RQ q0) s"
  shows "reach reg_init reg_step (reg_view s)"
  using r
proof (induction rule: reach.induct)
  case (reach_init s)
  then show ?case by (auto simp: net_init_def reg_view_def intro: reach.reach_init)
next
  case (reach_step s t)
  have "reg_step\<^sup>*\<^sup>* (reg_view s) (reg_view t)"
    using net_step_sound [OF c e reach_step(2) net_reach_inv [OF c e reach_step(1)]] by blast
  then show ?case by (rule reach_rtranclp [OF reach_step(3)])
qed

lemma found_session:
  assumes inv: "net_inv contents valid s" and f: "FindSession i t (core (world s)) = Some (Some p)"
  shows "\<exists>x. sess (world s) p = Some x \<and> actorId x = i \<and> threadId x = t \<and> ses (ios s p) = x \<and>
    ioCount x = int (sends_out (ios s p) + recvs_out (ios s p)) \<and>
    io_inv contents valid (ios s p) \<and>
    (sends_out (ios s p) + recvs_out (ios s p) = 0 \<longrightarrow> (i, t) \<in> set (releaseThreadsQueue (core (world s)) ! unat t))"
proof -
  have ok: "world_ok (gen s) (entered s) (world s)" and live: "live_io contents valid s"
    using inv by (simp_all add: net_inv_def)
  note W = world_okD [OF ok]
  have u: "unat t < length (sessionMap (core (world s)))" and e: "(i, p) \<in> set (sessionMap (core (world s)) ! unat t)"
    using f by (auto simp: FindSession_def in_range_def umap_find_def dest: map_of_SomeD split: if_splits)
  obtain x where x: "sess (world s) p = Some x" "actorId x = i" "unat (threadId x) = unat t"
    using synced_entry [OF W(2,3) u e] by auto
  then have t: "threadId x = t" by (simp add: word_unat_eq_iff)
  have io: "ses (ios s p) = x" "holds (ios s p) = 0" "io_inv contents valid (ios s p)"
    using live x(1) FindSession_live [OF W(2) f] by (auto simp: live_io_def)
  then have n: "ioCount x = int (sends_out (ios s p) + recvs_out (ios s p))" by (auto simp: io_inv_def)
  have "(i, t) \<in> set (releaseThreadsQueue (core (world s)) ! unat t)" if "sends_out (ios s p) + recvs_out (ios s p) = 0"
  proof -
    have "sess (world s) (snd (i, p)) = Some x \<and> ioCount x \<le> 0" using x(1) n that by simp
    with W(5) u e have "(actorId x, threadId x) \<in> set (releaseThreadsQueue (core (world s)) ! unat t)"
      unfolding idle_queued_def by blast
    then show ?thesis by (simp add: x(2) t)
  qed
  with x(1,2) t io n show ?thesis by (intro exI [of _ x] conjI) simp_all
qed

text \<open>
  C33. No session is forgotten. In every reachable state of the server a registered session has its
  object, with the ids it is registered under, and its reference count is the number of operations
  outstanding on its socket; a registered session on which nothing is outstanding any more has its
  release in the queue of the release thread of its own logic thread.
\<close>

theorem net_idle_session_queued:
  assumes "lfq_contract Q contents valid" and "valid q0" and "contents q0 = []"
    and "reach net_init (net_step nb R Q RQ q0) s" and "FindSession i t (core (world s)) = Some (Some p)"
  shows "\<exists>x. sess (world s) p = Some x \<and> actorId x = i \<and> threadId x = t \<and>
    ioCount x = int (sends_out (ios s p) + recvs_out (ios s p)) \<and>
    (sends_out (ios s p) + recvs_out (ios s p) = 0 \<longrightarrow> (i, t) \<in> set (releaseThreadsQueue (core (world s)) ! unat t))"
  using found_session [OF net_reach_inv [OF assms(1-4)] assms(5)] by (elim exE conjE) (intro exI conjI; assumption)

lemma release_shrinks:
  assumes "net_release_iteration RQ Q t w = Some w'"
  shows "length (sessionMap (core w')) = length (sessionMap (core w))"
    and "set (sessionMap (core w') ! u) \<subseteq> set (sessionMap (core w) ! u)"
proof -
  obtain w1 where l: "net_release_loop RQ Q (releaseThreadsQueue (core w) ! unat t)
      (w\<lparr>core := (core w)\<lparr>releaseEvents := (releaseEvents (core w))[unat t := False]\<rparr>\<rparr>) = Some w1"
    and w': "w' = w1\<lparr>core := (core w1)\<lparr>releaseThreadsQueue := (releaseThreadsQueue (core w1))[unat t := []]\<rparr>\<rparr>"
    using net_release_iteration_split [OF assms] by blast
  show "length (sessionMap (core w')) = length (sessionMap (core w))"
    and "set (sessionMap (core w') ! u) \<subseteq> set (sessionMap (core w) ! u)"
    using release_loop_shrinks [OF net_release_loop_core [OF l], of u] by (simp_all add: w')
qed

lemma release_keeps_sess:
  assumes "net_release_iteration RQ Q t w = Some w'" and "sess w p = Some x"
  shows "\<exists>y. sess w' p = Some y"
proof -
  obtain w1 where l: "net_release_loop RQ Q (releaseThreadsQueue (core w) ! unat t)
      (w\<lparr>core := (core w)\<lparr>releaseEvents := (releaseEvents (core w))[unat t := False]\<rparr>\<rparr>) = Some w1"
    and w': "w' = w1\<lparr>core := (core w1)\<lparr>releaseThreadsQueue := (releaseThreadsQueue (core w1))[unat t := []]\<rparr>\<rparr>"
    using net_release_iteration_split [OF assms(1)] by blast
  show ?thesis using net_release_loop_sess [OF l, of p] assms(2) by (cases "sess w1 p") (simp_all add: w')
qed

lemma release_iteration_total:
  assumes c: "lfq_contract Q contents valid" and c': "lfq_contract RQ contents valid"
    and inv: "net_inv contents valid s" and t: "unat t < unat (numOfLogicThread (core (world s)))"
  shows "\<exists>w'. net_release_iteration RQ Q t (world s) = Some w' \<and>
    (\<forall>p x. sess w' p = Some x \<and> Disconnected p \<in> set (lifecycle (core w')) \<and>
       Disconnected p \<notin> set (lifecycle (core (world s))) \<longrightarrow>
       freed (io_log x) = enqueued (ios s p) \<and> sock x = INVALID_SOCKET)"
proof -
  have ok: "world_ok (gen s) (entered s) (world s)" and live: "live_io contents valid s"
    using inv by (simp_all add: net_inv_def)
  note W = world_okD [OF ok]
  let ?w = "(world s)\<lparr>core := (core (world s))\<lparr>releaseEvents := (releaseEvents (core (world s)))[unat t := False]\<rparr>\<rparr>"
  have r: "unat t < length (releaseThreadsQueue (core (world s)))" using W(2) t by (simp add: reg_ok_def)
  have "reg_ok (gen s) (entered s) (core ?w)" using W(2)
    by (simp add: reg_ok_def queues_ok_def buckets_ok_def session_entry_def actor_entry_def)
  moreover have "synced ?w" using W(3) by (simp add: synced_def)
  moreover have "send_inv contents valid x (enqueued (ios s p))"
    if "sess ?w p = Some x" "Disconnected p \<notin> set (lifecycle (core ?w))" for p x
    using live that by (auto simp: live_io_def io_inv_def)
  moreover have "\<forall>(i, u) \<in> set (releaseThreadsQueue (core (world s)) ! unat t).
      unat u < unat (numOfLogicThread (core ?w))"
    using W(2) nth_mem [OF r] by (simp add: reg_ok_def queues_ok_def)
  ultimately obtain w1 where w1: "net_release_loop RQ Q (releaseThreadsQueue (core (world s)) ! unat t) ?w = Some w1"
    "\<forall>p x. sess w1 p = Some x \<and> Disconnected p \<in> set (lifecycle (core w1)) \<and>
       Disconnected p \<notin> set (lifecycle (core ?w)) \<longrightarrow> freed (io_log x) = enqueued (ios s p) \<and> sock x = INVALID_SOCKET"
    using net_release_loop_total [OF c c', of "gen s" "entered s" ?w "\<lambda>p. enqueued (ios s p)"] by blast
  then show ?thesis using r by (simp add: net_release_iteration_def in_range_def)
qed

lemma release_loop_erased:
  assumes ok: "reg_ok g ins srv'" and "unat t < length (sessionMap srv')"
    and sub: "set (sessionMap srv' ! unat t) \<subseteq> set (sessionMap srv ! unat t)"
    and old: "reg_ok g ins srv" and f: "FindSession i t srv = Some (Some p)"
    and d: "Disconnected p \<in> set (lifecycle srv')"
  shows "FindSession i t srv' = Some None"
proof (cases "umap_find (sessionMap srv' ! unat t) i")
  case None
  with assms(2) show ?thesis by (simp add: FindSession_def in_range_def)
next
  case (Some r)
  then have r: "FindSession i t srv' = Some (Some r)" using assms(2) by (simp add: FindSession_def in_range_def)
  note F = FindSession_entry [OF old f]
  have "(i, r) \<in> set (sessionMap srv ! unat t)" using umap_find_in_set [OF Some] sub by blast
  then have "umap_find (sessionMap srv ! unat t) i = Some r"
    using umap_find_Some_iff [OF buckets_okD(1) [OF reg_okD(5) [OF old] F(3)]] by simp
  with F(2) have "r = p" by simp
  with FindSession_entry(1) [OF ok r] d show ?thesis by (simp add: session_entry_def)
qed

text \<open>
  The pass of a release thread over its queue is defined: no lookup is out of range, no object is missing
  and no queue of a session fails. After it, every session of that thread on which nothing was
  outstanding is no longer found, its socket is closed, and every buffer ever queued on it has been freed
  exactly once and in order.
\<close>

lemma net_release_progress:
  assumes c: "lfq_contract Q contents valid" and c': "lfq_contract RQ contents valid"
    and inv: "net_inv contents valid s" and t: "unat t < unat (numOfLogicThread (core (world s)))"
  shows "\<exists>w'. net_release_iteration RQ Q t (world s) = Some w' \<and> net_step nb R Q RQ q0 s (s\<lparr>world := w'\<rparr>) \<and>
    (\<forall>i p. FindSession i t (core (world s)) = Some (Some p) \<and> sends_out (ios s p) + recvs_out (ios s p) = 0 \<longrightarrow>
       FindSession i t (core w') = Some None \<and>
       (\<exists>x. sess w' p = Some x \<and> sock x = INVALID_SOCKET \<and> freed (io_log x) = enqueued (ios s p)))"
proof -
  have ok: "world_ok (gen s) (entered s) (world s)" using inv by (simp add: net_inv_def)
  note W = world_okD [OF ok]
  obtain w' where w': "net_release_iteration RQ Q t (world s) = Some w'"
    and done1: "\<forall>p x. sess w' p = Some x \<and> Disconnected p \<in> set (lifecycle (core w')) \<and>
       Disconnected p \<notin> set (lifecycle (core (world s))) \<longrightarrow>
       freed (io_log x) = enqueued (ios s p) \<and> sock x = INVALID_SOCKET"
    using release_iteration_total [OF c c' inv t] by blast
  note S = release_world [OF ok w' t]
  note W' = world_okD [OF S(1)]
  have fin: "FindSession i t (core w') = Some None \<and>
      (\<exists>x. sess w' p = Some x \<and> sock x = INVALID_SOCKET \<and> freed (io_log x) = enqueued (ios s p))"
    if f: "FindSession i t (core (world s)) = Some (Some p)" and n: "sends_out (ios s p) + recvs_out (ios s p) = 0"
    for i p
  proof -
    obtain x where x: "sess (world s) p = Some x"
      and q: "(i, t) \<in> set (releaseThreadsQueue (core (world s)) ! unat t)"
      using found_session [OF inv f] n by blast
    have d: "Disconnected p \<in> set (lifecycle (core w'))" by (rule S(5) [OF f q])
    have nd: "Disconnected p \<notin> set (lifecycle (core (world s)))" by (rule FindSession_live [OF W(2) f])
    obtain y where y: "sess w' p = Some y" using release_keeps_sess [OF w' x] by blast
    have "FindSession i t (core w') = Some None"
      by (rule release_loop_erased [OF W'(2) _ _ W(2) f d]) (use release_shrinks [OF w'] FindSession_entry(3) [OF W(2) f] in auto)
    with y d nd done1 show ?thesis by blast
  qed
  have "net_step nb R Q RQ q0 s (s\<lparr>world := w'\<rparr>)" by (rule net_step.release [OF t w'])
  with w' show ?thesis by (intro exI [of _ w'] conjI [OF _ conjI]) (assumption, assumption, intro allI impI fin, simp_all)
qed

section \<open>From a completion to the end of the session\<close>

lemma carry_out_total:
  assumes "own_requests i t es" and "in_range t (releaseThreadsQueue srv)"
  shows "\<exists>srv'. carry_out p es srv = Some srv'"
  using assms
proof (induction p es srv rule: carry_out.induct)
  case (2 p j u es srv)
  then have u: "u = t" "own_requests i t es" by (simp_all add: own_requests_Cons(1))
  obtain c where c: "ReleaseSession j t srv = Some c" using 2(3) by (simp add: ReleaseSession_def)
  have "in_range t (releaseThreadsQueue c)" using 2(3) c by (auto simp: ReleaseSession_def in_range_def)
  with 2(1) [of c] c u show ?case by simp
qed (auto simp: log_event_def dest: own_requests_Cons(2))

text \<open>An operation of a session that is found can be carried out, and is a step of the server.\<close>

lemma net_session_step:
  assumes inv: "net_inv contents valid s" and f: "FindSession i t (core (world s)) = Some (Some p)"
    and x: "sess (world s) p = Some x" and y: "io_step nb R Q (ios s p) y" "holds y = 0"
  shows "\<exists>w. store_session p x (ses y) (world s) = Some w \<and>
    net_step nb R Q RQ q0 s (s\<lparr>world := w, ios := (ios s)(p := y)\<rparr>)"
proof -
  have ok: "world_ok (gen s) (entered s) (world s)" using inv by (simp add: net_inv_def)
  note W = world_okD [OF ok]
  obtain z where z: "sess (world s) p = Some z" "actorId z = i" "threadId z = t" "ses (ios s p) = z"
    using found_session [OF inv f] by blast
  with x have zx: "z = x" by simp
  have op: "op_ok x (ses y)" using op_ok_io_step [OF y(1)] z(4) zx by simp
  have own: "own_requests (actorId (ses y)) (threadId (ses y)) (drop (length (io_log x)) (io_log (ses y)))"
    by (rule op_ok_own [OF op])
  have th: "threadId (ses y) = t" using op z(3) zx by (simp add: op_ok_def)
  have "in_range t (releaseThreadsQueue (core (world s)))"
    using FindSession_entry(3) [OF W(2) f] W(2) by (simp add: reg_ok_def in_range_def)
  then have "in_range t (releaseThreadsQueue ((core (world s))\<lparr>objs := (objs (core (world s)))
      (p \<mapsto> \<lparr>act = actor.truncate (ses y), kind = SessionKind, isTesterActor = False\<rparr>)\<rparr>))" by simp
  from carry_out_total [OF own [unfolded th] this, of p] obtain w where w: "store_session p x (ses y) (world s) = Some w"
    by (auto simp: store_session_def)
  with net_step.session_io [OF f x y w] show ?thesis by blast
qed

lemma OnIoCompleted_no_bytes: "OnIoCompleted nb R Q result x ov 0 = Some (True, DecreaseIOCount x)"
  by (simp add: OnIoCompleted_def)

text \<open>
  The last receive of a session completes with no bytes, or fails: what the IO thread does is a step of
  the server that leaves nothing outstanding.
\<close>

lemma last_receive_step:
  assumes inv: "net_inv contents valid s" and f: "FindSession i t (core (world s)) = Some (Some p)"
    and out: "sends_out (ios s p) = 0" "recvs_out (ios s p) = 1"
    and cm: "\<not> succeeded cm \<or> transferred cm = 0"
  shows "\<exists>w y. complete_session nb R Q cm RecvOverlapped p (world s) = Some w \<and>
    net_step nb R Q RQ q0 s (s\<lparr>world := w, ios := (ios s)(p := y)\<rparr>) \<and>
    sends_out y = 0 \<and> recvs_out y = 0 \<and> enqueued y = enqueued (ios s p)"
proof -
  obtain x where x: "sess (world s) p = Some x" "ses (ios s p) = x" "io_inv contents valid (ios s p)"
    "ioCount x = int (sends_out (ios s p) + recvs_out (ios s p))"
    using found_session [OF inv f] by blast
  then have h: "holds (ios s p) = 0" by (simp add: io_inv_def)
  define y where "y = (ios s p)\<lparr>ses := DecreaseIOCount x, recvs_out := recvs_out (ios s p) - 1\<rparr>"
  have "io_step nb R Q (ios s p) y"
    unfolding y_def using out(2)
    by (intro io_step.recv_failed [where result = IoDone and ok = True]) (simp_all add: OnIoCompleted_no_bytes x(2))
  moreover have "holds y = 0" using h by (simp add: y_def)
  ultimately obtain w where w: "store_session p x (ses y) (world s) = Some w"
    "net_step nb R Q RQ q0 s (s\<lparr>world := w, ios := (ios s)(p := y)\<rparr>)"
    using net_session_step [OF inv f x(1)] by blast
  have "complete_session nb R Q cm RecvOverlapped p (world s) = Some w"
    using w(1) x(1) cm by (auto simp: complete_session_def OnIoCompleted_no_bytes y_def)
  with w(2) out show ?thesis by (intro exI [of _ w] exI [of _ y]) (simp add: y_def)
qed

lemma complete_session_lookup:
  assumes "complete_session nb R Q cm ov p w = Some w'"
  shows "FindSession i t (core w') = FindSession i t (core w)"
proof -
  obtain x y where "store_session p x y w = Some w'"
    using assms by (auto simp: complete_session_def split: option.splits if_splits)
  from store_session_facts(3) [OF this] show ?thesis by (simp add: FindSession_def)
qed

text \<open>No session is registered under the key that tells the IO threads to stop.\<close>

lemma session_not_close_key:
  assumes "reg_ok g ins srv" and "FindSession i t srv = Some (Some p)"
  shows "(i, t) \<noteq> IOCP_CLOSE_KEY"
proof -
  have "unat t < unat (numOfLogicThread srv)" using FindSession_entry(3) [OF assms] assms(1) by (simp add: reg_ok_def)
  moreover have "unat (numOfLogicThread srv) < 2 ^ 8" using unsigned_less [of "numOfLogicThread srv"] by simp
  moreover have "unat (- 1 :: u8) = 255" by code_simp
  ultimately have "t \<noteq> - 1" by auto
  then show ?thesis by (simp add: IOCP_CLOSE_KEY_def)
qed

text \<open>
  C34. A client that goes away leaves nothing behind, when it goes away while its connection is idle. In
  any reachable state of the server, let a registered session have its receive outstanding and no
  send, and let the receive complete with no bytes or fail, as it does when the client closes the
  connection. Let the completion's key be live when the IO thread reads it, after it has freed the key of its turn
  before: that is so for the first completion of the session that an IO thread handles
  (\<open>completion_key_used_after_free\<close>). Then the IO thread's turn and the next pass of the release thread are
  both defined, and after them the session is not found any more, its socket is closed, and every
  buffer ever queued for sending has been freed once; the state is again one the server can be in. With
  a send outstanding this can fail (\<open>SessionTeardown\<close>).
\<close>

theorem net_client_close:
  assumes c: "lfq_contract Q contents valid" and c': "lfq_contract RQ contents valid"
    and e: "valid q0" "contents q0 = []"
    and r: "reach net_init (net_step nb R Q RQ q0) s"
    and f: "FindSession i t (core (world s)) = Some (Some p)"
    and out: "sends_out (ios s p) = 0" "recvs_out (ios s p) = 1"
    and key: "completion_key cm = Some a" "keys (free_key old (world s)) a = Some (i, t)"
    and cm: "overlapped_ptr cm = Some RecvOverlapped" "\<not> succeeded cm \<or> transferred cm = 0"
  shows "\<exists>w w' x y. io_iteration nb R Q old cm (world s) = Some (Going (Some a, w)) \<and>
    net_release_iteration RQ Q t w = Some w' \<and> FindSession i t (core w') = Some None \<and>
    sess w' p = Some x \<and> sock x = INVALID_SOCKET \<and> freed (io_log x) = enqueued (ios s p) \<and>
    reach net_init (net_step nb R Q RQ q0) (s\<lparr>world := w', ios := (ios s)(p := y)\<rparr>)"
proof -
  define s0 where "s0 = s\<lparr>world := free_key old (world s)\<rparr>"
  have r0: "reach net_init (net_step nb R Q RQ q0) s0"
    unfolding s0_def by (rule reach_step [OF r net_step.key_freed])
  have inv: "net_inv contents valid s0" by (rule net_reach_inv [OF c e r0])
  have f0: "FindSession i t (core (world s0)) = Some (Some p)" using f by (simp add: s0_def free_key_parts)
  have reg0: "reg_ok (gen s0) (entered s0) (core (world s0))"
    by (rule world_okD(2)) (use inv in \<open>simp add: net_inv_def\<close>)
  have out0: "sends_out (ios s0 p) = 0" "recvs_out (ios s0 p) = 1" using out by (simp_all add: s0_def)
  obtain w y where w: "complete_session nb R Q cm RecvOverlapped p (world s0) = Some w"
    "net_step nb R Q RQ q0 s0 (s0\<lparr>world := w, ios := (ios s0)(p := y)\<rparr>)"
    and y: "sends_out y = 0" "recvs_out y = 0" "enqueued y = enqueued (ios s0 p)"
    using last_receive_step [OF inv f0 out0 cm(2)] by blast
  have io: "io_iteration nb R Q old cm (world s) = Some (Going (Some a, w))"
    using w(1) f0 key cm(1) session_not_close_key [OF reg0 f0] by (simp add: io_iteration_def s0_def)
  define s1 where "s1 = s0\<lparr>world := w, ios := (ios s0)(p := y)\<rparr>"
  have r1: "reach net_init (net_step nb R Q RQ q0) s1" unfolding s1_def by (rule reach_step [OF r0 w(2)])
  have inv1: "net_inv contents valid s1" by (rule net_reach_inv [OF c e r1])
  have f1: "FindSession i t (core (world s1)) = Some (Some p)"
    using complete_session_lookup [OF w(1)] f0 by (simp add: s1_def)
  have o1: "sends_out (ios s1 p) + recvs_out (ios s1 p) = 0" "enqueued (ios s1 p) = enqueued (ios s p)"
    using y by (simp_all add: s1_def s0_def)
  have reg: "reg_ok (gen s1) (entered s1) (core (world s1))" 
    by (rule world_okD(2)) (use inv1 in \<open>simp add: net_inv_def\<close>)
  have t: "unat t < unat (numOfLogicThread (core (world s1)))"
    using FindSession_entry(3) [OF reg f1] reg by (simp add: reg_ok_def)
  obtain w' where w': "net_release_iteration RQ Q t (world s1) = Some w'"
    and st: "net_step nb R Q RQ q0 s1 (s1\<lparr>world := w'\<rparr>)"
    and fin: "\<forall>i p. FindSession i t (core (world s1)) = Some (Some p) \<and> sends_out (ios s1 p) + recvs_out (ios s1 p) = 0 \<longrightarrow>
       FindSession i t (core w') = Some None \<and>
       (\<exists>x. sess w' p = Some x \<and> sock x = INVALID_SOCKET \<and> freed (io_log x) = enqueued (ios s1 p))"
    using net_release_progress [OF c c' inv1 t, of nb R q0] by blast
  from fin f1 o1 obtain x where x: "FindSession i t (core w') = Some None" "sess w' p = Some x"
    "sock x = INVALID_SOCKET" "freed (io_log x) = enqueued (ios s p)" by metis
  have "s1\<lparr>world := w'\<rparr> = s\<lparr>world := w', ios := (ios s)(p := y)\<rparr>" by (cases s) (simp add: s1_def s0_def)
  with reach_step [OF r1 st] have "reach net_init (net_step nb R Q RQ q0) (s\<lparr>world := w', ios := (ios s)(p := y)\<rparr>)" by simp
  moreover have "net_release_iteration RQ Q t w = Some w'" using w' by (simp add: s1_def)
  ultimately show ?thesis using io x by blast
qed

section \<open>A client connects and leaves\<close>

definition net0 :: "(nat, u8 list \<times> nat, (u8 list \<times> nat) list, u8 list \<times> u8 list) net_sys" where
  "net0 = \<lparr>world = \<lparr>core = server0 1, sess = Map.empty, keys = Map.empty, registered = [], close_posts = 0\<rparr>,
     gen = 0, entered = {}, ios = (\<lambda>_. new_io (client IoFailed) (Session_ctor (new_actor 0 0) 0 [] ([], [])))\<rparr>"

definition connected :: "(nat, u8 list \<times> nat, (u8 list \<times> nat) list, u8 list \<times> u8 list) net_sys" where
  "connected = (case enter_session list_ring 77 (client IoPending) 9 3 (Session_ctor (new_actor 1 0) 9 [] ([], [])) (world net0)
     of Some w \<Rightarrow> \<lparr>world = w, gen = 1, entered = {3}, ios = (ios net0)(3 := new_io (client IoPending) (the (sess w 3)))\<rparr>
      | None \<Rightarrow> net0)"

abbreviation sample_net_step where
  "sample_net_step \<equiv> net_step list_io list_ring list_lfq list_lfq []"

lemma connected_eq:
  "FindSession 1 0 (core (world connected)) = Some (Some 3)" "sends_out (ios connected 3) = 0"
  "recvs_out (ios connected 3) = 1" "enqueued (ios connected 3) = []"
  "keys (world connected) 5 = Some (1, 0)"
  by (simp_all add: connected_def net0_def accept_defs client_def Session_ctor_def new_actor_def new_io_def
      server0_def list_ring_def actor.defs FindSession_def umap_emplace_def umap_find_def successes_def)

lemma reach_connected: "reach net_init sample_net_step connected"
proof -
  let ?x0 = "Session_ctor (new_actor 1 0) 9 [] ([], [])"
  have "net_init net0" by (simp add: net_init_def net0_def reg_init_def server0_def)
  then have r: "reach net_init sample_net_step net0" by (rule reach_init)
  obtain w x where w: "enter_session list_ring 77 (client IoPending) 9 3 ?x0 (world net0) = Some w" "sess w 3 = Some x"
    by (simp add: net0_def accept_defs client_def Session_ctor_def new_actor_def
      server0_def list_ring_def actor.defs FindSession_def umap_emplace_def umap_find_def)
  have a: "Actor_ctor (numOfLogicThread (core (world net0))) (gen net0) = Some (new_actor 1 0, 1)"
    by (simp add: Actor_ctor_def GenerateActorId_def GetTargetThreadId_def net0_def server0_def)
  have "sample_net_step net0 \<lparr>world = w, gen = 1,
      entered = (if port_handle (client IoPending) = - 1 then entered net0 else insert 3 (entered net0)),
      ios = (ios net0)(3 := new_io (client IoPending) x)\<rparr>"
    by (rule net_step.accept [where handlers = "[]", OF _ _ a]) (use w in \<open>simp_all add: net0_def server0_def new_actor_def\<close>)
  also have "\<lparr>world = w, gen = 1,
      entered = (if port_handle (client IoPending) = - 1 then entered net0 else insert 3 (entered net0)),
      ios = (ios net0)(3 := new_io (client IoPending) x)\<rparr> = connected"
    using w by (simp add: connected_def client_def net0_def)
  finally show ?thesis using r by (blast intro: reach_step)
qed

theorem net_refines_registry_witness: "reach reg_init reg_step (reg_view connected)"
  by (rule net_refines_registry [OF list_lfq_contract _ _ reach_connected]) simp_all

theorem net_idle_session_queued_witness:
  "\<exists>x. sess (world connected) 3 = Some x \<and> actorId x = 1 \<and> ioCount x = 1"
  using net_idle_session_queued [OF list_lfq_contract _ _ reach_connected connected_eq(1)]
  by (auto simp: connected_eq)

theorem net_client_close_witness:
  "\<exists>w w'. io_iteration list_io list_ring list_lfq None closed (world connected) = Some (Going (Some 5, w)) \<and>
     net_release_iteration list_lfq list_lfq 0 w = Some w' \<and> FindSession 1 0 (core w') = Some None"
  using net_client_close [OF list_lfq_contract list_lfq_contract _ _ reach_connected connected_eq(1-3),
      where cm = closed and a = 5 and old = None] connected_eq(5)
  by (auto simp: closed_def free_key_def)

end
