(* ===== verification/LoggerModel.thy ===== *)
theory LoggerModel
  imports Prelude "HOL-Library.List_Lexorder" "HOL-Library.Char_ord"
begin

text \<open>
  The logger (\<open>Logger/Logger.h\<close>, \<open>Logger.cpp\<close>, \<open>LogClass.h\<close>, \<open>LogClass.cpp\<close>, \<open>LogExtension.h\<close>): the waiting queue,
  the worker thread with its two events, and the JSON line of a log object.

  JSON values are those the code builds; an object is a \<open>std::map\<close>, as in the JSON library. The calendar
  part of a time stamp is an argument. The worker runs in steps (wait, swap, write, sleep), interleaved
  with the callers of \<open>WriteLog\<close>. A null event handle is \<open>None\<close>: setting it has no effect.
\<close>

section \<open>Log objects\<close>

datatype json = JString string | JNumber int | JObject "(string \<times> json) list"

record log_object =
  loggingTime :: string
  lastErrorCode :: u32
  log_items :: "(string \<times> json) list"

text \<open>\<open>SET_LOG_ITEM\<close> and the assignments of \<open>ObjectToJsonImpl\<close> set keys of a fresh object.\<close>

definition set_item :: "string \<Rightarrow> json \<Rightarrow> (string \<times> json) list \<Rightarrow> (string \<times> json) list" where
  "set_item k v m = omap_emplace k v (umap_erase k m)"

definition ObjectToJson :: "log_object \<Rightarrow> json" where
  "ObjectToJson l = JObject (fold (\<lambda>(k, v). set_item k v) (log_items l) [])"

definition ObjectToJsonImpl :: "log_object \<Rightarrow> json" where
  "ObjectToJsonImpl l =
     JObject (set_item ''Log'' (ObjectToJson l)
       (set_item ''GetLastErrorCode'' (JNumber (uint (lastErrorCode l)))
         (set_item ''LogTime'' (JString (loggingTime l)) [])))"

definition StringLog :: "string \<Rightarrow> log_object" where
  "StringLog s = \<lparr>loggingTime = [], lastErrorCode = 0, log_items = [(''logString'', JString s)]\<rparr>"

definition SetLastErrorCode :: "u32 \<Rightarrow> log_object \<Rightarrow> log_object" where
  "SetLastErrorCode e l = l\<lparr>lastErrorCode := e\<rparr>"

text \<open>\<open>std::setfill('0') << std::setw(3)\<close> of the milliseconds of the current second.\<close>

definition digit :: "nat \<Rightarrow> char" where
  "digit n = char_of (48 + n mod 10)"

definition pad3 :: "nat \<Rightarrow> string" where
  "pad3 n = [digit (n div 100), digit (n div 10), digit n]"

definition SetLogTime :: "string \<Rightarrow> nat \<Rightarrow> log_object \<Rightarrow> log_object" where
  "SetLogTime calendar epoch_ms l = l\<lparr>loggingTime := calendar @ ''.'' @ pad3 (epoch_ms mod 1000)\<rparr>"

section \<open>The logger\<close>

datatype wake = LOG_HANDLE | STOP_HANDLE

datatype worker_pc = NotStarted | Waiting | Woken wake | Swapped wake | Sleeping | Ended

record logger =
  currentConnectedClientCount :: u16
  log_event :: "bool option"
  stop_event :: "bool option"
  logWaitingQueue :: "log_object list"
  copyLogWaitingQueue :: "log_object list"
  worker :: worker_pc
  printToConsole :: bool
  logFileStream :: "json list"
  console :: "json list"

definition Logger_ctor :: logger where
  "Logger_ctor = \<lparr>currentConnectedClientCount = 0, log_event = None, stop_event = None, logWaitingQueue = [],
     copyLogWaitingQueue = [], worker = NotStarted, printToConsole = False, logFileStream = [], console = []\<rparr>"

definition RunLoggerThread :: "bool \<Rightarrow> logger \<Rightarrow> logger" where
  "RunLoggerThread isAlsoPrintToConsole s =
     (let old = currentConnectedClientCount s; s1 = s\<lparr>currentConnectedClientCount := old + 1\<rparr>
      in if sint old > 0 then s1
         else s1\<lparr>printToConsole := isAlsoPrintToConsole, log_event := Some False, stop_event := Some False,
                 worker := Waiting\<rparr>)"

definition WriteLog :: "string \<Rightarrow> nat \<Rightarrow> log_object \<Rightarrow> logger \<Rightarrow> logger" where
  "WriteLog calendar epoch_ms l s =
     s\<lparr>logWaitingQueue := queue_push (SetLogTime calendar epoch_ms l) (logWaitingQueue s),
       log_event := map_option (\<lambda>_. True) (log_event s)\<rparr>"

definition WriteLogToFile :: "log_object \<Rightarrow> logger \<Rightarrow> logger" where
  "WriteLogToFile l s =
     (let j = ObjectToJsonImpl l; s1 = s\<lparr>logFileStream := logFileStream s @ [j]\<rparr>
      in if printToConsole s1 then s1\<lparr>console := console s1 @ [j]\<rparr> else s1)"

text \<open>\<open>logSize\<close> counts down while the front of the queue is written and popped.\<close>

fun write_loop :: "nat \<Rightarrow> log_object list \<Rightarrow> logger \<Rightarrow> log_object list \<times> logger" where
  "write_loop 0 q s = (q, s)"
| "write_loop (Suc n) q s = write_loop n (tl q) (WriteLogToFile (hd q) s)"

definition WriteLogImpl :: "logger \<Rightarrow> logger" where
  "WriteLogImpl s =
     (let q = copyLogWaitingQueue s; (q', s') = write_loop (length q) q s
      in s'\<lparr>copyLogWaitingQueue := q'\<rparr>)"

text \<open>
  \<open>StopLoggerThread\<close>: the part before the join, and whether the caller then joins. The counter is not
  decremented: \<open>fetch_sub(0)\<close>.
\<close>

definition StopLoggerThread :: "logger \<Rightarrow> bool \<times> logger" where
  "StopLoggerThread s =
     (if currentConnectedClientCount s \<noteq> 1 then (False, s)
      else (True, s\<lparr>stop_event := map_option (\<lambda>_. True) (stop_event s)\<rparr>))"

text \<open>
  \<open>Worker\<close>, one step at a time. \<open>WaitForMultipleObjects\<close> reports the first signalled handle and resets the
  log event, which is an auto-reset event; after the stop event the worker sleeps between the swap and
  the writing.
\<close>

fun worker_step :: "logger \<Rightarrow> logger option" where
  "worker_step s =
     (case worker s of
        Waiting \<Rightarrow>
          (if log_event s = Some True then Some (s\<lparr>log_event := Some False, worker := Woken LOG_HANDLE\<rparr>)
           else if stop_event s = Some True then Some (s\<lparr>worker := Woken STOP_HANDLE\<rparr>)
           else None)
      | Woken w \<Rightarrow> Some (s\<lparr>copyLogWaitingQueue := logWaitingQueue s, logWaitingQueue := copyLogWaitingQueue s,
                            worker := Swapped w\<rparr>)
      | Swapped LOG_HANDLE \<Rightarrow> Some ((WriteLogImpl s)\<lparr>worker := Waiting\<rparr>)
      | Swapped STOP_HANDLE \<Rightarrow> Some (s\<lparr>worker := Sleeping\<rparr>)
      | Sleeping \<Rightarrow> Some ((WriteLogImpl s)\<lparr>worker := Ended\<rparr>)
      | _ \<Rightarrow> None)"

declare worker_step.simps [simp del]

section \<open>Runs\<close>

text \<open>
  The callers and the worker; \<open>logged\<close> are the log objects of all calls of \<open>WriteLog\<close>, with their time
  stamps, \<open>early\<close> those still queued when the worker was started.
\<close>

record log_sys =
  lg :: logger
  logged :: "log_object list"
  early :: "log_object list"

inductive log_step :: "log_sys \<Rightarrow> log_sys \<Rightarrow> bool" where
  run: "worker (lg s) = NotStarted \<Longrightarrow> log_step s (s\<lparr>lg := RunLoggerThread b (lg s), early := logWaitingQueue (lg s)\<rparr>)"
| run_again: "sint (currentConnectedClientCount (lg s)) > 0 \<Longrightarrow> log_step s (s\<lparr>lg := RunLoggerThread b (lg s)\<rparr>)"
| write_log: "log_step s (s\<lparr>lg := WriteLog cal ms l (lg s), logged := logged s @ [SetLogTime cal ms l]\<rparr>)"
| stop: "log_step s (s\<lparr>lg := snd (StopLoggerThread (lg s))\<rparr>)"
| work: "worker_step (lg s) = Some x \<Longrightarrow> log_step s (s\<lparr>lg := x\<rparr>)"

definition log_init :: "log_sys \<Rightarrow> bool" where
  "log_init s \<longleftrightarrow> lg s = Logger_ctor \<and> logged s = [] \<and> early s = []"

section \<open>Facts\<close>

lemma WriteLogToFile_eq:
  "WriteLogToFile l s = s\<lparr>logFileStream := logFileStream s @ [ObjectToJsonImpl l],
     console := console s @ (if printToConsole s then [ObjectToJsonImpl l] else [])\<rparr>"
  by (cases s) (simp add: WriteLogToFile_def Let_def)

lemma write_loop_eq:
  "write_loop (length q) q s = ([], s\<lparr>logFileStream := logFileStream s @ map ObjectToJsonImpl q,
     console := console s @ (if printToConsole s then map ObjectToJsonImpl q else [])\<rparr>)"
  by (induction q arbitrary: s) (auto simp: WriteLogToFile_eq)

lemma WriteLogImpl_eq:
  "WriteLogImpl s = s\<lparr>logFileStream := logFileStream s @ map ObjectToJsonImpl (copyLogWaitingQueue s),
     console := console s @ (if printToConsole s then map ObjectToJsonImpl (copyLogWaitingQueue s) else []),
     copyLogWaitingQueue := []\<rparr>"
  by (simp add: WriteLogImpl_def write_loop_eq Let_def)

lemmas logger_defs = RunLoggerThread_def WriteLog_def StopLoggerThread_def WriteLogImpl_eq queue_push_def

text \<open>
  Nothing is lost or reordered between the callers, the two queues and the file; and a worker that has
  gone past its swap leaves no log object behind without a signalled event, apart from those queued before
  the worker existed, which nothing signals.
\<close>

fun taking :: "worker_pc \<Rightarrow> bool" where
  "taking (Woken w) = True" | "taking _ = False"

fun holding :: "worker_pc \<Rightarrow> bool" where
  "holding (Swapped w) = True" | "holding Sleeping = True" | "holding _ = False"

definition log_inv :: "log_sys \<Rightarrow> bool" where
  "log_inv s \<longleftrightarrow>
     logFileStream (lg s) @ map ObjectToJsonImpl (copyLogWaitingQueue (lg s) @ logWaitingQueue (lg s)) =
       map ObjectToJsonImpl (logged s) \<and>
     (\<not> holding (worker (lg s)) \<longrightarrow> copyLogWaitingQueue (lg s) = []) \<and>
     (worker (lg s) = NotStarted \<longrightarrow> log_event (lg s) = None \<and> logFileStream (lg s) = [] \<and>
        currentConnectedClientCount (lg s) = 0) \<and>
     (worker (lg s) \<noteq> NotStarted \<longrightarrow> log_event (lg s) \<noteq> None) \<and>
     (worker (lg s) \<noteq> NotStarted \<and> \<not> taking (worker (lg s)) \<and> log_event (lg s) = Some False \<longrightarrow>
        logWaitingQueue (lg s) = [] \<or> logWaitingQueue (lg s) = early s)"

lemma worker_step_inv:
  assumes "worker_step (lg s) = Some x" and "log_inv s"
  shows "log_inv (s\<lparr>lg := x\<rparr>)"
proof (cases "worker (lg s)")
  case (Swapped w)
  then show ?thesis using assms by (cases w) (auto simp: worker_step.simps log_inv_def WriteLogImpl_eq)
qed (use assms in \<open>auto simp: worker_step.simps log_inv_def WriteLogImpl_eq split: if_splits\<close>)

lemma log_step_inv: "log_step s t \<Longrightarrow> log_inv s \<Longrightarrow> log_inv t"
proof (induction rule: log_step.induct)
  case (run s b)
  then show ?case by (auto simp: log_inv_def RunLoggerThread_def Let_def)
next
  case (run_again s b)
  then have "worker (lg s) \<noteq> NotStarted" by (auto simp: log_inv_def)
  with run_again show ?case by (simp add: log_inv_def RunLoggerThread_def Let_def)
next
  case (write_log s cal ms l)
  then show ?case by (auto simp: log_inv_def WriteLog_def queue_push_def)
next
  case (stop s)
  then show ?case by (auto simp: log_inv_def StopLoggerThread_def)
next
  case (work s x)
  then show ?case by (rule worker_step_inv)
qed

interpretation log: inductive_invariant log_init log_step log_inv
  by (unfold_locales, simp add: log_init_def log_inv_def Logger_ctor_def, rule log_step_inv)

text \<open>
  C22. The log file is a prefix of what was logged, in order: together with the worker's copy and the
  waiting queue it is exactly the sequence of all log objects. When the worker waits with no event
  signalled, and nothing had been logged before it was started, every log object is in the file. Before the
  worker is started the file is empty.
\<close>

theorem logger_writes_in_order:
  assumes "reach log_init log_step s"
  shows "logFileStream (lg s) @ map ObjectToJsonImpl (copyLogWaitingQueue (lg s) @ logWaitingQueue (lg s)) =
      map ObjectToJsonImpl (logged s) \<and>
    (worker (lg s) = Waiting \<and> log_event (lg s) = Some False \<and> early s = [] \<longrightarrow>
      logFileStream (lg s) = map ObjectToJsonImpl (logged s)) \<and>
    (worker (lg s) = NotStarted \<longrightarrow> logFileStream (lg s) = [])"
proof -
  have inv: "log_inv s" using assms by (rule log.reach_inv)
  then have "logFileStream (lg s) = map ObjectToJsonImpl (logged s)"
    if "worker (lg s) = Waiting" "log_event (lg s) = Some False" "early s = []"
  proof -
    have "copyLogWaitingQueue (lg s) = []" "logWaitingQueue (lg s) = []"
      using inv that unfolding log_inv_def by auto
    with inv show ?thesis unfolding log_inv_def by simp
  qed
  with inv show ?thesis unfolding log_inv_def by blast
qed

section \<open>Logs lost when the logger stops\<close>

text \<open>Runs as lists of states, the last one first.\<close>

definition log_apply :: "(logger \<Rightarrow> logger) \<Rightarrow> log_sys \<Rightarrow> log_sys" where
  "log_apply f s = s\<lparr>lg := f (lg s)\<rparr>"

definition logger_at :: "worker_pc \<Rightarrow> bool \<Rightarrow> log_object list \<Rightarrow> json list \<Rightarrow> bool \<Rightarrow> logger" where
  "logger_at pc ev q file st = \<lparr>currentConnectedClientCount = 1, log_event = Some ev, stop_event = Some st,
     logWaitingQueue = q, copyLogWaitingQueue = [], worker = pc, printToConsole = False, logFileStream = file,
     console = []\<rparr>"

definition late :: log_object where
  "late = SetLogTime ''2025-01-01 00:00:00'' 5 (StringLog ''bye'')"

lemma logger_stop_run:
  "log_step\<^sup>*\<^sup>* \<lparr>lg = Logger_ctor, logged = [], early = []\<rparr>
     \<lparr>lg = logger_at Ended True [late] [] True, logged = [late], early = []\<rparr>"
proof -
  let ?s = "\<lambda>pc st. \<lparr>lg = logger_at pc False [] [] st, logged = [], early = []\<rparr>"
  have first: "log_step \<lparr>lg = Logger_ctor, logged = [], early = []\<rparr> (?s Waiting False)"
    using log_step.run [of "\<lparr>lg = Logger_ctor, logged = [], early = []\<rparr>" False]
    by (simp add: Logger_ctor_def RunLoggerThread_def logger_at_def)
  note r_into_rtranclp [of log_step, OF first]
  also have "log_step (?s Waiting False) (?s Waiting True)"
    using log_step.stop [of "?s Waiting False"] by (simp add: StopLoggerThread_def logger_at_def)
  also have "log_step (?s Waiting True) (?s (Woken STOP_HANDLE) True)"
    using log_step.work [of "?s Waiting True"] by (simp add: worker_step.simps logger_at_def)
  also have "log_step \<dots> (?s (Swapped STOP_HANDLE) True)"
    using log_step.work [of "?s (Woken STOP_HANDLE) True"] by (simp add: worker_step.simps logger_at_def)
  also have "log_step \<dots> (?s Sleeping True)"
    using log_step.work [of "?s (Swapped STOP_HANDLE) True"] by (simp add: worker_step.simps logger_at_def)
  also have "log_step \<dots> \<lparr>lg = logger_at Sleeping True [late] [] True, logged = [late], early = []\<rparr>"
    using log_step.write_log [of "?s Sleeping True" "''2025-01-01 00:00:00''" 5 "StringLog ''bye''"]
    by (simp add: WriteLog_def logger_at_def queue_push_def late_def)
  also have "log_step \<dots> \<lparr>lg = logger_at Ended True [late] [] True, logged = [late], early = []\<rparr>"
    using log_step.work [of "\<lparr>lg = logger_at Sleeping True [late] [] True, logged = [late], early = []\<rparr>"]
    by (simp add: worker_step.simps logger_at_def WriteLogImpl_eq)
  finally show ?thesis .
qed

text \<open>A worker that has ended writes nothing more.\<close>

lemma ended_silent:
  "log_step s t \<Longrightarrow> worker (lg s) = Ended \<Longrightarrow>
     worker (lg t) = Ended \<and> logFileStream (lg t) = logFileStream (lg s)"
  by (induction rule: log_step.induct)
     (auto simp: RunLoggerThread_def WriteLog_def StopLoggerThread_def worker_step.simps Let_def)

lemma ended_silent_steps:
  "log_step\<^sup>*\<^sup>* s t \<Longrightarrow> worker (lg s) = Ended \<Longrightarrow>
     worker (lg t) = Ended \<and> logFileStream (lg t) = logFileStream (lg s)"
  by (induction rule: rtranclp_induct) (auto dest: ended_silent)

text \<open>
  Log objects written during the ten seconds that the stopping worker sleeps are lost: the worker has
  taken the queue before it sleeps. There is a run after which a log object is in the queue, the worker
  has ended, and whatever happens then the file stays empty.
\<close>

theorem logger_loses_late_logs:
  "\<exists>s. reach log_init log_step s \<and> worker (lg s) = Ended \<and> logWaitingQueue (lg s) = [late] \<and>
     (\<lambda>t. logFileStream (lg t)) ` {t. log_step\<^sup>*\<^sup>* s t} = {[]}"
proof -
  define s where "s = \<lparr>lg = logger_at Ended True [late] [] True, logged = [late], early = []\<rparr>"
  have s: "worker (lg s) = Ended" "logFileStream (lg s) = []" "logWaitingQueue (lg s) = [late]"
    by (simp_all add: s_def logger_at_def)
  have "reach log_init log_step s"
    unfolding s_def by (rule reach_rtranclp [OF reach_init logger_stop_run]) (simp add: log_init_def)
  moreover have "(\<lambda>t. logFileStream (lg t)) ` {t. log_step\<^sup>*\<^sup>* s t} \<subseteq> {[]}"
    using ended_silent_steps [of s] s(1,2) by auto
  moreover have "[] \<in> (\<lambda>t. logFileStream (lg t)) ` {t. log_step\<^sup>*\<^sup>* s t}"
    using s(2) by (intro image_eqI [of _ _ s]) simp_all
  ultimately show ?thesis using s by blast
qed

text \<open>The lost object is still accounted for by the ordering property.\<close>

theorem logger_writes_in_order_witness:
  "map ObjectToJsonImpl [late] = [] @ map ObjectToJsonImpl ([] @ [late])"
proof -
  have "reach log_init log_step \<lparr>lg = logger_at Ended True [late] [] True, logged = [late], early = []\<rparr>"
    by (rule reach_rtranclp [OF reach_init logger_stop_run]) (simp add: log_init_def)
  from logger_writes_in_order [OF this] show ?thesis by (simp add: logger_at_def)
qed

text \<open>
  Other facts: the keys of a line are those of the log object in alphabetical order, and a time stamp ends with three
  digits. Once a second user has called \<open>RunLoggerThread\<close>, \<open>StopLoggerThread\<close> does nothing.
\<close>

lemma StringLog_line:
  "ObjectToJsonImpl (SetLogTime cal ms (StringLog s)) =
     JObject [(''GetLastErrorCode'', JNumber 0), (''Log'', JObject [(''logString'', JString s)]),
       (''LogTime'', JString (cal @ ''.'' @ pad3 (ms mod 1000)))]"
  by (simp add: ObjectToJsonImpl_def SetLogTime_def StringLog_def ObjectToJson_def set_item_def umap_erase_def
      less_char_def)

lemma StopLoggerThread_second_user:
  assumes "currentConnectedClientCount s = 1"
  shows "StopLoggerThread (RunLoggerThread b s) = (False, RunLoggerThread b s)"
  using assms by (simp add: StopLoggerThread_def RunLoggerThread_def Let_def)

end
