(* ===== verification/LogFiles.thy ===== *)
theory LogFiles
  imports LoggerModel
begin

text \<open>
  Time stamps and file names of the logger (\<open>Logger::Logger\<close>, \<open>CreateFolderIfNotExists\<close>,
  \<open>LogBase::SetLogTime\<close>): the calendar of \<open>gmtime_s\<close>, the formats of \<open>strftime\<close> and \<open>put_time\<close>, and what
  the constructor does on the disk. Times are seconds, or milliseconds, since the epoch. A call of
  \<open>g_Dump.Crash\<close>, which belongs to a submodule and ends the process, is \<open>None\<close>.
\<close>

section \<open>The calendar\<close>

definition leap :: "nat \<Rightarrow> bool" where
  "leap y \<longleftrightarrow> y mod 4 = 0 \<and> y mod 100 \<noteq> 0 \<or> y mod 400 = 0"

definition month_lengths :: "nat \<Rightarrow> nat list" where
  "month_lengths y = [31, if leap y then 29 else 28, 31, 30, 31, 30, 31, 31, 30, 31, 30, 31]"

definition year_days :: "nat \<Rightarrow> nat" where
  "year_days y = (if leap y then 366 else 365)"

lemma year_days_pos [simp]: "0 < year_days y"
  by (simp add: year_days_def)

function year_of :: "nat \<Rightarrow> nat \<Rightarrow> nat \<times> nat" where
  "year_of y d = (if d < year_days y then (y, d) else year_of (Suc y) (d - year_days y))"
  by pat_completeness auto

termination
proof (relation "measure snd", simp, clarsimp)
  fix y d assume "\<not> d < year_days y"
  with year_days_pos [of y] show "d - year_days y < d" by linarith
qed

declare year_of.simps [simp del]

fun month_of :: "nat list \<Rightarrow> nat \<Rightarrow> nat \<times> nat" where
  "month_of [] d = (0, d)"
| "month_of (l # ls) d = (if d < l then (0, d) else apfst Suc (month_of ls (d - l)))"

record tm =
  tm_year :: nat
  tm_mon :: nat
  tm_mday :: nat
  tm_hour :: nat
  tm_min :: nat
  tm_sec :: nat

definition gmtime :: "nat \<Rightarrow> tm" where
  "gmtime t =
     (let (y, yd) = year_of 1970 (t div 86400);
          (m, md) = month_of (month_lengths y) yd;
          s = t mod 86400
      in \<lparr>tm_year = y, tm_mon = m + 1, tm_mday = md + 1, tm_hour = s div 3600,
          tm_min = s div 60 mod 60, tm_sec = s mod 60\<rparr>)"

section \<open>Formats\<close>

fun pad :: "nat \<Rightarrow> nat \<Rightarrow> string" where
  "pad 0 n = []"
| "pad (Suc k) n = pad k (n div 10) @ [digit n]"

definition date_hour :: "string \<Rightarrow> tm \<Rightarrow> string" where
  "date_hour sep u = pad 4 (tm_year u) @ ''-'' @ pad 2 (tm_mon u) @ ''-'' @ pad 2 (tm_mday u) @ sep @ pad 2 (tm_hour u)"

definition log_file_name :: "nat \<Rightarrow> string" where
  "log_file_name t = ''Log Folder'' @ ''/log_'' @ date_hour ''_'' (gmtime t) @ ''.txt''"

definition put_time :: "tm \<Rightarrow> string" where
  "put_time u = date_hour '' '' u @ '':'' @ pad 2 (tm_min u) @ '':'' @ pad 2 (tm_sec u)"

definition log_time :: "nat \<Rightarrow> log_object \<Rightarrow> log_object" where
  "log_time ms = SetLogTime (put_time (gmtime (ms div 1000))) ms"

section \<open>The constructor\<close>

record log_disk =
  folder_exists :: bool
  log_files :: "(string, json list) umap"

definition CreateFolderIfNotExists :: "bool \<Rightarrow> log_disk \<Rightarrow> log_disk option" where
  "CreateFolderIfNotExists create_ok d =
     (if folder_exists d then Some d else if create_ok then Some (d\<lparr>folder_exists := True\<rparr>) else None)"

text \<open>The stream is opened for appending: a file that exists is kept, another one is created empty.\<close>

definition Logger_open :: "bool \<Rightarrow> bool \<Rightarrow> (string \<Rightarrow> bool) \<Rightarrow> nat \<Rightarrow> log_disk \<Rightarrow> (string \<times> log_disk) option" where
  "Logger_open create_ok gmtime_ok can_open t d =
     (case CreateFolderIfNotExists create_ok d of
        None \<Rightarrow> None
      | Some d1 \<Rightarrow>
          (if \<not> gmtime_ok then None
           else (let f = log_file_name t in
                 if can_open f then Some (f, d1\<lparr>log_files := umap_emplace f [] (log_files d1)\<rparr>) else None)))"

section \<open>Order\<close>

lemma less_append_eq_length:
  fixes xs ys :: "'a :: linorder list"
  assumes "length xs = length ys"
  shows "xs @ zs < ys @ ws \<longleftrightarrow> xs < ys \<or> xs = ys \<and> zs < ws"
  using assms by (induction xs ys rule: list_induct2) auto

lemma length_pad [simp]: "length (pad k n) = k"
  by (induction k n rule: pad.induct) simp_all

lemma digit_less: "digit a < digit b \<longleftrightarrow> a mod 10 < b mod 10" "digit a = digit b \<longleftrightarrow> a mod 10 = b mod 10"
proof -
  have "of_char (digit n) = 48 + n mod 10" for n :: nat
    by (simp add: digit_def of_char_of)
  then show "digit a < digit b \<longleftrightarrow> a mod 10 < b mod 10" "digit a = digit b \<longleftrightarrow> a mod 10 = b mod 10"
    by (auto simp: less_char_def dest: arg_cong [of "digit a" "digit b" "of_char :: char \<Rightarrow> nat"])
      (metis digit_def)
qed

lemma radix_less:
  fixes r s k a b :: nat
  assumes "r < k" and "s < k"
  shows "k * a + r < k * b + s \<longleftrightarrow> a < b \<or> a = b \<and> r < s"
proof (cases a b rule: linorder_cases)
  case less
  then have "k * Suc a \<le> k * b" by (intro mult_le_mono2) simp
  with assms less show ?thesis by simp
next
  case greater
  then have "k * Suc b \<le> k * a" by (intro mult_le_mono2) simp
  with assms greater show ?thesis by simp
qed simp

lemma mod_less_same_div:
  fixes a b k :: nat
  assumes "a div k = b div k" and "a < b"
  shows "a mod k < b mod k"
  using assms mult_div_mod_eq [of k a] mult_div_mod_eq [of k b] by (metis nat_add_left_cancel_less)

lemma pad_less:
  "a < 10 ^ k \<Longrightarrow> b < 10 ^ k \<Longrightarrow> pad k a < pad k b \<longleftrightarrow> a < b"
  "a < 10 ^ k \<Longrightarrow> b < 10 ^ k \<Longrightarrow> pad k a = pad k b \<longleftrightarrow> a = b"
proof (induction k arbitrary: a b)
  case 0
  { case 1 then show ?case by simp }
  { case 2 then show ?case by simp }
next
  case (Suc k)
  have b: "n div 10 < 10 ^ k" if "n < 10 ^ Suc k" for n :: nat using that by (simp add: less_mult_imp_div_less)
  have d: "m < n \<longleftrightarrow> m div 10 < n div 10 \<or> m div 10 = n div 10 \<and> m mod 10 < n mod 10"
    "m = n \<longleftrightarrow> m div 10 = n div 10 \<and> m mod 10 = n mod 10" for m n :: nat
    using radix_less [of "m mod 10" 10 "n mod 10" "m div 10" "n div 10"] by simp (metis div_mult_mod_eq)
  { case 1
    then show ?case using Suc [OF b b, of a b] d(1) [of a b] by (simp add: less_append_eq_length digit_less) }
  { case 2
    then show ?case using Suc [OF b b, of a b] d(2) [of a b] by (simp add: digit_less) }
qed

text \<open>The calendar: years, months and days in order, and their ranges.\<close>

lemma year_of_ge: "y \<le> fst (year_of y d)"
proof (induction y d rule: year_of.induct)
  case (1 y d)
  then show ?case by (subst year_of.simps) auto
qed

lemma year_of_rest: "snd (year_of y d) < year_days (fst (year_of y d))"
proof (induction y d rule: year_of.induct)
  case (1 y d)
  then show ?case by (subst (1 2) year_of.simps) auto
qed

lemma year_of_mono:
  "a < b \<Longrightarrow> fst (year_of y a) < fst (year_of y b) \<or>
     fst (year_of y a) = fst (year_of y b) \<and> snd (year_of y a) < snd (year_of y b)"
proof (induction y b arbitrary: a rule: year_of.induct)
  case (1 y b)
  show ?case
  proof (cases "b < year_days y")
    case True
    with 1(2) show ?thesis by (simp add: year_of.simps [of y])
  next
    case False
    show ?thesis
    proof (cases "a < year_days y")
      case True
      then have "year_of y a = (y, a)" by (simp add: year_of.simps)
      moreover have "Suc y \<le> fst (year_of y b)" using False year_of_ge [of "Suc y"] by (subst year_of.simps) simp
      ultimately show ?thesis by simp
    next
      case a: False
      then have "a - year_days y < b - year_days y" using 1(2) False by simp
      from 1(1) [OF False this] a False show ?thesis by (simp add: year_of.simps [of y])
    qed
  qed
qed

lemma year_of_bound: "d < 365 * n \<Longrightarrow> fst (year_of y d) < y + n"
proof (induction n arbitrary: y d)
  case (Suc n)
  show ?case
  proof (cases "d < year_days y")
    case False
    have "365 \<le> year_days y" by (simp add: year_days_def)
    then have "d - year_days y < 365 * n" using Suc.prems False by simp
    with Suc.IH [of "d - year_days y" "Suc y"] False show ?thesis by (subst year_of.simps) simp
  qed (simp add: year_of.simps)
qed simp

lemma month_of_mono:
  "a < b \<Longrightarrow> fst (month_of ls a) < fst (month_of ls b) \<or>
     fst (month_of ls a) = fst (month_of ls b) \<and> snd (month_of ls a) < snd (month_of ls b)"
proof (induction ls arbitrary: a b)
  case (Cons l ls)
  from Cons.IH [of "a - l" "b - l"] Cons.prems show ?case by auto
qed simp

lemma month_of_range:
  "d < sum_list ls \<Longrightarrow> fst (month_of ls d) < length ls \<and> snd (month_of ls d) < ls ! fst (month_of ls d)"
proof (induction ls arbitrary: d)
  case (Cons l ls)
  from Cons.IH [of "d - l"] Cons.prems show ?case by auto
qed simp

lemma sum_month_lengths: "sum_list (month_lengths y) = year_days y"
  by (simp add: month_lengths_def year_days_def)

lemma month_lengths_le: "m < 12 \<Longrightarrow> month_lengths y ! m \<le> 31"
  by (simp add: month_lengths_def less_Suc_eq numeral_eq_Suc, elim disjE, simp_all)

lemma gmtime_ranges:
  "tm_mon (gmtime t) \<le> 12" "tm_mday (gmtime t) \<le> 31" "tm_hour (gmtime t) < 24" "tm_min (gmtime t) < 60"
  "tm_sec (gmtime t) < 60"
proof -
  obtain y yd where y: "year_of 1970 (t div 86400) = (y, yd)" by fastforce
  obtain m md where m: "month_of (month_lengths y) yd = (m, md)" by fastforce
  have "yd < sum_list (month_lengths y)" using year_of_rest [of 1970 "t div 86400"] y by (simp add: sum_month_lengths)
  from month_of_range [OF this] have md: "m < 12" "md < month_lengths y ! m" using m by (simp_all add: month_lengths_def)
  with month_lengths_le [of m y] show "tm_mon (gmtime t) \<le> 12" "tm_mday (gmtime t) \<le> 31"
    by (simp_all add: gmtime_def y m Let_def)
  have "t mod 86400 < 86400" by simp
  then have "t mod 86400 div 3600 < 24" by (simp add: less_mult_imp_div_less)
  then show "tm_hour (gmtime t) < 24" "tm_min (gmtime t) < 60" "tm_sec (gmtime t) < 60"
    by (simp_all add: gmtime_def y m Let_def)
qed

text \<open>An earlier day has an earlier date.\<close>

lemma gmtime_day:
  assumes "a div 86400 < b div 86400"
  shows "tm_year (gmtime a) < tm_year (gmtime b) \<or>
    tm_year (gmtime a) = tm_year (gmtime b) \<and> (tm_mon (gmtime a) < tm_mon (gmtime b) \<or>
      tm_mon (gmtime a) = tm_mon (gmtime b) \<and> tm_mday (gmtime a) < tm_mday (gmtime b))"
proof -
  obtain y c where y: "year_of 1970 (a div 86400) = (y, c)" by fastforce
  obtain z d where z: "year_of 1970 (b div 86400) = (z, d)" by fastforce
  from year_of_mono [OF assms, of 1970] y z have "y < z \<or> y = z \<and> c < d" by simp
  with month_of_mono [of c d "month_lengths y"] show ?thesis
    by (auto simp: gmtime_def y z Let_def split: prod.splits)
qed

lemma date_hour_less:
  assumes "tm_year u < 10000" and "tm_year v < 10000"
    and "tm_mon u \<le> 12" "tm_mday u \<le> 31" "tm_hour u < 24" and "tm_mon v \<le> 12" "tm_mday v \<le> 31" "tm_hour v < 24"
  shows "date_hour sep u < date_hour sep v \<longleftrightarrow> tm_year u < tm_year v \<or>
      tm_year u = tm_year v \<and> (tm_mon u < tm_mon v \<or> tm_mon u = tm_mon v \<and> (tm_mday u < tm_mday v \<or>
        tm_mday u = tm_mday v \<and> tm_hour u < tm_hour v))"
    and "length (date_hour sep u) = length (date_hour sep v)"
proof -
  note p = pad_less [of "tm_year u" 4 "tm_year v"] pad_less [of "tm_mon u" 2 "tm_mon v"]
    pad_less [of "tm_mday u" 2 "tm_mday v"] pad_less [of "tm_hour u" 2 "tm_hour v"]
  have q: "pad 4 (tm_year u) < pad 4 (tm_year v) \<longleftrightarrow> tm_year u < tm_year v"
    "pad 4 (tm_year u) = pad 4 (tm_year v) \<longleftrightarrow> tm_year u = tm_year v"
    "pad 2 (tm_mon u) < pad 2 (tm_mon v) \<longleftrightarrow> tm_mon u < tm_mon v" "pad 2 (tm_mon u) = pad 2 (tm_mon v) \<longleftrightarrow> tm_mon u = tm_mon v"
    "pad 2 (tm_mday u) < pad 2 (tm_mday v) \<longleftrightarrow> tm_mday u < tm_mday v"
    "pad 2 (tm_mday u) = pad 2 (tm_mday v) \<longleftrightarrow> tm_mday u = tm_mday v"
    "pad 2 (tm_hour u) < pad 2 (tm_hour v) \<longleftrightarrow> tm_hour u < tm_hour v"
    using assms p by simp_all
  show "date_hour sep u < date_hour sep v \<longleftrightarrow> tm_year u < tm_year v \<or>
      tm_year u = tm_year v \<and> (tm_mon u < tm_mon v \<or> tm_mon u = tm_mon v \<and> (tm_mday u < tm_mday v \<or>
        tm_mday u = tm_mday v \<and> tm_hour u < tm_hour v))"
    by (simp add: date_hour_def less_append_eq_length q)
  show "length (date_hour sep u) = length (date_hour sep v)" by (simp add: date_hour_def)
qed

lemma hour_of: "tm_hour (gmtime t) = t div 3600 mod 24" "t div 86400 = t div 3600 div 24"
proof -
  have "t mod 86400 div 3600 = t div 3600 mod 24"
    using mod_mult2_eq [of t 3600 24] by (simp add: div_add1_eq)
  then show "tm_hour (gmtime t) = t div 3600 mod 24" by (simp add: gmtime_def Let_def split: prod.splits)
  show "t div 86400 = t div 3600 div 24" by (simp add: div_mult2_eq [symmetric])
qed

lemma same_day: "a div 86400 = b div 86400 \<Longrightarrow> tm_year (gmtime a) = tm_year (gmtime b) \<and>
    tm_mon (gmtime a) = tm_mon (gmtime b) \<and> tm_mday (gmtime a) = tm_mday (gmtime b)"
  by (simp add: gmtime_def Let_def split: prod.splits)

lemma date_hour_sorted:
  assumes "tm_year (gmtime a) < 10000" and "tm_year (gmtime b) < 10000" and "a div 3600 < b div 3600"
  shows "date_hour sep (gmtime a) < date_hour sep (gmtime b)"
proof (cases "a div 86400 < b div 86400")
  case True
  from gmtime_day [OF this] show ?thesis using assms by (auto simp: date_hour_less gmtime_ranges)
next
  case False
  have "a div 3600 div 24 \<le> b div 3600 div 24" using assms(3) by (intro div_le_mono) simp
  with False have d: "a div 86400 = b div 86400" by (simp add: hour_of(2))
  then have "a div 3600 mod 24 < b div 3600 mod 24"
    using assms(3) unfolding hour_of(2) by (rule mod_less_same_div)
  with same_day [OF d] assms show ?thesis by (simp add: date_hour_less gmtime_ranges hour_of(1))
qed

lemma date_hour_same: "a div 3600 = b div 3600 \<Longrightarrow> date_hour sep (gmtime a) = date_hour sep (gmtime b)"
  using same_day [of a b] by (simp add: date_hour_def hour_of)

section \<open>Properties\<close>

text \<open>
  Log files by the hour: loggers constructed in the same hour open the same file, which is kept and
  appended to; a logger of a later hour opens a file whose name comes later in the alphabet.
\<close>

theorem log_file_per_hour:
  assumes "tm_year (gmtime a) < 10000" and "tm_year (gmtime b) < 10000"
  shows "(log_file_name a = log_file_name b \<longleftrightarrow> a div 3600 = b div 3600) \<and>
    (log_file_name a < log_file_name b \<longleftrightarrow> a div 3600 < b div 3600)"
proof -
  let ?f = "\<lambda>t. date_hour ''_'' (gmtime t)"
  have len: "length (?f a) = length (?f b)" by (rule date_hour_less(2)) (use assms gmtime_ranges in simp_all)
  have eq: "log_file_name a = log_file_name b \<longleftrightarrow> ?f a = ?f b" by (simp add: log_file_name_def)
  have lt: "log_file_name a < log_file_name b \<longleftrightarrow> ?f a < ?f b"
    by (simp add: log_file_name_def less_append_eq_length [OF len])
  show ?thesis
  proof (cases "a div 3600" "b div 3600" rule: linorder_cases)
    case less
    from date_hour_sorted [OF assms less, of "''_''"] less show ?thesis unfolding eq lt by simp
  next
    case equal
    from date_hour_same [OF equal, of "''_''"] equal show ?thesis unfolding eq lt by simp
  next
    case greater
    from date_hour_sorted [OF assms(2,1) greater, of "''_''"] have "?f a \<noteq> ?f b" "\<not> ?f a < ?f b"
      by (auto dest: less_asym)
    with greater show ?thesis unfolding eq lt by simp
  qed
qed

text \<open>Opening keeps what the files hold, and crashes only for the three causes the code names.\<close>

theorem Logger_open_exact:
  "Logger_open create_ok gmtime_ok can_open t d =
     (if (folder_exists d \<or> create_ok) \<and> gmtime_ok \<and> can_open (log_file_name t)
      then Some (log_file_name t, d\<lparr>folder_exists := True,
        log_files := umap_emplace (log_file_name t) [] (log_files d)\<rparr>)
      else None)"
  by (cases d) (simp add: Logger_open_def CreateFolderIfNotExists_def Let_def)

text \<open>Time stamps sort like times, down to the millisecond.\<close>

lemma min_sec: "tm_min (gmtime t) = t div 60 mod 60" "tm_sec (gmtime t) = t mod 60" "t div 3600 = t div 60 div 60"
proof -
  have "t mod 86400 = t mod (60 * 1440)" by simp
  also have "\<dots> = 60 * (t div 60 mod 1440) + t mod 60" by (rule mod_mult2_eq)
  finally have e: "t mod 86400 = 60 * (t div 60 mod 1440) + t mod 60" .
  have "t div 60 mod 1440 = t div 60 mod (60 * 24)" by simp
  also have "\<dots> = 60 * (t div 60 div 60 mod 24) + t div 60 mod 60" by (rule mod_mult2_eq)
  finally have "t div 60 mod 1440 mod 60 = t div 60 mod 60" by simp
  with e show "tm_min (gmtime t) = t div 60 mod 60" "tm_sec (gmtime t) = t mod 60"
    by (simp_all add: gmtime_def Let_def split: prod.splits)
  show "t div 3600 = t div 60 div 60" by (simp add: div_mult2_eq [symmetric])
qed

lemma put_time_sorted:
  assumes "tm_year (gmtime a) < 10000" and "tm_year (gmtime b) < 10000" and "a < b"
  shows "put_time (gmtime a) < put_time (gmtime b)"
proof -
  have len: "length (date_hour '' '' (gmtime a)) = length (date_hour '' '' (gmtime b))"
    by (rule date_hour_less(2)) (use assms gmtime_ranges in simp_all)
  note p = pad_less [of "tm_min (gmtime a)" 2 "tm_min (gmtime b)"] pad_less [of "tm_sec (gmtime a)" 2 "tm_sec (gmtime b)"]
  have q: "pad 2 (tm_min (gmtime a)) < pad 2 (tm_min (gmtime b)) \<longleftrightarrow> tm_min (gmtime a) < tm_min (gmtime b)"
    "pad 2 (tm_min (gmtime a)) = pad 2 (tm_min (gmtime b)) \<longleftrightarrow> tm_min (gmtime a) = tm_min (gmtime b)"
    "pad 2 (tm_sec (gmtime a)) < pad 2 (tm_sec (gmtime b)) \<longleftrightarrow> tm_sec (gmtime a) < tm_sec (gmtime b)"
    using p gmtime_ranges(4,5) [of a] gmtime_ranges(4,5) [of b] by simp_all
  have ms: "tm_min (gmtime t) = t div 60 mod 60" "tm_sec (gmtime t) = t mod 60" "t div 3600 = t div 60 div 60" for t
    by (rule min_sec)+
  show ?thesis
  proof (cases "a div 3600 < b div 3600")
    case True
    from date_hour_sorted [OF assms(1,2) this] show ?thesis
      by (simp add: put_time_def less_append_eq_length [OF len])
  next
    case False
    have "a div 3600 \<le> b div 3600" using assms(3) by (intro div_le_mono) simp
    with False have h: "a div 3600 = b div 3600" by simp
    have "tm_min (gmtime a) < tm_min (gmtime b) \<or> tm_min (gmtime a) = tm_min (gmtime b) \<and> tm_sec (gmtime a) < tm_sec (gmtime b)"
    proof (cases "a div 60 = b div 60")
      case True
      from mod_less_same_div [OF this assms(3)] True show ?thesis by (simp add: ms)
    next
      case False
      have "a div 60 \<le> b div 60" using assms(3) by (intro div_le_mono) simp
      with False have "a div 60 < b div 60" by simp
      moreover have "a div 60 div 60 = b div 60 div 60" using h by (simp add: ms(3))
      ultimately show ?thesis using mod_less_same_div by (simp add: ms)
    qed
    with date_hour_same [OF h] show ?thesis by (simp add: put_time_def less_append_eq_length q)
  qed
qed

lemma pad3_eq: "pad3 n = pad 3 n"
  by (simp add: pad3_def numeral_3_eq_3 div_mult2_eq [symmetric])

lemma log_time_less:
  assumes "tm_year (gmtime (a div 1000)) < 10000" and "tm_year (gmtime (b div 1000)) < 10000" and "a < b"
  shows "loggingTime (log_time a l) < loggingTime (log_time b l')"
proof -
  let ?p = "\<lambda>t. put_time (gmtime (t div 1000))"
  have "length (date_hour '' '' (gmtime (a div 1000))) = length (date_hour '' '' (gmtime (b div 1000)))"
    by (rule date_hour_less(2)) (use assms gmtime_ranges in simp_all)
  then have len: "length (?p a) = length (?p b)" by (simp add: put_time_def)
  have t: "loggingTime (log_time a l) < loggingTime (log_time b l') \<longleftrightarrow>
      ?p a < ?p b \<or> ?p a = ?p b \<and> a mod 1000 < b mod 1000"
    by (simp add: log_time_def SetLogTime_def less_append_eq_length [OF len] pad3_eq pad_less)
  show ?thesis
  proof (cases "a div 1000 = b div 1000")
    case True
    with mod_less_same_div [OF True assms(3)] show ?thesis unfolding t by simp
  next
    case False
    have "a div 1000 \<le> b div 1000" using assms(3) by (intro div_le_mono) simp
    with False put_time_sorted [OF assms(1,2)] show ?thesis unfolding t by simp
  qed
qed

theorem log_times_sorted:
  assumes "tm_year (gmtime (a div 1000)) < 10000" and "tm_year (gmtime (b div 1000)) < 10000"
  shows "loggingTime (log_time a l) < loggingTime (log_time b l') \<longleftrightarrow> a < b"
proof (cases a b rule: linorder_cases)
  case less
  with log_time_less [OF assms less] show ?thesis by simp
next
  case equal
  then show ?thesis by (simp add: log_time_def SetLogTime_def)
next
  case greater
  with log_time_less [OF assms(2,1) greater, of l' l] show ?thesis by (auto dest: less_asym)
qed

text \<open>The epoch, and the last second of the year 1971.\<close>

lemma pad_numerals:
  "pad 2 n = [digit (n div 10), digit n]"
  "pad 4 n = [digit (n div 1000), digit (n div 100), digit (n div 10), digit n]"
proof -
  have n: "2 = Suc (Suc 0)" "4 = Suc (Suc (Suc (Suc 0)))" by simp_all
  show "pad 2 n = [digit (n div 10), digit n]" unfolding n(1) by simp
  show "pad 4 n = [digit (n div 1000), digit (n div 100), digit (n div 10), digit n]"
    unfolding n(2) by (simp add: div_mult2_eq [symmetric])
qed

lemma gmtime_examples:
  "gmtime 0 = \<lparr>tm_year = 1970, tm_mon = 1, tm_mday = 1, tm_hour = 0, tm_min = 0, tm_sec = 0\<rparr>"
  "gmtime 63071999 = \<lparr>tm_year = 1971, tm_mon = 12, tm_mday = 31, tm_hour = 23, tm_min = 59, tm_sec = 59\<rparr>"
  by (simp_all add: gmtime_def year_of.simps year_days_def leap_def month_lengths_def Let_def)

lemma log_file_name_example: "log_file_name 63071999 = ''Log Folder/log_1971-12-31_23.txt''"
  by (simp add: log_file_name_def date_hour_def gmtime_examples pad_numerals digit_def char_of_def bit_0)

end
