(* ===== verification/Protocol.thy ===== *)
theory Protocol
  imports SessionIO
begin

text \<open>
  The packets the server and the client exchange (\<open>Common/Protocol.h\<close>, \<open>Common/ActorType.h\<close>) and the
  \<open>PacketManager\<close> class (\<open>PacketManager.h\<close>). A packet object is its virtual-table pointer of 8 bytes and its
  members without padding (\<open>#pragma pack(push, 1)\<close>), little endian; ids read from the network are
  arbitrary 32-bit numbers.
\<close>

section \<open>Identifiers\<close>

datatype PACKET_ID = INVALID_PACKET | PING | PONG | APPEAR_ACTOR | DISAPPEAR_ACTOR

fun packet_code :: "PACKET_ID \<Rightarrow> u32" where
  "packet_code INVALID_PACKET = 0"
| "packet_code PING = 1"
| "packet_code PONG = 2"
| "packet_code APPEAR_ACTOR = 3"
| "packet_code DISAPPEAR_ACTOR = 4"

lemma packet_code_inject [simp]: "packet_code p = packet_code q \<longleftrightarrow> p = q"
  by (cases p; cases q) simp_all

text \<open>Enumerators are compared by their values.\<close>

instantiation PACKET_ID :: linorder
begin

definition less_eq_PACKET_ID :: "PACKET_ID \<Rightarrow> PACKET_ID \<Rightarrow> bool" where
  "less_eq_PACKET_ID p q \<longleftrightarrow> packet_code p \<le> packet_code q"

definition less_PACKET_ID :: "PACKET_ID \<Rightarrow> PACKET_ID \<Rightarrow> bool" where
  "less_PACKET_ID p q \<longleftrightarrow> packet_code p < packet_code q"

instance
  by standard (auto simp: less_eq_PACKET_ID_def less_PACKET_ID_def less_le)

end

type_synonym ACTOR_TYPE = u16

definition INVALID_ACTOR_TYPE :: ACTOR_TYPE where
  "INVALID_ACTOR_TYPE = 0"

definition PLAYER :: ACTOR_TYPE where
  "PLAYER = 1"

section \<open>Packets\<close>

datatype protocol_packet = Ping | Pong | AppearActor u64 ACTOR_TYPE

fun protocol_id :: "protocol_packet \<Rightarrow> PACKET_ID" where
  "protocol_id Ping = PING"
| "protocol_id Pong = PONG"
| "protocol_id (AppearActor i t) = APPEAR_ACTOR"

fun members :: "protocol_packet \<Rightarrow> u8 list" where
  "members (AppearActor i t) = le_bytes 8 (unat i) @ le_bytes 2 (unat t)"
| "members _ = []"

text \<open>\<open>sizeof(*this)\<close>, and \<open>GetPacketSize\<close>, which leaves the virtual-table pointer out.\<close>

definition sizeof_packet :: "protocol_packet \<Rightarrow> int" where
  "sizeof_packet p = 8 + int (length (members p))"

definition GetPacketSize :: "protocol_packet \<Rightarrow> int" where
  "GetPacketSize p = sizeof_packet p - 8"

text \<open>What \<open>BuildPacketBuffer\<close> copies of a packet: \<open>GetPacketSize\<close> bytes from offset 8 on.\<close>

definition server_packet :: "protocol_packet \<Rightarrow> packet" where
  "server_packet p =
     \<lparr>GetPacketId = packet_code (protocol_id p),
      packet_body = take (nat (GetPacketSize p)) (members p)\<rparr>"

lemma server_packet_body [simp]: "packet_body (server_packet p) = members p"
  by (simp add: server_packet_def GetPacketSize_def sizeof_packet_def)

section \<open>PacketManager\<close>

text \<open>No operation of the class inserts into the map; an id that is not found gives \<open>nullptr\<close>.\<close>

record 'h packet_manager =
  packetHandlerMap :: "(PACKET_ID, 'h message) umap"

definition PacketManager_ctor :: "'h packet_manager" where
  "PacketManager_ctor = \<lparr>packetHandlerMap = []\<rparr>"

definition GetMessageFromPacket :: "PACKET_ID \<Rightarrow> 'h packet_manager \<Rightarrow> 'h message" where
  "GetMessageFromPacket packetId pm =
     (case umap_find (packetHandlerMap pm) packetId of Some m \<Rightarrow> m | None \<Rightarrow> NullMessage)"

lemma PacketManager_knows_nothing: "GetMessageFromPacket p PacketManager_ctor = NullMessage"
  by (simp add: GetMessageFromPacket_def PacketManager_ctor_def)

text \<open>The members of \<open>AppearActor\<close> can be read back.\<close>

lemma AppearActor_members:
  "le_nat (take 8 (members (AppearActor i t))) = unat i"
  "le_nat (drop 8 (members (AppearActor i t))) = unat t"
proof -
  have "unat i < 256 ^ 8" "unat t < 256 ^ 2" using unsigned_less [of i] unsigned_less [of t] by simp_all
  then show "le_nat (take 8 (members (AppearActor i t))) = unat i"
    "le_nat (drop 8 (members (AppearActor i t))) = unat t"
    by (simp_all add: le_nat_le_bytes del: le_bytes_numeral)
qed

end
