(* ===== verification/Contents.thy ===== *)
theory Contents
  imports Protocol MediatorRuns RecvFrames ServerRuns
begin

text \<open>
  The server program built on the framework (\<open>ContentsServer/\<close>): players and their packet handlers, the
  trade mediator, the sector manager, the NPC base class and \<open>main\<close>.
\<close>

section \<open>Players\<close>

datatype player_handler =
    HandlePing
  | HandleTestMessage
  | PrepareItemForTrade
  | PrepareMoneyForTrade
  | OnActorCreatedHandler

definition RegisterAllPacketHandler ::
  "(player_handler, 'z) actor_scheme \<Rightarrow> actor_error + (player_handler, 'z) actor_scheme" where
  "RegisterAllPacketHandler a = RegisterPacketHandler (packet_code PING) HandlePing [] a"

definition Player_ctor ::
  "player_handler actor \<Rightarrow> u64 \<Rightarrow> 'q \<Rightarrow> 'r \<Rightarrow> actor_error + (player_handler, 'b, 'q, 'r) session" where
  "Player_ctor a inSock q r = RegisterAllPacketHandler (Session_ctor a inSock q r)"

text \<open>
  What a handler does, on the player's actor part and the rest of the session: \<open>HandlePing\<close> answers with a
  \<open>Pong\<close> and the others change nothing (the body of \<open>HandleTestMessage\<close> is a log line). The allocated
  buffer and the result of the send are arguments; a send that is undefined or does not return is \<open>Threw\<close>.
\<close>

definition run_HandlePing ::
  "('b, 'y) NetBuffer_io_scheme \<Rightarrow> ('b, 'q) lfq \<Rightarrow> 'b option \<Rightarrow> io_result
     \<Rightarrow> (player_handler, 'b, 'q, 'r) session \<Rightarrow> (bool \<times> (player_handler, 'b, 'q, 'r) session) option" where
  "run_HandlePing nb Q alloc result s = SendPacket nb Q alloc result (server_packet Pong) s"

definition player_exec ::
  "('b, 'y) NetBuffer_io_scheme \<Rightarrow> ('b, 'q) lfq \<Rightarrow> 'b option \<Rightarrow> io_result
     \<Rightarrow> (player_handler, ('b, 'q, 'r, unit) session_ext) executor" where
  "player_exec nb Q alloc result f args s =
     (case f of
        HandlePing \<Rightarrow>
          (case run_HandlePing nb Q alloc result (actor.extend (fst s) (snd s)) of
             None \<Rightarrow> Threw s
           | Some (_, s') \<Rightarrow> Done (actor.truncate s', actor.more s'))
      | _ \<Rightarrow> Done s)"

text \<open>\<open>OnTimer\<close> of a player on its whole object.\<close>

definition player_OnTimer ::
  "('b, 'y) NetBuffer_io_scheme \<Rightarrow> ('b, 'q) lfq \<Rightarrow> 'b option \<Rightarrow> io_result
     \<Rightarrow> (player_handler, 'b, 'q, 'r) session \<Rightarrow> (player_handler, 'b, 'q, 'r) session option" where
  "player_OnTimer nb Q alloc result s =
     (case ProcessMessage (player_exec nb Q alloc result) (actor.truncate s, actor.more s) of
        Some (Done (a, w)) \<Rightarrow> Some (actor.extend a w)
      | _ \<Rightarrow> None)"

section \<open>Trades\<close>

record TradeRequest =
  buyerId :: u64
  sellerId :: u64
  money :: int
  itemId :: int

definition is_Player :: "actor_kind \<Rightarrow> bool" where
  "is_Player k \<longleftrightarrow> k = SessionKind"

text \<open>\<open>SendMessage\<close> with a target: the message goes to the mailbox of the target object.\<close>

definition send_to :: "nat \<Rightarrow> 'h message \<Rightarrow> 'h server \<Rightarrow> (bool \<times> 'h server) option" where
  "send_to p m srv =
     (case objs srv p of
        None \<Rightarrow> None
      | Some ob \<Rightarrow> (let (ok, a) = SendMessage m (act ob)
                   in Some (ok, srv\<lparr>objs := (objs srv)(p \<mapsto> ob\<lparr>act := a\<rparr>)\<rparr>)))"

definition RequestTrade ::
  "TradeRequest \<Rightarrow> int \<Rightarrow> mediator \<Rightarrow> player_handler server \<Rightarrow> (bool \<times> mediator \<times> player_handler server) option" where
  "RequestTrade request now m srv =
     (let (transactionId, m1) = StartTransaction [buyerId request, sellerId request] 30000000 now m in
      case FindActor_as is_Player (sellerId request) False srv of
        None \<Rightarrow> None
      | Some None \<Rightarrow> Some (False, m1, srv)
      | Some (Some seller) \<Rightarrow>
          (case FindActor_as is_Player (buyerId request) False srv of
             None \<Rightarrow> None
           | Some None \<Rightarrow> Some (False, m1, srv)
           | Some (Some buyer) \<Rightarrow>
               (case send_to seller (Bound PrepareItemForTrade [VInt (itemId request)]) srv of
                  None \<Rightarrow> None
                | Some (False, srv1) \<Rightarrow> Some (False, RollbackTransaction transactionId m1, srv1)
                | Some (True, srv1) \<Rightarrow>
                    (case send_to buyer (Bound PrepareMoneyForTrade [VInt (money request)]) srv1 of
                       None \<Rightarrow> None
                     | Some (ok, srv2) \<Rightarrow>
                         Some (if ok then (True, m1, srv2)
                               else (False, RollbackTransaction transactionId m1, srv2))))))"

section \<open>Sectors\<close>

text \<open>The class \<open>Sector\<close> has no members.\<close>

datatype sector = Sector

record sector_manager =
  sectorMap :: "(u16, sector) umap"

definition RegisterSector :: "u16 \<Rightarrow> sector \<Rightarrow> sector_manager \<Rightarrow> bool \<times> sector_manager" where
  "RegisterSector sectorId s sm = (True, sm\<lparr>sectorMap := umap_emplace sectorId s (sectorMap sm)\<rparr>)"

definition UnregisterSector :: "u16 \<Rightarrow> sector_manager \<Rightarrow> sector_manager" where
  "UnregisterSector sectorId sm = sm\<lparr>sectorMap := umap_erase sectorId (sectorMap sm)\<rparr>"

definition GetSector :: "sector_manager \<Rightarrow> u16 \<Rightarrow> sector option" where
  "GetSector sm sectorId = umap_find (sectorMap sm) sectorId"

interpretation sectors: emplace_store GetSector UnregisterSector "\<lambda>sm. umap_ok (sectorMap sm)"
  "\<lambda>i s sm. snd (RegisterSector i s sm)"
  by unfold_locales (auto simp: GetSector_def UnregisterSector_def RegisterSector_def store_simps)

section \<open>Facts\<close>

lemma send_to_found:
  "objs srv p = Some ob \<Longrightarrow> send_to p m srv =
     Some (\<not> isStop (act ob), srv\<lparr>objs := (objs srv)(p \<mapsto> ob\<lparr>act := snd (SendMessage m (act ob))\<rparr>)\<rparr>)"
  by (simp add: send_to_def case_prod_beta Let_def SendMessage_store(2))

text \<open>No registered non-network actor is a player.\<close>

lemma no_player_among_actors:
  assumes ok: "reg_ok g ins srv" and f: "FindActor i False srv = Some (Some p)"
  shows "pointer_cast is_Player srv (Some p) = None"
proof -
  from f obtain t where t: "GetTargetThreadId (numOfLogicThread srv) i = Some t"
    and l: "in_range t (nonNetworkActorMap srv)" and u: "umap_find (nonNetworkActorMap srv ! unat t) i = Some p"
    by (auto simp: FindActor_def FindNonNetworkActor_def split: option.splits if_splits)
  have "(i, p) \<in> set (nonNetworkActorMap srv ! unat t)" using u by (rule umap_find_in_set)
  moreover have "buckets_ok (actor_entry srv) (nonNetworkActorMap srv)" using ok by (simp add: reg_ok_def)
  ultimately have "actor_entry srv (unat t) (i, p)" using l by (auto simp: buckets_ok_def in_range_def)
  then show ?thesis by (auto simp: actor_entry_def pointer_cast_def is_Player_def)
qed

lemma FindActor_defined:
  assumes ok: "reg_ok g ins srv"
  shows "\<exists>r. FindActor i False srv = Some r"
proof -
  obtain t where t: "GetTargetThreadId (numOfLogicThread srv) i = Some t" by (rule target_defined [OF ok])
  moreover have "length (nonNetworkActorMap srv) = unat (numOfLogicThread srv)" using ok by (simp add: reg_ok_def)
  ultimately show ?thesis using GetTargetThreadId_Some(2) [OF t]
    by (simp add: FindActor_def FindNonNetworkActor_def in_range_def)
qed

lemma FindActor_as_Player:
  assumes ok: "reg_ok g ins srv"
  shows "FindActor_as is_Player i False srv = Some None"
proof -
  obtain r where r: "FindActor i False srv = Some r" using FindActor_defined [OF ok] by blast
  then show ?thesis using no_player_among_actors [OF ok, of i]
    by (cases r) (auto simp: FindActor_as_def pointer_cast_def)
qed

lemma RequestTrade_eq:
  assumes "reg_ok g ins srv" and "umap_find (activeTransactions m) (transactionIdGenerator m + 1) = None"
  shows "RequestTrade request now m srv = Some (False,
     m\<lparr>activeTransactions := umap_assign (transactionIdGenerator m + 1)
          (new_Transaction (transactionIdGenerator m + 1) [buyerId request, sellerId request] 30000000 now)
          (activeTransactions m),
       transactionIdGenerator := transactionIdGenerator m + 1,
       calls := calls m @ [TransactionStarted (transactionIdGenerator m + 1)]\<rparr>, srv)"
  using FindActor_as_Player [OF assms(1)] assms(2) by (simp add: RequestTrade_def StartTransaction_eq Let_def)

text \<open>
  No trade ever starts. \<open>RequestTrade\<close> looks the players up among the non-network actors, where no
  session is, so in every run of the server it returns false, sends nothing to anyone, and leaves the
  transaction it has started active with both participants waiting.
\<close>

theorem RequestTrade_never_succeeds:
  assumes "reach reg_init reg_step s"
    and "umap_find (activeTransactions m) (transactionIdGenerator m + 1) = None"
  shows "RequestTrade request now m (core s) = Some (False,
     m\<lparr>activeTransactions := umap_assign (transactionIdGenerator m + 1)
          (new_Transaction (transactionIdGenerator m + 1) [buyerId request, sellerId request] 30000000 now)
          (activeTransactions m),
       transactionIdGenerator := transactionIdGenerator m + 1,
       calls := calls m @ [TransactionStarted (transactionIdGenerator m + 1)]\<rparr>, core s)"
  by (rule RequestTrade_eq [OF reach_reg_ok [OF assms(1)] assms(2)])

definition trade :: TradeRequest where
  "trade = \<lparr>buyerId = 1, sellerId = 2, money = 100, itemId = 5\<rparr>"

definition idle_mediator :: mediator where
  "idle_mediator = \<lparr>activeTransactions = [], transactionIdGenerator = 1, calls = []\<rparr>"

section \<open>A ping is answered\<close>

text \<open>\<open>SendPacket\<close> on a session that is not sending posts the packet at once.\<close>

lemma SendPacket_idle:
  assumes Q: "lfq_contract Q contents valid" and v: "valid (sendQueue s)" and e: "contents (sendQueue s) = []"
    and m: "ioMode s = IO_NONE_SENDING" and b: "BuildPacketBuffer nb alloc pkt = Some b"
  shows "\<exists>s'. SendPacket nb Q alloc result pkt s = Some (result \<noteq> IoFailed, s') \<and>
     actor.truncate s' = actor.truncate s \<and> contents (sendQueue s') = [] \<and>
     (\<exists>es. io_log s' = io_log s @ SendPosted [b] # es \<and> send_batches es = [])"
proof -
  let ?q = "lfq_Enqueue Q b (sendQueue s)"
  have f: "fifo_queue (lfq_Enqueue Q) (lfq_Dequeue Q) contents valid" using Q by (simp add: lfq_contract_def)
  have c: "contents ?q = [b]" "valid ?q"
    using fifo_queue.contents_push [OF f v] fifo_queue.valid_push [OF f v] e by simp_all
  then have n: "lfq_GetRestSize Q ?q = 1" using Q by (simp add: lfq_contract_def)
  obtain q' where d: "lfq_Dequeue Q ?q = Some (b, q')" "contents q' = []"
    using fifo_queue.pop_front [OF f c(2,1)] by blast
  let ?x = "s\<lparr>sendQueue := ?q\<rparr>"
  show ?thesis
    using m n d by (cases result) (simp_all add: SendPacket_def b DoSend_def DoSend_loop.simps [of Q _ _ ?x]
      ONE_SEND_WSABUF_MAX_def DecreaseIOCount_def IncreaseIOCount_def log_io_def Session_ReleaseSession_def
      actor.defs Let_def)
qed

lemma session_parts:
  fixes y :: "('h, 'b, 'q, 'r) session"
  shows "sendQueue (actor.extend a (actor.more y)) = sendQueue y" "ioMode (actor.extend a (actor.more y)) = ioMode y"
    "io_log (actor.extend a (actor.more y)) = io_log y" "actor.truncate (actor.extend a (actor.more y)) = a"
    "actor.more (actor.extend a (actor.more y)) = actor.more y"
  by (cases y, cases a, simp add: actor.defs)+

text \<open>A player with one waiting ping.\<close>

lemma player_OnTimer_ping:
  assumes Q: "lfq_contract Q contents valid" and v: "valid (sendQueue y)" and e: "contents (sendQueue y) = []"
    and m: "ioMode y = IO_NONE_SENDING" and b: "BuildPacketBuffer nb alloc (server_packet Pong) = Some b"
    and run: "\<not> isStop y" and q: "consumerQueue y = []" "storeQueue y = [Bound HandlePing []]"
  shows "\<exists>z es. player_OnTimer nb Q alloc result y = Some z \<and> io_log z = io_log y @ SendPosted [b] # es \<and>
     send_batches es = [] \<and> contents (sendQueue z) = [] \<and> storeQueue z = [] \<and> consumerQueue z = []"
proof -
  let ?a = "swap_queues (actor.truncate y)" and ?w = "actor.more y"
  let ?exec = "player_exec nb Q alloc result"
  have a: "consumerQueue ?a = [Bound HandlePing []]" "storeQueue ?a = []"
    using q by (simp_all add: swap_queues_def actor.defs)
  let ?x = "actor.extend ?a ?w"
  obtain s' es where s': "SendPacket nb Q alloc result (server_packet Pong) ?x = Some (result \<noteq> IoFailed, s')"
    and t: "actor.truncate s' = ?a" and l: "io_log s' = io_log y @ SendPosted [b] # es" "send_batches es = []"
      "contents (sendQueue s') = []"
    using SendPacket_idle [OF Q, of ?x nb alloc "server_packet Pong" b result] v e m b by (auto simp: session_parts)
  have x: "?exec HandlePing [] (?a, ?w) = Done (?a, actor.more s')"
    using s' t by (simp add: player_exec_def run_HandlePing_def)
  have "ProcessMessage ?exec (actor.truncate y, ?w) = ProcessLoop ?exec (?a, ?w)"
    using run by (simp add: ProcessMessage_def actor.defs)
  also have "\<dots> = Some (Done (pop_consumer ?a, actor.more s'))"
    using a x by (simp add: ProcessLoop.simps pop_consumer_def)
  finally have "player_OnTimer nb Q alloc result y = Some (actor.extend (pop_consumer ?a) (actor.more s'))"
    by (simp add: player_OnTimer_def)
  moreover have "io_log (actor.extend (pop_consumer ?a) (actor.more s')) = io_log s'"
    "sendQueue (actor.extend (pop_consumer ?a) (actor.more s')) = sendQueue s'" by (rule session_parts)+
  ultimately show ?thesis using l a by (auto simp: pop_consumer_def actor.defs)
qed

text \<open>Receiving leaves the parts that sending uses alone.\<close>

lemma receive_keeps_send_state:
  assumes "DoRecv R result (delivered r ms s) = (ok, y)"
  shows "sendQueue (DecreaseIOCount y) = sendQueue s" "ioMode (DecreaseIOCount y) = ioMode s"
    "isStop (DecreaseIOCount y) = isStop s" "consumerQueue (DecreaseIOCount y) = consumerQueue s"
    "storeQueue (DecreaseIOCount y) = storeQueue s @ ms" "ok = (result \<noteq> IoFailed)"
  using assms by (auto simp: DoRecv_def Let_def log_io_def IncreaseIOCount_def DecreaseIOCount_def delivered_def
      Session_ReleaseSession_def split: io_result.splits if_splits)

text \<open>
  A ping is answered. When the bytes received by an idle player are one frame that holds a \<open>PING\<close>
  packet, \<open>OnRecvIoCompleted\<close> queues the handler registered for it, and the next \<open>OnTimer\<close> of the player
  runs it: one \<open>WSASend\<close> with exactly the buffer of a \<open>PONG\<close> packet, none after it, nothing left in the send
  queue, and an empty mailbox.
\<close>

theorem ping_is_answered:
  assumes "ring_contract R bytes" and "lfq_contract Q contents valid"
    and "valid (sendQueue s)" and "contents (sendQueue s) = []" and "ioMode s = IO_NONE_SENDING"
    and "\<not> isStop s" and "consumerQueue s = []" and "storeQueue s = []"
    and "frame_ok nb s f (Bound HandlePing [])"
    and "bytes (rb_MoveWritePos R n (ringBuffer s)) = frame_bytes f"
    and "BuildPacketBuffer nb alloc (server_packet Pong) = Some b"
  shows "\<exists>y z es. OnRecvIoCompleted nb R recvResult s n = Some (recvResult \<noteq> IoFailed, y) \<and>
     player_OnTimer nb Q alloc result y = Some z \<and> io_log z = io_log y @ SendPosted [b] # es \<and>
     send_batches es = [] \<and> contents (sendQueue z) = [] \<and> storeQueue z = [] \<and> consumerQueue z = []"
proof -
  let ?s = "s\<lparr>ringBuffer := rb_MoveWritePos R n (ringBuffer s)\<rparr>"
  have f: "list_all2 (frame_ok nb ?s) [f] [Bound HandlePing []]"
    using assms(9) frame_ok_cong [of ?s s nb] by simp
  have u: "rb_GetUseSize R (ringBuffer ?s) = int (length (bytes (ringBuffer ?s)))"
    using assms(1) by (simp add: ring_contract_def)
  obtain r where l: "recv_loop nb R ?s (int (length (bytes (ringBuffer ?s)))) =
      Some (True, delivered r [Bound HandlePing []] ?s)"
    using recv_loop_frames [OF assms(1) f, of "[]"] assms(6,10) by auto
  obtain ok y where d: "DoRecv R recvResult (delivered r [Bound HandlePing []] ?s) = (ok, y)" by fastforce
  note k = receive_keeps_send_state [OF d]
  have "OnRecvIoCompleted nb R recvResult s n = Some (recvResult \<noteq> IoFailed, DecreaseIOCount y)"
    using l u d k(6) by (simp add: OnRecvIoCompleted_def Let_def)
  moreover have "\<exists>z es. player_OnTimer nb Q alloc result (DecreaseIOCount y) = Some z \<and>
      io_log z = io_log (DecreaseIOCount y) @ SendPosted [b] # es \<and> send_batches es = [] \<and>
      contents (sendQueue z) = [] \<and> storeQueue z = [] \<and> consumerQueue z = []"
    using assms k by (intro player_OnTimer_ping [OF assms(2) _ _ _ assms(11)]) simp_all
  ultimately show ?thesis by blast
qed

text \<open>The handler table is the one the constructor of \<open>Player\<close> makes, and the frame is what a client sends.\<close>

definition ping_frame :: frame where
  "ping_frame = ([0, 4, 0, 0, 0], [1, 0, 0, 0])"

definition pinged_player :: "(player_handler, u8 list \<times> nat, (u8 list \<times> nat) list, u8 list \<times> u8 list) session" where
  "pinged_player = projr (Player_ctor (new_actor 1 0) 7 [] ([], frame_bytes ping_frame))"

lemma pinged_player_eq:
  "pinged_player = Session_ctor ((new_actor 1 0)\<lparr>messageFactories := [(1, (HandlePing, []))]\<rparr>) 7 []
     ([], frame_bytes ping_frame)"
  by (simp add: pinged_player_def Player_ctor_def RegisterAllPacketHandler_def RegisterPacketHandler_def
      Session_ctor_def new_actor_def actor.defs umap_find_def umap_assign_def)

lemma ping_frame_ok: "frame_ok strict_io pinged_player ping_frame (Bound HandlePing [])"
  by (simp add: pinged_player_eq frame_ok_def frame_eval ping_frame_def CreateMessageFromPacket_def
      FindFunctionObject_def message_factory_def Deserialize_def umap_find_def)

theorem ping_is_answered_witness:
  "\<exists>y z es. OnRecvIoCompleted strict_io list_ring IoPending pinged_player 9 = Some (True, y) \<and>
     player_OnTimer strict_io list_lfq (Some ([], 0)) IoPending y = Some z \<and>
     io_log z = io_log y @ SendPosted [([0, 4, 0, 0, 0, 2, 0, 0, 0], 5)] # es"
proof -
  have b: "BuildPacketBuffer strict_io (Some ([], 0)) (server_packet Pong) = Some ([0, 4, 0, 0, 0, 2, 0, 0, 0], 5)"
    by (simp add: BuildPacketBuffer_def server_packet_def frame_eval Let_def)
  have r: "fst (rb_MoveWritePos list_ring 9 (ringBuffer pinged_player)) = frame_bytes ping_frame"
    by (simp add: pinged_player_eq Session_ctor_def actor.defs list_ring_def frame_bytes_def ping_frame_def)
  show ?thesis
    using ping_is_answered [OF list_ring_contract list_lfq_contract _ _ _ _ _ _ ping_frame_ok r b, of IoPending IoPending]
    by (auto simp: pinged_player_eq Session_ctor_def actor.defs new_actor_def)
qed

text \<open>A server with one logic thread, before anyone has connected.\<close>

definition fresh_server :: "player_handler reg_sys" where
  "fresh_server = \<lparr>core = \<lparr>numOfLogicThread = 1, numOfUser = 0, sessionMap = [[]], nonNetworkActorMap = [[]],
       releaseThreadsQueue = [[]], releaseEvents = [False], serverIsStop = False, objs = Map.empty,
       mediators = Map.empty, steadyClock = (\<lambda>_. 0), lifecycle = []\<rparr>, idGen = 0, inserted = {}\<rparr>"

text \<open>The two players have connected: their objects exist and are in the session map.\<close>

definition two_players :: "player_handler reg_sys" where
  "two_players = fresh_server\<lparr>core := (core fresh_server)\<lparr>
     objs := [0 \<mapsto> \<lparr>act = new_actor 1 0, kind = SessionKind, isTesterActor = False\<rparr>,
              1 \<mapsto> \<lparr>act = new_actor 2 0, kind = SessionKind, isTesterActor = False\<rparr>],
     sessionMap := [[(1, 0), (2, 1)]], numOfUser := 2\<rparr>, idGen := 2, inserted := {0, 1}\<rparr>"

lemma reach_two_players: "reach reg_init reg_step two_players"
proof -
  let ?c = "core fresh_server" and ?ob = "\<lambda>i. \<lparr>act = new_actor i 0, kind = SessionKind, isTesterActor = False\<rparr>"
  let ?s1 = "fresh_server\<lparr>core := ?c\<lparr>objs := [0 \<mapsto> ?ob 1]\<rparr>, idGen := 1\<rparr>"
  let ?s2 = "fresh_server\<lparr>core := ?c\<lparr>objs := [0 \<mapsto> ?ob 1, 1 \<mapsto> ?ob 2]\<rparr>, idGen := 2\<rparr>"
  let ?s3 = "?s2\<lparr>core := (core ?s2)\<lparr>sessionMap := [[(1, 0)]], numOfUser := 1\<rparr>, inserted := {0}\<rparr>"
  note new = Actor_ctor_def GenerateActorId_def GetTargetThreadId_def
  have "reach reg_init reg_step fresh_server"
    by (rule reach_init) (simp add: reg_init_def fresh_server_def)
  moreover have "reg_step fresh_server ?s1"
    using reg_step.construct [of fresh_server 0 "new_actor 1 0" 1 SessionKind False]
    by (simp add: fresh_server_def new)
  ultimately have "reach reg_init reg_step ?s1" by (rule reach_step)
  moreover have "reg_step ?s1 ?s2"
    using reg_step.construct [of ?s1 1 "new_actor 2 0" 2 SessionKind False] by (simp add: fresh_server_def new)
  ultimately have "reach reg_init reg_step ?s2" by (rule reach_step)
  moreover have "reg_step ?s2 ?s3"
    using reg_step.insert_session [of ?s2 0 "?ob 1"]
    by (simp add: fresh_server_def InsertSession_def in_range_def umap_emplace_def new_actor_def)
  ultimately have "reach reg_init reg_step ?s3" by (rule reach_step)
  moreover have "reg_step ?s3 two_players"
    using reg_step.insert_session [of ?s3 1 "?ob 2"]
    by (simp add: fresh_server_def two_players_def InsertSession_def in_range_def umap_emplace_def umap_find_def
        new_actor_def insert_commute)
  ultimately show ?thesis by (rule reach_step)
qed

theorem RequestTrade_never_succeeds_witness:
  "\<exists>m. RequestTrade trade 0 idle_mediator (core two_players) = Some (False, m, core two_players) \<and>
     map fst (activeTransactions m) = [2]"
  using RequestTrade_never_succeeds [OF reach_two_players, of idle_mediator trade 0]
  by (simp add: idle_mediator_def umap_assign_def)

section \<open>The main program\<close>

text \<open>
  The loop of \<open>main\<close> along the keys it samples (\<open>True\<close> for Q): the number of turns that print the
  status, and whether \<open>StopServer\<close> was called. \<open>IsStop\<close> is read before each turn.
\<close>

fun main_loop :: "(nat \<Rightarrow> bool) \<Rightarrow> bool list \<Rightarrow> nat \<Rightarrow> nat \<times> bool" where
  "main_loop IsStop [] n = (n, False)"
| "main_loop IsStop (q # qs) n =
     (if IsStop n then (n, False) else if q then (n, True) else main_loop IsStop qs (Suc n))"

lemma main_loop_stops:
  assumes "\<And>n. \<not> IsStop n"
  shows "main_loop IsStop qs n = (n + length (takeWhile Not qs), True \<in> set qs)"
  using assms by (induction qs arbitrary: n) auto

end
