(* ===== verification/TradeRuns.thy ===== *)
theory TradeRuns
  imports Contents
begin

text \<open>
  The trade mediator in the running server: trades are requested and its timer fires, at times of one
  steady clock, while the registries do their own steps. The mediator part is a run of two-phase
  commit (\<open>MediatorRuns\<close>), the registry part a run of the registries (\<open>ServerRuns\<close>). Votes do not occur:
  no code of the repository calls \<open>OnParticipantReady\<close> on a trade mediator. Times are nanoseconds,
  timeouts microseconds, as in the code.
\<close>

section \<open>Runs\<close>

record trade_sys =
  server :: "player_handler reg_sys"
  tpc :: tpc_sys
  clock :: int
  answers :: "bool list"

definition trade_init :: "trade_sys \<Rightarrow> bool" where
  "trade_init s \<longleftrightarrow> reg_init (server s) \<and> tpc_init (tpc s) \<and> answers s = []"

inductive trade_step :: "trade_sys \<Rightarrow> trade_sys \<Rightarrow> bool" where
  registries: "reg_step (server s) r \<Longrightarrow> trade_step s (s\<lparr>server := r\<rparr>)"
| request: "clock s \<le> now \<Longrightarrow> unat (transactionIdGenerator (med (tpc s))) < 2 ^ 64 - 1 \<Longrightarrow>
     RequestTrade req now (med (tpc s)) (core (server s)) = Some (ok, m, c) \<Longrightarrow>
     trade_step s (s\<lparr>server := (server s)\<lparr>core := c\<rparr>,
       tpc := (tpc s)\<lparr>med := m, began := (began (tpc s))
                (transactionIdGenerator (med (tpc s)) + 1 := Some {buyerId req, sellerId req})\<rparr>,
       clock := now, answers := answers s @ [ok]\<rparr>)"
| timer: "clock s \<le> now \<Longrightarrow>
     trade_step s (s\<lparr>tpc := (tpc s)\<lparr>med := OnTimer now (med (tpc s))\<rparr>, clock := now\<rparr>)"
| other_mediator: "unat (transactionIdGenerator (med (tpc s))) < 2 ^ 64 - 1 \<Longrightarrow>
     trade_step s (s\<lparr>tpc := (tpc s)\<lparr>med := snd (GenerateTransactionId (med (tpc s)))\<rparr>\<rparr>)"
| reorder: "mset ts = mset (activeTransactions (med (tpc s))) \<Longrightarrow>
     trade_step s (s\<lparr>tpc := (tpc s)\<lparr>med := (med (tpc s))\<lparr>activeTransactions := ts\<rparr>\<rparr>\<rparr>)"

section \<open>The invariant\<close>

definition trade_tx_ok :: "int \<Rightarrow> transaction \<Rightarrow> bool" where
  "trade_tx_ok now t \<longleftrightarrow> timeout t = 30000000 \<and> startTime t \<le> now"

definition trade_inv :: "trade_sys \<Rightarrow> bool" where
  "trade_inv s \<longleftrightarrow>
     reach reg_init reg_step (server s) \<and> reach tpc_init tpc_step (tpc s) \<and> True \<notin> set (answers s) \<and>
     (\<forall>i. yes_votes (tpc s) i = {} \<and> no_votes (tpc s) i = {}) \<and>
     (\<forall>e \<in> set (activeTransactions (med (tpc s))). trade_tx_ok (clock s) (snd e))"

lemma fresh_transaction_id:
  assumes inv: "tpc_inv s" and g: "unat (transactionIdGenerator (med s)) < 2 ^ 64 - 1"
  shows "umap_find (activeTransactions (med s)) (transactionIdGenerator (med s) + 1) = None"
proof (rule ccontr)
  let ?i = "transactionIdGenerator (med s) + 1"
  assume "umap_find (activeTransactions (med s)) ?i \<noteq> None"
  then obtain t where "umap_find (activeTransactions (med s)) ?i = Some t" by auto
  moreover have "id_ok ?i (umap_find (activeTransactions (med s)) ?i) (outcome_calls ?i (calls (med s)))
      (began s ?i) (yes_votes s ?i) (no_votes s ?i)" using inv unfolding tpc_inv_def by blast
  ultimately have "began s ?i \<noteq> None" by (auto simp: id_ok_def)
  with inv have "unat ?i \<le> unat (transactionIdGenerator (med s))" by (simp add: tpc_inv_def)
  moreover have "unat ?i = unat (transactionIdGenerator (med s)) + 1"
    using g by (simp add: unat_word_ariths)
  ultimately show False by simp
qed

lemma trade_step_inv:
  assumes step: "trade_step s t" and inv: "trade_inv s"
  shows "trade_inv t"
proof -
  have srv: "reach reg_init reg_step (server s)" and r: "reach tpc_init tpc_step (tpc s)"
    and rest: "True \<notin> set (answers s)" "\<forall>i. yes_votes (tpc s) i = {} \<and> no_votes (tpc s) i = {}"
    and tx: "\<forall>e \<in> set (activeTransactions (med (tpc s))). trade_tx_ok (clock s) (snd e)"
    using inv by (simp_all add: trade_inv_def)
  have ti: "tpc_inv (tpc s)" by (rule mediator_runs.reach_inv [OF r])
  then have ok: "umap_ok (activeTransactions (med (tpc s)))" by (simp add: tpc_inv_def)
  have late: "\<forall>e \<in> set (activeTransactions (med (tpc s))). trade_tx_ok now (snd e)" if "clock s \<le> now" for now
    using tx that by (auto simp: trade_tx_ok_def)
  from step show ?thesis
  proof (cases rule: trade_step.cases)
    case (registries q)
    then show ?thesis using inv reach_step [OF srv registries(2)] by (simp add: trade_inv_def)
  next
    case (request now req res m c)
    let ?g = "transactionIdGenerator (med (tpc s)) + 1"
    have fresh: "umap_find (activeTransactions (med (tpc s))) ?g = None"
      by (rule fresh_transaction_id [OF ti request(3)])
    note E = RequestTrade_eq [OF reach_reg_ok [OF srv] fresh, of req now]
    define m' where "m' = (med (tpc s))\<lparr>activeTransactions := umap_assign ?g
          (new_Transaction ?g [buyerId req, sellerId req] 30000000 now) (activeTransactions (med (tpc s))),
        transactionIdGenerator := ?g, calls := calls (med (tpc s)) @ [TransactionStarted ?g]\<rparr>"
    have "Some (res, m, c) = Some (False, m', core (server s))"
      unfolding m'_def by (rule trans [OF request(4) [symmetric] E])
    then have res: "\<not> res" "c = core (server s)" and m: "m = m'" by blast+
    have "StartTransaction [buyerId req, sellerId req] 30000000 now (med (tpc s)) = (?g, m)"
      by (simp add: StartTransaction_eq [OF fresh] m m'_def Let_def)
    from tpc_step.start [OF request(3) this]
    have "tpc_step (tpc s) ((tpc s)\<lparr>med := m, began := (began (tpc s))(?g := Some {buyerId req, sellerId req})\<rparr>)" by simp
    then have "reach tpc_init tpc_step (tpc t)" unfolding request(1) by (simp add: reach_step [OF r])
    moreover have "server t = server s" unfolding request(1) res(2) by (cases "server s") simp
    moreover
    have "\<forall>e \<in> set (activeTransactions m). trade_tx_ok now (snd e)"
      using late [OF request(2)]
      by (simp add: m m'_def set_umap_assign [OF ok]) (simp add: trade_tx_ok_def new_Transaction_def)
    then have "\<forall>e \<in> set (activeTransactions (med (tpc t))). trade_tx_ok (clock t) (snd e)" by (simp add: request(1))
    moreover have "True \<notin> set (answers t)" "\<forall>i. yes_votes (tpc t) i = {} \<and> no_votes (tpc t) i = {}"
      using rest res(1) by (simp_all add: request(1))
    ultimately show ?thesis unfolding trade_inv_def using srv by (metis (no_types))
  next
    case (timer now)
    have "reach tpc_init tpc_step (tpc t)" unfolding timer(1) by (simp add: reach_step [OF r tpc_step.timer])
    moreover have "\<forall>e \<in> set (activeTransactions (OnTimer now (med (tpc s)))). trade_tx_ok now (snd e)"
      using late [OF timer(2)] by (auto simp: OnTimer_eq [OF ok])
    ultimately show ?thesis using srv rest by (simp add: trade_inv_def timer(1))
  next
    case other_mediator
    have "reach tpc_init tpc_step (tpc t)"
      unfolding other_mediator(1) by (simp add: reach_step [OF r tpc_step.other_mediator [OF other_mediator(2)]])
    then show ?thesis using srv rest tx by (simp add: trade_inv_def other_mediator(1) GenerateTransactionId_def Let_def)
  next
    case (reorder ts)
    have "reach tpc_init tpc_step (tpc t)"
      unfolding reorder(1) by (simp add: reach_step [OF r tpc_step.reorder_transactions [OF reorder(2)]])
    moreover have "set ts = set (activeTransactions (med (tpc s)))" using reorder(2) by (metis set_mset_mset)
    ultimately show ?thesis using srv rest tx by (simp add: trade_inv_def reorder(1))
  qed
qed

interpretation trade_runs: inductive_invariant trade_init trade_step trade_inv
proof
  fix s assume "trade_init s"
  then show "trade_inv s" by (auto simp: trade_init_def trade_inv_def tpc_init_def intro: reach_init)
qed (rule trade_step_inv)

section \<open>What becomes of trades\<close>

lemma trade_outcome:
  assumes inv: "trade_inv s" and b: "began (tpc s) i = Some P"
  shows "case umap_find (activeTransactions (med (tpc s))) i of
       Some t \<Rightarrow> outcome_calls i (calls (med (tpc s))) = [] \<and> fst ` set (participants t) = P \<and>
         (\<forall>(k, p) \<in> set (participants t). p_state p = P_WAITING)
     | None \<Rightarrow> outcome_calls i (calls (med (tpc s))) = [TransactionFailed i]"
proof -
  have "tpc_inv (tpc s)" using inv mediator_runs.reach_inv by (simp add: trade_inv_def)
  then have "id_ok i (umap_find (activeTransactions (med (tpc s))) i) (outcome_calls i (calls (med (tpc s))))
      (began (tpc s) i) (yes_votes (tpc s) i) (no_votes (tpc s) i)" unfolding tpc_inv_def by blast
  moreover have "yes_votes (tpc s) i = {}" "no_votes (tpc s) i = {}" using inv by (simp_all add: trade_inv_def)
  ultimately show ?thesis
    using b by (auto simp: id_ok_def tx_ok_def committed_def aborted_def split: option.splits)
qed

lemma trade_calls:
  assumes inv: "trade_inv s" and e: "e \<in> set (calls (med (tpc s)))"
  shows "e = TransactionStarted (event_tx e) \<or> e = TransactionFailed (event_tx e)"
proof (rule disjCI)
  assume "e \<noteq> TransactionFailed (event_tx e)"
  let ?o = "outcome_calls (event_tx e) (calls (med (tpc s)))"
  have "?o = [] \<or> ?o = [TransactionFailed (event_tx e)]"
  proof (cases "began (tpc s) (event_tx e)")
    case None
    have "tpc_inv (tpc s)" using inv mediator_runs.reach_inv by (simp add: trade_inv_def)
    then have "id_ok (event_tx e) (umap_find (activeTransactions (med (tpc s))) (event_tx e)) ?o
        (began (tpc s) (event_tx e)) (yes_votes (tpc s) (event_tx e)) (no_votes (tpc s) (event_tx e))"
      unfolding tpc_inv_def by blast
    with None show ?thesis by (auto simp: id_ok_def split: option.splits)
  next
    case (Some P)
    from trade_outcome [OF inv Some] show ?thesis by (auto split: option.splits)
  qed
  moreover have "e \<in> set ?o" if "e \<noteq> TransactionStarted (event_tx e)" using e that by (simp add: outcome_calls_def)
  ultimately show "e = TransactionStarted (event_tx e)" using \<open>e \<noteq> TransactionFailed (event_tx e)\<close> by fastforce
qed

text \<open>
  C35. Trades only expire. In every run of the server with its trade mediator, each request is answered
  with false; nobody is ever asked to commit or to roll back and no trade completes: the calls made are
  that a transaction started and that it failed. Every trade that was requested is either still active,
  with both players waiting, or has been reported failed exactly once. The server's registries are never
  touched by it: they do a run of their own.
\<close>

theorem trades_only_expire:
  assumes "reach trade_init trade_step s"
  shows "True \<notin> set (answers s) \<and>
    (\<forall>e \<in> set (calls (med (tpc s))). \<exists>i. e = TransactionStarted i \<or> e = TransactionFailed i) \<and>
    (\<forall>i P. began (tpc s) i = Some P \<longrightarrow>
       (case umap_find (activeTransactions (med (tpc s))) i of
          Some t \<Rightarrow> outcome_calls i (calls (med (tpc s))) = [] \<and> fst ` set (participants t) = P \<and>
            (\<forall>(k, p) \<in> set (participants t). p_state p = P_WAITING)
        | None \<Rightarrow> outcome_calls i (calls (med (tpc s))) = [TransactionFailed i])) \<and>
    reach reg_init reg_step (server s)"
proof -
  have inv: "trade_inv s" by (rule trade_runs.reach_inv [OF assms])
  have "\<exists>i. e = TransactionStarted i \<or> e = TransactionFailed i" if "e \<in> set (calls (med (tpc s)))" for e
    using trade_calls [OF inv that] by (intro exI)
  with inv trade_outcome [OF inv] show ?thesis by (simp add: trade_inv_def)
qed

text \<open>
  C36. Trades expire in time. After the timer function of the trade mediator has run at a time \<open>now\<close>, the
  transactions left are those requested at most 30 seconds before, unchanged; each older one has been
  reported failed, once.
\<close>

theorem trades_expire_in_time:
  assumes "reach trade_init trade_step s" and "clock s \<le> now"
  shows "activeTransactions (OnTimer now (med (tpc s))) =
      filter (\<lambda>(_, t). now \<le> startTime t + 30 * 10 ^ 9) (activeTransactions (med (tpc s))) \<and>
    (\<forall>i t. umap_find (activeTransactions (med (tpc s))) i = Some t \<and> startTime t + 30 * 10 ^ 9 < now \<longrightarrow>
       outcome_calls i (calls (OnTimer now (med (tpc s)))) = [TransactionFailed i])"
proof -
  have inv: "trade_inv s" by (rule trade_runs.reach_inv [OF assms(1)])
  then have ti: "tpc_inv (tpc s)" using mediator_runs.reach_inv by (simp add: trade_inv_def)
  then have ok: "umap_ok (activeTransactions (med (tpc s)))" by (simp add: tpc_inv_def)
  define t where "t = s\<lparr>tpc := (tpc s)\<lparr>med := OnTimer now (med (tpc s))\<rparr>, clock := now\<rparr>"
  have invt: "trade_inv t" unfolding t_def by (rule trade_step_inv [OF trade_step.timer [OF assms(2)] inv])
  have lim: "timed_out now x \<longleftrightarrow> \<not> now \<le> startTime x + 30 * 10 ^ 9"
    if "(i, x) \<in> set (activeTransactions (med (tpc s)))" for i x
    using inv that by (auto simp: trade_inv_def trade_tx_ok_def timed_out_def)
  have left: "activeTransactions (OnTimer now (med (tpc s))) =
      filter (\<lambda>(_, t). now \<le> startTime t + 30 * 10 ^ 9) (activeTransactions (med (tpc s)))"
    unfolding OnTimer_eq [OF ok] using lim by (auto intro!: filter_cong)
  have "outcome_calls i (calls (OnTimer now (med (tpc s)))) = [TransactionFailed i]"
    if f: "umap_find (activeTransactions (med (tpc s))) i = Some x" and late: "startTime x + 30 * 10 ^ 9 < now" for i x
  proof -
    have "id_ok i (umap_find (activeTransactions (med (tpc s))) i) (outcome_calls i (calls (med (tpc s))))
        (began (tpc s) i) (yes_votes (tpc s) i) (no_votes (tpc s) i)" using ti unfolding tpc_inv_def by blast
    with f obtain P where "began (tpc s) i = Some P" by (auto simp: id_ok_def)
    then have "began (tpc t) i = Some P" by (simp add: t_def)
    moreover have "umap_find (activeTransactions (med (tpc t))) i = None"
      using f late by (simp add: t_def left find_filter [OF ok])
    ultimately show ?thesis using trade_outcome [OF invt] by (fastforce simp: t_def)
  qed
  with left show ?thesis by blast
qed

section \<open>Two players ask for a trade\<close>

definition trade_at :: "player_handler reg_sys \<Rightarrow> trade_sys" where
  "trade_at r = \<lparr>server = r, tpc = tpc0, clock = 0, answers = []\<rparr>"

lemma reach_trade_at: "reach reg_init reg_step r \<Longrightarrow> reach trade_init trade_step (trade_at r)"
proof (induction rule: reach.induct)
  case (reach_init r)
  then show ?case by (intro reach.reach_init) (simp add: trade_init_def trade_at_def tpc_init_def tpc0_def)
next
  case (reach_step r r')
  have "trade_step (trade_at r) ((trade_at r)\<lparr>server := r'\<rparr>)"
    by (rule trade_step.registries) (simp add: trade_at_def reach_step(2))
  then show ?case using reach.reach_step [OF reach_step(3)] by (simp add: trade_at_def)
qed

definition asked :: trade_sys where
  "asked = (trade_at two_players)\<lparr>tpc := tpc0\<lparr>med := \<lparr>activeTransactions = [(2, new_Transaction 2 [1, 2] 30000000 0)],
     transactionIdGenerator = 2, calls = [TransactionStarted 2]\<rparr>, began := [2 \<mapsto> {1, 2}]\<rparr>, answers := [False]\<rparr>"

lemma reach_asked: "reach trade_init trade_step asked"
proof -
  have r: "RequestTrade trade 0 (med (tpc (trade_at two_players))) (core (server (trade_at two_players))) =
      Some (False, med (tpc asked), core two_players)"
    using RequestTrade_eq [OF reach_reg_ok [OF reach_two_players], of "med tpc0" trade 0]
    by (simp add: asked_def trade_at_def tpc0_def trade_def umap_find_def umap_assign_def)
  have "trade_step (trade_at two_players) asked"
    using trade_step.request [OF _ _ r] by (simp add: asked_def trade_at_def tpc0_def trade_def)
  then show ?thesis by (rule reach_step [OF reach_trade_at [OF reach_two_players]])
qed

theorem trades_only_expire_witness:
  "True \<notin> set (answers asked) \<and> began (tpc asked) 2 = Some {1, 2} \<and> reach reg_init reg_step (server asked)"
  using trades_only_expire [OF reach_asked] by (simp add: asked_def)

theorem trades_expire_in_time_witness:
  "activeTransactions (OnTimer 30000000001 (med (tpc asked))) = [] \<and>
   outcome_calls 2 (calls (OnTimer 30000000001 (med (tpc asked)))) = [TransactionFailed 2] \<and>
   activeTransactions (OnTimer 30000000000 (med (tpc asked))) = activeTransactions (med (tpc asked))"
  using trades_expire_in_time [OF reach_asked, of 30000000001] trades_expire_in_time [OF reach_asked, of 30000000000]
  by (simp add: asked_def trade_at_def umap_find_def new_Transaction_def)

end
