(* ===== verification/PlayerRuns.thy ===== *)
theory PlayerRuns
  imports Contents NetRuns
begin

text \<open>
  A player's session over time: completions of its socket, messages put in its mailbox, and the timer
  function of its logic thread, which runs the mailbox and answers each ping, in any order and number.
  It composes \<open>SessionRuns\<close> (input and output), \<open>ActorCore\<close> (the mailbox) and \<open>Contents\<close> (the handlers).
  The buffers of the pool are equal when they are handed out, so that every pong is built as the same
  buffer value; one result stands for all \<open>WSASend\<close> of one timer call.
\<close>

section \<open>Sending leaves the mailbox alone\<close>

lemma truncate_simps [simp]:
  fixes x :: "('h, 'b, 'q, 'r) session"
  shows "actor.truncate (IncreaseIOCount x) = actor.truncate x"
    "actor.truncate (DecreaseIOCount x) = actor.truncate x"
    "actor.truncate (log_io e x) = actor.truncate x"
    "actor.truncate (x\<lparr>sendQueue := q\<rparr>) = actor.truncate x"
    "actor.truncate (x\<lparr>ioMode := m\<rparr>) = actor.truncate x"
    "actor.truncate (x\<lparr>bufferCount := n\<rparr>) = actor.truncate x"
    "actor.truncate (x\<lparr>sendBufferStore := bs\<rparr>) = actor.truncate x"
    "actor.truncate (x\<lparr>isUsingSession := b\<rparr>) = actor.truncate x"
    "actor.truncate (x\<lparr>ringBuffer := r\<rparr>) = actor.truncate x"
  by (simp_all add: actor.defs IncreaseIOCount_def DecreaseIOCount_def Session_ReleaseSession_def log_io_def Let_def)

lemma DoSend_loop_actor: "DoSend_loop Q result e x = Some (ok, y) \<Longrightarrow> actor.truncate y = actor.truncate x"
proof (induction Q result e x rule: DoSend_loop.induct)
  case (1 Q result e x)
  then show ?case
    by (subst (asm) (2) DoSend_loop.simps) (auto simp: Let_def split: if_splits option.splits io_result.splits)
qed

lemma SendPacket_actor:
  "SendPacket nb Q alloc result pkt x = Some (ok, y) \<Longrightarrow> actor.truncate y = actor.truncate x"
  by (auto simp: SendPacket_def DoSend_def dest: DoSend_loop_actor split: option.splits)

text \<open>The operations of a session add messages to its mailbox and change nothing else of the actor.\<close>

definition grows :: "('h, 'z) actor_scheme \<Rightarrow> ('h, 'y) actor_scheme \<Rightarrow> 'h message list \<Rightarrow> bool" where
  "grows x y ms \<longleftrightarrow> isStop y = isStop x \<and> consumerQueue y = consumerQueue x \<and> storeQueue y = storeQueue x @ ms"

lemma grows_same:
  fixes x y :: "('h, 'b, 'q, 'r) session"
  shows "actor.truncate y = actor.truncate x \<Longrightarrow> grows x y []"
  by (simp add: grows_def actor.defs)

lemma grows_trans: "grows x y ms \<Longrightarrow> grows y z ns \<Longrightarrow> grows x z (ms @ ns)"
  by (simp add: grows_def)

lemma recv_one_grows:
  "recv_one nb R x rest = Some (sent, y, rest') \<Longrightarrow> \<exists>ms. grows x y ms"
  by (auto simp: recv_one_def RecvStreamToBuffer_def grows_def SendMessage_def push_store_def queue_push_def
      Let_def split: prod.splits if_splits read.splits)

lemma recv_loop_grows:
  assumes "recv_loop nb R x rest = Some r"
  shows "\<exists>ms. grows x (snd r) ms"
proof (rule recv_loop.raw_induct [where P = "\<lambda>nb R x rest r. \<exists>ms. grows x (snd r) ms", OF _ assms], goal_cases)
  case (1 f nb R x rest r)
  show ?case
  proof (cases "int (nb_HEADER_SIZE nb) < rest")
    case False
    with 1(2) show ?thesis by (intro exI [of _ "[]"]) (auto simp: grows_def)
  next
    case True
    with 1(2) obtain sent y rest' where y: "recv_one nb R x rest = Some (sent, y, rest')"
      by (auto split: option.splits)
    obtain ms where ms: "grows x y ms" using recv_one_grows [OF y] by blast
    show ?thesis
    proof (cases sent)
      case True
      then have "f nb R y rest' = Some r" using 1(2) y \<open>int (nb_HEADER_SIZE nb) < rest\<close> by simp
      from 1(1) [OF this] ms show ?thesis using grows_trans by blast
    next
      case False
      then have "r = (False, y)" using 1(2) y \<open>int (nb_HEADER_SIZE nb) < rest\<close> by simp
      with ms show ?thesis by auto
    qed
  qed
qed

lemma DoRecv_actor: "actor.truncate (snd (DoRecv R result x)) = actor.truncate x"
  by (auto simp: DoRecv_def Let_def split: io_result.splits)

lemma OnRecvIoCompleted_grows:
  assumes "OnRecvIoCompleted nb R result x n = Some (ok, y)"
  shows "\<exists>ms. grows x y ms"
proof -
  let ?x = "x\<lparr>ringBuffer := rb_MoveWritePos R n (ringBuffer x)\<rparr>"
  obtain ok1 x1 where l: "recv_loop nb R ?x (rb_GetUseSize R (ringBuffer ?x)) = Some (ok1, x1)"
    using assms by (auto simp: OnRecvIoCompleted_def Let_def split: option.splits)
  obtain ms where ms: "grows ?x x1 ms" using recv_loop_grows [OF l] by auto
  have "y = DecreaseIOCount x1 \<or> y = DecreaseIOCount (snd (DoRecv R result x1))"
    using assms l by (auto simp: OnRecvIoCompleted_def Let_def split: if_splits prod.splits)
  then have "grows x1 y []" using DoRecv_actor [of R result x1] by (auto intro: grows_same)
  with grows_trans [OF ms] have "grows ?x y ms" by fastforce
  then show ?thesis by (auto simp: grows_def)
qed

section \<open>One timer call\<close>

fun is_ping :: "player_handler message \<Rightarrow> bool" where
  "is_ping (Bound HandlePing _) = True"
| "is_ping _ = False"

definition pings :: "player_handler message list \<Rightarrow> nat" where
  "pings ms = length (filter is_ping ms)"

lemma pings_simps [simp]: "pings [] = 0" "pings (m # ms) = (if is_ping m then 1 else 0) + pings ms"
  "pings (ms @ ns) = pings ms + pings ns"
  by (simp_all add: pings_def)

lemma extend_truncate: "actor.extend (actor.truncate x) (actor.more x) = x"
  by (cases x) (simp add: actor.defs)

text \<open>A packet whose buffer is built is sent: one step of the session, which adds the buffer.\<close>

lemma send_step:
  assumes c: "lfq_contract Q contents valid" and b: "BuildPacketBuffer nb alloc pkt = Some buf"
    and inv: "io_inv contents valid s"
  shows "\<exists>ok x. SendPacket nb Q alloc result pkt (ses s) = Some (ok, x) \<and>
    io_step nb R Q s (s\<lparr>ses := x, enqueued := enqueued s @ [buf],
      sends_out := sends_out s + successes result (new_sends (ses s) x)\<rparr>) \<and>
    length (send_batches (io_log (ses s))) \<le> length (send_batches (io_log x))"
proof -
  have f: "fifo_queue (lfq_Enqueue Q) (lfq_Dequeue Q) contents valid" using c by (simp add: lfq_contract_def)
  have si: "send_inv contents valid (ses s) (enqueued s)" using inv by (simp add: io_inv_def)
  then have "valid (sendQueue (ses s))" by (simp add: send_inv_def)
  from fifo_queue.contents_push [OF f this, of buf] fifo_queue.valid_push [OF f this, of buf] si
  have pre: "send_pre contents valid ((ses s)\<lparr>sendQueue := lfq_Enqueue Q buf (sendQueue (ses s))\<rparr>) (enqueued s @ [buf])"
    by (auto simp: send_inv_def send_pre_def)
  obtain ok x where x: "SendPacket nb Q alloc result pkt (ses s) = Some (ok, x)"
    using DoSend_facts [OF c pre, of result] b by (auto simp: SendPacket_def)
  have "\<exists>es. io_log x = io_log (ses s) @ es" using op_ok_SendPacket [OF x] by (auto simp: op_ok_def)
  then have "length (send_batches (io_log (ses s))) \<le> length (send_batches (io_log x))" by auto
  with io_step.send [OF x, where R = R] x b show ?thesis by (auto simp: new_sends_def)
qed

text \<open>Steps of a session in which nobody takes or gives back a reference of its own.\<close>

definition quiet_step ::
  "('b, 'y) NetBuffer_io_scheme \<Rightarrow> 'r ring_ops \<Rightarrow> ('b, 'q) lfq
     \<Rightarrow> ('h, 'b, 'q, 'r) io_sys \<Rightarrow> ('h, 'b, 'q, 'r) io_sys \<Rightarrow> bool" where
  "quiet_step nb R Q s t \<longleftrightarrow> io_step nb R Q s t \<and> holds t = holds s"

lemma quiet_steps: "(quiet_step nb R Q)\<^sup>*\<^sup>* s t \<Longrightarrow> (io_step nb R Q)\<^sup>*\<^sup>* s t"
  by (erule mono_rtranclp [rule_format, rotated]) (simp add: quiet_step_def)

text \<open>
  A batch of messages is run to its end; it is a sequence of steps of the session, which queues one pong
  for each ping and leaves the player's mailbox as it is.
\<close>

lemma player_batch:
  assumes c: "lfq_contract Q contents valid"
    and b: "BuildPacketBuffer nb alloc (server_packet Pong) = Some buf" and inv: "io_inv contents valid s"
  shows "\<exists>x. run_batch (player_exec nb Q alloc result) ms (actor.truncate (ses s), actor.more (ses s)) =
      (Done (actor.truncate x, actor.more x), []) \<and> actor.truncate x = actor.truncate (ses s) \<and>
    (quiet_step nb R Q)\<^sup>*\<^sup>* s (s\<lparr>ses := x, enqueued := enqueued s @ replicate (pings ms) buf,
      sends_out := sends_out s + successes result (new_sends (ses s) x)\<rparr>) \<and>
    length (send_batches (io_log (ses s))) \<le> length (send_batches (io_log x))"
  using inv
proof (induction ms arbitrary: s)
  case Nil
  have "s\<lparr>ses := ses s, enqueued := enqueued s, sends_out := sends_out s\<rparr> = s" by (cases s) simp
  then show ?case by (intro exI [of _ "ses s"]) (simp add: new_sends_def successes_def)
next
  case (Cons m ms)
  show ?case
  proof (cases "is_ping m")
    case False
    then have "run_batch (player_exec nb Q alloc result) (m # ms) (actor.truncate (ses s), actor.more (ses s)) =
        run_batch (player_exec nb Q alloc result) ms (actor.truncate (ses s), actor.more (ses s))"
      by (cases m rule: is_ping.cases) (simp_all add: player_exec_def)
    with Cons.IH [OF Cons.prems] False show ?thesis by simp
  next
    case True
    then obtain args where m: "m = Bound HandlePing args" by (cases m rule: is_ping.cases) auto
    obtain ok x where x: "SendPacket nb Q alloc result (server_packet Pong) (ses s) = Some (ok, x)"
      and st: "io_step nb R Q s (s\<lparr>ses := x, enqueued := enqueued s @ [buf],
        sends_out := sends_out s + successes result (new_sends (ses s) x)\<rparr>)"
      and le: "length (send_batches (io_log (ses s))) \<le> length (send_batches (io_log x))"
      using send_step [OF c b Cons.prems, where R = R and result = result] by blast
    define s1 where "s1 = s\<lparr>ses := x, enqueued := enqueued s @ [buf],
        sends_out := sends_out s + successes result (new_sends (ses s) x)\<rparr>"
    have inv1: "io_inv contents valid s1" using io_step_inv [OF c st Cons.prems] by (simp add: s1_def)
    obtain y where y: "run_batch (player_exec nb Q alloc result) ms (actor.truncate (ses s1), actor.more (ses s1)) =
        (Done (actor.truncate y, actor.more y), [])" "actor.truncate y = actor.truncate (ses s1)"
      and steps: "(quiet_step nb R Q)\<^sup>*\<^sup>* s1 (s1\<lparr>ses := y, enqueued := enqueued s1 @ replicate (pings ms) buf,
        sends_out := sends_out s1 + successes result (new_sends (ses s1) y)\<rparr>)"
      and le1: "length (send_batches (io_log (ses s1))) \<le> length (send_batches (io_log y))"
      using Cons.IH [OF inv1] by blast
    have "player_exec nb Q alloc result HandlePing args (actor.truncate (ses s), actor.more (ses s)) =
        Done (actor.truncate x, actor.more x)"
      using x by (simp add: player_exec_def run_HandlePing_def extend_truncate)
    then have run: "run_batch (player_exec nb Q alloc result) (m # ms) (actor.truncate (ses s), actor.more (ses s)) =
        (Done (actor.truncate y, actor.more y), [])"
      using y(1) by (simp add: m s1_def Let_def)
    have "successes result (new_sends (ses s) x) + successes result (new_sends x y) = successes result (new_sends (ses s) y)"
      using le le1 by (simp add: successes_def new_sends_def s1_def)
    then have "s1\<lparr>ses := y, enqueued := enqueued s1 @ replicate (pings ms) buf,
        sends_out := sends_out s1 + successes result (new_sends (ses s1) y)\<rparr> =
      s\<lparr>ses := y, enqueued := enqueued s @ replicate (pings (m # ms)) buf,
        sends_out := sends_out s + successes result (new_sends (ses s) y)\<rparr>"
      by (cases s) (simp add: s1_def m)
    moreover have "quiet_step nb R Q s s1" using st by (simp add: quiet_step_def s1_def)
    ultimately have "(quiet_step nb R Q)\<^sup>*\<^sup>* s (s\<lparr>ses := y, enqueued := enqueued s @ replicate (pings (m # ms)) buf,
        sends_out := sends_out s + successes result (new_sends (ses s) y)\<rparr>)"
      using steps converse_rtranclp_into_rtranclp by metis
    with run y(2) le le1 SendPacket_actor [OF x] show ?thesis
      by (intro exI [of _ y]) (simp add: s1_def)
  qed
qed

text \<open>Handlers do not see the queue of messages being run.\<close>

lemma consumer_commutes:
  fixes x :: "('h, 'b, 'q, 'r) session"
  shows "IncreaseIOCount (x\<lparr>consumerQueue := q\<rparr>) = (IncreaseIOCount x)\<lparr>consumerQueue := q\<rparr>"
    "DecreaseIOCount (x\<lparr>consumerQueue := q\<rparr>) = (DecreaseIOCount x)\<lparr>consumerQueue := q\<rparr>"
    "log_io e (x\<lparr>consumerQueue := q\<rparr>) = (log_io e x)\<lparr>consumerQueue := q\<rparr>"
    "x\<lparr>consumerQueue := q, sendQueue := q'\<rparr> = x\<lparr>sendQueue := q', consumerQueue := q\<rparr>"
    "x\<lparr>consumerQueue := q, ioMode := m\<rparr> = x\<lparr>ioMode := m, consumerQueue := q\<rparr>"
    "x\<lparr>consumerQueue := q, bufferCount := n\<rparr> = x\<lparr>bufferCount := n, consumerQueue := q\<rparr>"
    "x\<lparr>consumerQueue := q, sendBufferStore := bs\<rparr> = x\<lparr>sendBufferStore := bs, consumerQueue := q\<rparr>"
  by (cases x; simp add: IncreaseIOCount_def DecreaseIOCount_def Session_ReleaseSession_def log_io_def Let_def)+

lemma DoSend_loop_consumer:
  "DoSend_loop Q result e (x\<lparr>consumerQueue := q\<rparr>) =
     map_option (apsnd (\<lambda>y. y\<lparr>consumerQueue := q\<rparr>)) (DoSend_loop Q result e x)"
proof (induction Q result e x rule: DoSend_loop.induct)
  case (1 Q result e x)
  then show ?case
    by (subst (1 2) DoSend_loop.simps)
      (auto simp: Let_def consumer_commutes split: option.splits io_result.splits)
qed

lemma SendPacket_consumer:
  "SendPacket nb Q alloc result pkt (x\<lparr>consumerQueue := q\<rparr>) =
     map_option (apsnd (\<lambda>y. y\<lparr>consumerQueue := q\<rparr>)) (SendPacket nb Q alloc result pkt x)"
  by (simp add: SendPacket_def DoSend_def consumer_commutes(4) DoSend_loop_consumer split: option.splits)

lemma consumer_parts:
  fixes y :: "('h, 'b, 'q, 'r) session"
  shows "actor.truncate (y\<lparr>consumerQueue := q\<rparr>) = set_consumer q (actor.truncate y)"
    "actor.more (y\<lparr>consumerQueue := q\<rparr>) = actor.more y"
    "actor.extend (set_consumer q a) (actor.more y) = (actor.extend a (actor.more y))\<lparr>consumerQueue := q\<rparr>"
  by (cases y, cases a, simp add: set_consumer_def actor.defs)+

lemma player_exec_private:
  "consumer_private (player_exec nb Q alloc result :: (player_handler, ('b, 'q, 'r, unit) session_ext) executor)"
  unfolding consumer_private_def
proof (intro allI)
  fix f args q and a :: "player_handler actor" and w :: "('b, 'q, 'r, unit) session_ext"
  have w: "w = actor.more (actor.extend a w)" by (cases a) (simp add: actor.defs)
  have e: "actor.extend (set_consumer q a) w = (actor.extend a w)\<lparr>consumerQueue := q\<rparr>"
    by (subst w, subst consumer_parts(3), subst w [symmetric]) (rule refl)
  show "player_exec nb Q alloc result f args (set_consumer q a, w) =
      map_outcome (apfst (set_consumer q)) (player_exec nb Q alloc result f args (a, w))"
    by (cases f) (auto simp: player_exec_def run_HandlePing_def e SendPacket_consumer consumer_parts split: option.splits)
qed

lemma io_inv_mailbox:
  assumes "io_inv contents valid s" and "send_view x = send_view (ses s)" "isUsingSession x = isUsingSession (ses s)"
    "ioCount x = ioCount (ses s)"
  shows "io_inv contents valid (s\<lparr>ses := x\<rparr>)"
proof -
  have "io_inv contents valid (s\<lparr>ses := x, recvs_out := recvs_out s, holds := holds s\<rparr>)"
    using assms by (intro io_invI_view) (auto simp: io_inv_def send_inv_def)
  then show ?thesis by simp
qed

text \<open>
  One call of a player's timer function: it returns, the mailbox is empty, and what it did to the
  session is the steps that queue one pong for each ping.
\<close>

lemma player_OnTimer_run:
  fixes s :: "(player_handler, 'b, 'q, 'r) io_sys" and R :: "'r ring_ops"
  assumes c: "lfq_contract Q contents valid"
    and b: "BuildPacketBuffer nb alloc (server_packet Pong) = Some buf" and inv: "io_inv contents valid s"
    and m: "\<not> isStop (ses s)" "consumerQueue (ses s) = []"
  shows "\<exists>y. player_OnTimer nb Q alloc result (ses s) = Some y \<and>
    (quiet_step nb R Q)\<^sup>*\<^sup>* (s\<lparr>ses := (ses s)\<lparr>storeQueue := []\<rparr>\<rparr>)
      (s\<lparr>ses := y, enqueued := enqueued s @ replicate (pings (storeQueue (ses s))) buf,
        sends_out := sends_out s + successes result (new_sends (ses s) y)\<rparr>) \<and>
    io_inv contents valid (s\<lparr>ses := y, enqueued := enqueued s @ replicate (pings (storeQueue (ses s))) buf,
      sends_out := sends_out s + successes result (new_sends (ses s) y)\<rparr>) \<and>
    actor.truncate y = (actor.truncate (ses s))\<lparr>storeQueue := []\<rparr>"
proof -
  let ?x0 = "(ses s)\<lparr>storeQueue := []\<rparr>"
  let ?exec = "player_exec nb Q alloc result :: (player_handler, ('b, 'q, 'r, unit) session_ext) executor"
  have t: "actor.truncate ?x0 = (actor.truncate (ses s))\<lparr>storeQueue := []\<rparr>" "actor.more ?x0 = actor.more (ses s)"
    by (cases "ses s", simp add: actor.defs)+
  have inv0: "io_inv contents valid (s\<lparr>ses := ?x0\<rparr>)"
    by (rule io_inv_mailbox [OF inv]) (simp_all add: send_view_def)
  obtain y where run: "run_batch ?exec (storeQueue (ses s)) (actor.truncate ?x0, actor.more ?x0) =
      (Done (actor.truncate y, actor.more y), [])" and ty: "actor.truncate y = actor.truncate ?x0"
    and steps: "(quiet_step nb R Q)\<^sup>*\<^sup>* (s\<lparr>ses := ?x0\<rparr>)
      (s\<lparr>ses := y, enqueued := enqueued s @ replicate (pings (storeQueue (ses s))) buf,
        sends_out := sends_out s + successes result (new_sends ?x0 y)\<rparr>)"
    using player_batch [OF c b inv0, where R = R and result = result and ms = "storeQueue (ses s)"] by auto
  have "ProcessMessage ?exec (actor.truncate (ses s), actor.more (ses s)) =
      Some (map_outcome (apfst (set_consumer [])) (Done (actor.truncate y, actor.more y)))"
    using ProcessMessage_run_batch [where exec = ?exec and a = "actor.truncate (ses s)" and w = "actor.more (ses s)",
        OF player_exec_private] m run
    by (simp add: t) (simp add: actor.defs)
  moreover have "set_consumer [] (actor.truncate y) = actor.truncate y"
    using ty m(2) by (simp add: t set_consumer_def actor.defs)
  ultimately have "player_OnTimer nb Q alloc result (ses s) = Some y"
    by (simp add: player_OnTimer_def extend_truncate)
  moreover have "new_sends ?x0 y = new_sends (ses s) y" by (simp add: new_sends_def)
  ultimately show ?thesis
    using inductive_invariant.steps_inv [OF io_runs [OF c] quiet_steps [OF steps] inv0] steps ty t by auto
qed

text \<open>Every step of a session leaves the mailbox alone or adds to it.\<close>

lemma io_step_grows: "io_step nb R Q s t \<Longrightarrow> \<exists>ms. grows (ses s) (ses t) ms"
proof (induction rule: io_step.induct)
  case (first_recv s result ok x)
  then show ?case using DoRecv_actor [of R result "ses s"] by (auto intro!: exI [of _ "[]"] grows_same)
next
  case (send alloc result pkt s ok x)
  then show ?case using SendPacket_actor [OF send(1)] by (auto intro!: exI [of _ "[]"] grows_same)
next
  case (send_done s transferred result ok x)
  have "actor.truncate x = actor.truncate (ses s)"
    using send_done(2,3) by (auto simp: OnIoCompleted_def OnSendIoCompleted_def DoSend_def Let_def fold_Freed_actor
        split: option.splits dest: DoSend_loop_actor)
  then show ?case by (auto intro!: exI [of _ "[]"] grows_same)
next
  case (recv_done s transferred result ok x)
  then show ?case by (auto simp: OnIoCompleted_def dest: OnRecvIoCompleted_grows)
qed (auto simp: OnIoCompleted_no_bytes Disconnect_def intro!: exI [of _ "[]"] grows_same)

section \<open>Runs of a player\<close>

text \<open>\<open>arrived\<close> are the messages put in the mailbox so far, received or sent to the player.\<close>

record ('b, 'q, 'r) player_sys =
  io :: "(player_handler, 'b, 'q, 'r) io_sys"
  arrived :: "player_handler message list"

definition player_init :: "('q \<Rightarrow> 'b list) \<Rightarrow> ('q \<Rightarrow> bool) \<Rightarrow> ('b, 'q, 'r) player_sys \<Rightarrow> bool" where
  "player_init contents valid s \<longleftrightarrow>
     (\<exists>i t sk q r. Player_ctor (new_actor i t) sk q r = Inr (ses (io s)) \<and> valid q \<and> contents q = []) \<and>
     sends_out (io s) = 0 \<and> recvs_out (io s) = 0 \<and> holds (io s) = 0 \<and> enqueued (io s) = [] \<and> arrived s = []"

text \<open>
  The steps: an operation of the session that queues nothing to send (a completion, a receive, a
  disconnection), a message sent to the player by another actor, and a timer call.
\<close>

inductive player_step ::
  "('b, 'y) NetBuffer_io_scheme \<Rightarrow> 'r ring_ops \<Rightarrow> ('b, 'q) lfq \<Rightarrow> 'b option
     \<Rightarrow> ('b, 'q, 'r) player_sys \<Rightarrow> ('b, 'q, 'r) player_sys \<Rightarrow> bool"
  for nb R Q alloc where
  session: "io_step nb R Q (io s) y \<Longrightarrow> enqueued y = enqueued (io s) \<Longrightarrow> grows (ses (io s)) (ses y) ms \<Longrightarrow>
     player_step nb R Q alloc s (s\<lparr>io := y, arrived := arrived s @ ms\<rparr>)"
| message: "SendMessage m (ses (io s)) = (ok, x) \<Longrightarrow>
     player_step nb R Q alloc s (s\<lparr>io := (io s)\<lparr>ses := x\<rparr>, arrived := arrived s @ (if ok then [m] else [])\<rparr>)"
| timer: "player_OnTimer nb Q alloc result (ses (io s)) = Some x \<Longrightarrow>
     player_step nb R Q alloc s (s\<lparr>io := (io s)\<lparr>ses := x,
       enqueued := enqueued (io s) @ replicate (pings (storeQueue (ses (io s))))
         (the (BuildPacketBuffer nb alloc (server_packet Pong))),
       sends_out := sends_out (io s) + successes result (new_sends (ses (io s)) x)\<rparr>\<rparr>)"

definition player_inv ::
  "('q \<Rightarrow> 'b list) \<Rightarrow> ('q \<Rightarrow> bool) \<Rightarrow> 'b \<Rightarrow> ('b, 'q, 'r) player_sys \<Rightarrow> bool" where
  "player_inv contents valid buf s \<longleftrightarrow>
     io_inv contents valid (io s) \<and> \<not> isStop (ses (io s)) \<and> consumerQueue (ses (io s)) = [] \<and>
     (\<exists>ran. arrived s = ran @ storeQueue (ses (io s)) \<and> enqueued (io s) = replicate (pings ran) buf)"

lemma player_init_inv:
  assumes "player_init contents valid s"
  shows "player_inv contents valid buf s"
proof -
  obtain i t sk q r where p: "Player_ctor (new_actor i t) sk q r = Inr (ses (io s))" "valid q" "contents q = []"
    using assms by (auto simp: player_init_def)
  then have x: "ses (io s) = (Session_ctor (new_actor i t) sk q r)\<lparr>messageFactories :=
      umap_assign (packet_code PING) (HandlePing, []) []\<rparr>"
    by (simp add: Player_ctor_def RegisterAllPacketHandler_def RegisterPacketHandler_def Session_ctor_def
        new_actor_def actor.defs split: if_splits)
  have "send_inv contents valid (ses (io s)) []"
    using p(2,3) by (simp add: x Session_ctor_def actor.defs send_inv_def)
  with assms show ?thesis
    by (auto simp: player_init_def player_inv_def io_inv_def x Session_ctor_def new_actor_def actor.defs)
qed

lemma player_step_inv:
  assumes c: "lfq_contract Q contents valid"
    and b: "BuildPacketBuffer nb alloc (server_packet Pong) = Some buf"
    and step: "player_step nb R Q alloc s t" and inv: "player_inv contents valid buf s"
  shows "player_inv contents valid buf t"
proof -
  have i: "io_inv contents valid (io s)" and m: "\<not> isStop (ses (io s))" "consumerQueue (ses (io s)) = []"
    using inv by (simp_all add: player_inv_def)
  obtain ran where ran: "arrived s = ran @ storeQueue (ses (io s))" "enqueued (io s) = replicate (pings ran) buf"
    using inv by (auto simp: player_inv_def)
  from step show ?thesis
  proof (cases rule: player_step.cases)
    case (session y ms)
    then show ?thesis using io_step_inv [OF c session(2) i] m ran by (auto simp: player_inv_def grows_def)
  next
    case (message msg ok x)
    have x: "x = snd (SendMessage msg (ses (io s)))" and ok: "ok" using message(2) m(1) SendMessage_store(2) [of msg "ses (io s)"] by simp_all
    have "io_inv contents valid ((io s)\<lparr>ses := x\<rparr>)"
      by (rule io_inv_mailbox [OF i]) (simp_all add: x send_defs send_view_def)
    moreover have "storeQueue x = storeQueue (ses (io s)) @ [msg]"
      using SendMessage_store [of msg "ses (io s)"] m(1) unfolding x by simp
    moreover have "isStop x = isStop (ses (io s))" "consumerQueue x = consumerQueue (ses (io s))"
      unfolding x by simp_all
    ultimately show ?thesis using m ran ok unfolding message(1) by (simp add: player_inv_def)
  next
    case (timer result x)
    obtain y where y: "player_OnTimer nb Q alloc result (ses (io s)) = Some y"
      and iy: "io_inv contents valid ((io s)\<lparr>ses := y, enqueued := enqueued (io s) @ replicate (pings (storeQueue (ses (io s)))) buf,
        sends_out := sends_out (io s) + successes result (new_sends (ses (io s)) y)\<rparr>)"
      and ty: "actor.truncate y = (actor.truncate (ses (io s)))\<lparr>storeQueue := []\<rparr>"
      using player_OnTimer_run [OF c b i m, where result = result and R = R] by (elim exE conjE) (rule that, assumption+)
    have "y = x" using y timer(2) by simp
    moreover have "isStop y = isStop (ses (io s))" "consumerQueue y = consumerQueue (ses (io s))" "storeQueue y = []"
      using ty by (simp_all add: actor.defs)
    moreover have "replicate (pings ran) buf @ replicate (pings (storeQueue (ses (io s)))) buf =
        replicate (pings (arrived s)) buf" by (simp add: ran(1) replicate_add)
    ultimately show ?thesis using iy m ran b by (simp add: player_inv_def timer(1))
  qed
qed

lemma player_runs:
  assumes "lfq_contract Q contents valid" and "BuildPacketBuffer nb alloc (server_packet Pong) = Some buf"
  shows "inductive_invariant (player_init contents valid) (player_step nb R Q alloc) (player_inv contents valid buf)"
proof
  fix s t assume "player_step nb R Q alloc s t" and "player_inv contents valid buf s"
  then show "player_inv contents valid buf t" by (rule player_step_inv [OF assms])
qed (rule player_init_inv)

text \<open>
  C37. Every ping is answered. At any point of a player's life, whatever has been received, sent and
  completed in between: the messages that arrived are those run so far followed by those in the mailbox;
  the buffers posted on the socket and those waiting in the send queue are together one pong for each
  ping run, and nothing else. The next timer call always returns, empties the mailbox, and then there is
  one pong for each ping that has arrived.
\<close>

theorem pings_answered:
  assumes c: "lfq_contract Q contents valid"
    and b: "BuildPacketBuffer nb alloc (server_packet Pong) = Some buf"
    and r: "reach (player_init contents valid) (player_step nb R Q alloc) s"
  shows "(\<exists>ran. arrived s = ran @ storeQueue (ses (io s)) \<and>
      concat (send_batches (io_log (ses (io s)))) @ contents (sendQueue (ses (io s))) = replicate (pings ran) buf) \<and>
    (\<exists>y. player_OnTimer nb Q alloc result (ses (io s)) = Some y \<and> storeQueue y = [] \<and>
      concat (send_batches (io_log y)) @ contents (sendQueue y) = replicate (pings (arrived s)) buf)"
proof -
  have inv: "player_inv contents valid buf s"
    by (rule inductive_invariant.reach_inv [OF player_runs [OF c b] r])
  then have i: "io_inv contents valid (io s)" and m: "\<not> isStop (ses (io s))" "consumerQueue (ses (io s)) = []"
    by (simp_all add: player_inv_def)
  obtain ran where ran: "arrived s = ran @ storeQueue (ses (io s))" "enqueued (io s) = replicate (pings ran) buf"
    using inv by (auto simp: player_inv_def)
  have now: "concat (send_batches (io_log (ses (io s)))) @ contents (sendQueue (ses (io s))) = replicate (pings ran) buf"
    using i ran(2) by (simp add: io_inv_def send_inv_def)
  obtain y where y: "player_OnTimer nb Q alloc result (ses (io s)) = Some y"
    and iy: "io_inv contents valid ((io s)\<lparr>ses := y, enqueued := enqueued (io s) @ replicate (pings (storeQueue (ses (io s)))) buf,
      sends_out := sends_out (io s) + successes result (new_sends (ses (io s)) y)\<rparr>)"
    and ty: "actor.truncate y = (actor.truncate (ses (io s)))\<lparr>storeQueue := []\<rparr>"
    using player_OnTimer_run [OF c b i m, where result = result and R = R] by (elim exE conjE) (rule that, assumption+)
  have "storeQueue y = []" using ty by (simp add: actor.defs)
  moreover have "concat (send_batches (io_log y)) @ contents (sendQueue y) = replicate (pings (arrived s)) buf"
    using iy ran by (simp add: io_inv_def send_inv_def replicate_add)
  ultimately show ?thesis using ran(1) now y by (intro conjI exI [of _ ran] exI [of _ y])
qed

section \<open>A player who is pinged twice\<close>

definition new_player :: "(u8 list \<times> nat, (u8 list \<times> nat) list, u8 list \<times> u8 list) player_sys" where
  "new_player = \<lparr>io = \<lparr>ses = projr (Player_ctor (new_actor 1 0) 7 [] ([], [])), sends_out = 0, recvs_out = 0,
     holds = 0, enqueued = []\<rparr>, arrived = []\<rparr>"

definition told :: "player_handler message \<Rightarrow> (u8 list \<times> nat, (u8 list \<times> nat) list, u8 list \<times> u8 list) player_sys
    \<Rightarrow> (u8 list \<times> nat, (u8 list \<times> nat) list, u8 list \<times> u8 list) player_sys" where
  "told m s = s\<lparr>io := (io s)\<lparr>ses := snd (SendMessage m (ses (io s)))\<rparr>,
     arrived := arrived s @ (if fst (SendMessage m (ses (io s))) then [m] else [])\<rparr>"

abbreviation player_reach where
  "player_reach \<equiv> reach (player_init (\<lambda>q. q) (\<lambda>_. True)) (player_step list_io list_ring list_lfq (Some ([], 0)))"

lemma reach_new_player: "player_reach new_player"
proof (rule reach_init)
  have "Player_ctor (new_actor 1 0) 7 [] ([], []) = Inr (ses (io new_player))"
    by (simp add: new_player_def Player_ctor_def RegisterAllPacketHandler_def RegisterPacketHandler_def
        Session_ctor_def new_actor_def actor.defs umap_find_def)
  then have "\<exists>i t sk q r. Player_ctor (new_actor i t) sk q r = Inr (ses (io new_player)) \<and> True \<and> q = []" by blast
  then show "player_init (\<lambda>q. q) (\<lambda>_. True) new_player"
    unfolding player_init_def by (simp add: new_player_def)
qed

lemma reach_told: "player_reach s \<Longrightarrow> player_reach (told m s)"
  unfolding told_def
  by (erule reach_step, rule player_step.message [where ok = "fst (SendMessage m (ses (io s)))"]) simp

definition pinged_twice :: "(u8 list \<times> nat, (u8 list \<times> nat) list, u8 list \<times> u8 list) player_sys" where
  "pinged_twice = told (Bound HandlePing []) (told (Bound OnActorCreatedHandler []) (told (Bound HandlePing []) new_player))"

lemma pinged_twice_arrived:
  "arrived pinged_twice = [Bound HandlePing [], Bound OnActorCreatedHandler [], Bound HandlePing []]"
  by (simp add: pinged_twice_def told_def new_player_def Player_ctor_def RegisterAllPacketHandler_def
      RegisterPacketHandler_def Session_ctor_def new_actor_def actor.defs umap_find_def send_defs)

theorem pings_answered_witness:
  "\<exists>buf y. player_OnTimer list_io list_lfq (Some ([], 0)) IoPending (ses (io pinged_twice)) = Some y \<and>
     concat (send_batches (io_log y)) @ sendQueue y = [buf, buf]"
proof -
  obtain buf where b: "BuildPacketBuffer list_io (Some ([], 0)) (server_packet Pong) = Some buf"
    by (simp add: BuildPacketBuffer_def Let_def)
  have "player_reach pinged_twice" unfolding pinged_twice_def by (intro reach_told reach_new_player)
  from pings_answered [OF list_lfq_contract b this, of IoPending] show ?thesis
    by (auto simp: pinged_twice_arrived numeral_2_eq_2)
qed

section \<open>A timer call in the running server\<close>

lemma net_session_state:
  assumes inv: "net_inv contents valid s" and f: "FindSession i t (core (world s)) = Some (Some p)"
  shows "sess (world s) p = Some (ses (ios s p)) \<and> io_inv contents valid (ios s p) \<and> holds (ios s p) = 0"
  using found_session [OF inv f] by (auto simp: io_inv_def)

lemma net_quiet_steps:
  assumes c: "lfq_contract Q contents valid" and e: "valid q0" "contents q0 = []"
    and steps: "(quiet_step nb R Q)\<^sup>*\<^sup>* (ios s p) y"
    and r: "reach net_init (net_step nb R Q RQ q0) s" and f: "FindSession i t (core (world s)) = Some (Some p)"
  shows "\<exists>w. (net_step nb R Q RQ q0)\<^sup>*\<^sup>* s (s\<lparr>world := w, ios := (ios s)(p := y)\<rparr>) \<and>
    FindSession i t (core w) = Some (Some p)"
  using steps
proof (induction rule: rtranclp_induct)
  case base
  have "s\<lparr>world := world s, ios := (ios s)(p := ios s p)\<rparr> = s" by (cases s) simp
  with f show ?case by (intro exI [of _ "world s"]) simp
next
  case (step y z)
  then obtain w where w: "(net_step nb R Q RQ q0)\<^sup>*\<^sup>* s (s\<lparr>world := w, ios := (ios s)(p := y)\<rparr>)"
    and fw: "FindSession i t (core w) = Some (Some p)" by blast
  define s1 where "s1 = s\<lparr>world := w, ios := (ios s)(p := y)\<rparr>"
  have r1: "reach net_init (net_step nb R Q RQ q0) s1" unfolding s1_def by (rule reach_rtranclp [OF r w])
  have inv1: "net_inv contents valid s1" by (rule net_reach_inv [OF c e r1])
  have f1: "FindSession i t (core (world s1)) = Some (Some p)" using fw by (simp add: s1_def)
  note S = net_session_state [OF inv1 f1]
  have y: "ios s1 p = y" by (simp add: s1_def)
  have z: "io_step nb R Q (ios s1 p) z" "holds z = 0" using step(2) S by (simp_all add: quiet_step_def y)
  obtain w' where w': "store_session p (ses (ios s1 p)) (ses z) (world s1) = Some w'"
    and st: "net_step nb R Q RQ q0 s1 (s1\<lparr>world := w', ios := (ios s1)(p := z)\<rparr>)"
    using net_session_step [OF inv1 f1 conjunct1 [OF S] z] by blast
  have "FindSession i t (core w') = Some (Some p)"
    using store_session_facts(3) [OF w'] fw by (simp add: FindSession_def s1_def split: if_splits)
  moreover have "s1\<lparr>world := w', ios := (ios s1)(p := z)\<rparr> = s\<lparr>world := w', ios := (ios s)(p := z)\<rparr>"
    by (cases s) (simp add: s1_def)
  ultimately show ?case using w st unfolding s1_def [symmetric] by (metis rtranclp.rtrancl_into_rtrancl)
qed

text \<open>
  C38. A logic thread's call of a player's timer function is a run of the whole server. In any reachable
  state of the server, for a registered player that is not stopped and whose queue of running messages
  is empty, the call returns, and what it does, to the session and to the server, is a sequence of the
  server's steps; it ends with the session object the call leaves, with one pong queued for each ping.
\<close>

theorem timer_call_is_server_run:
  fixes s :: "(player_handler, 'b, 'q, 'r) net_sys"
  assumes c: "lfq_contract Q contents valid" and e: "valid q0" "contents q0 = []"
    and b: "BuildPacketBuffer nb alloc (server_packet Pong) = Some buf"
    and r: "reach net_init (net_step nb R Q RQ q0) s" and f: "FindSession i t (core (world s)) = Some (Some p)"
    and x: "sess (world s) p = Some x" and m: "\<not> isStop x" "consumerQueue x = []"
  shows "\<exists>y w z. player_OnTimer nb Q alloc result x = Some y \<and>
    (net_step nb R Q RQ q0)\<^sup>*\<^sup>* s (s\<lparr>world := w, ios := (ios s)(p := z)\<rparr>) \<and>
    sess w p = Some y \<and> FindSession i t (core w) = Some (Some p) \<and> storeQueue y = [] \<and>
    enqueued z = enqueued (ios s p) @ replicate (pings (storeQueue x)) buf"
proof -
  have inv: "net_inv contents valid s" by (rule net_reach_inv [OF c e r])
  note S = net_session_state [OF inv f]
  have sx: "ses (ios s p) = x" using S x by simp
  then have mx: "\<not> isStop (ses (ios s p))" "consumerQueue (ses (ios s p)) = []" using m by simp_all
  obtain y where y: "player_OnTimer nb Q alloc result x = Some y" and ty: "actor.truncate y = (actor.truncate x)\<lparr>storeQueue := []\<rparr>"
    and steps: "(quiet_step nb R Q)\<^sup>*\<^sup>* ((ios s p)\<lparr>ses := x\<lparr>storeQueue := []\<rparr>\<rparr>)
      ((ios s p)\<lparr>ses := y, enqueued := enqueued (ios s p) @ replicate (pings (storeQueue x)) buf,
        sends_out := sends_out (ios s p) + successes result (new_sends x y)\<rparr>)"
    using player_OnTimer_run [OF c b conjunct1 [OF conjunct2 [OF S]] mx, where result = result and R = R]
    unfolding sx by (elim exE conjE) (rule that, assumption+)
  let ?x0 = "x\<lparr>storeQueue := []\<rparr>"
  have x0: "?x0 = x\<lparr>storeQueue := [], consumerQueue := []\<rparr>" using m(2) by (cases x) simp
  obtain w0 where w0: "store_session p x ?x0 (world s) = Some w0" by (simp add: store_session_def Let_def)
  define s1 where "s1 = s\<lparr>world := w0, ios := (ios s)(p := (ios s p)\<lparr>ses := ?x0\<rparr>)\<rparr>"
  have st: "net_step nb R Q RQ q0 s s1"
    unfolding s1_def by (rule net_step.mailbox [OF f x x0 w0])
  have r1: "reach net_init (net_step nb R Q RQ q0) s1" by (rule reach_step [OF r st])
  have f1: "FindSession i t (core (world s1)) = Some (Some p)"
    using store_session_facts(3) [OF w0] f by (simp add: s1_def FindSession_def split: if_splits)
  define z where "z = (ios s p)\<lparr>ses := y, enqueued := enqueued (ios s p) @ replicate (pings (storeQueue x)) buf,
        sends_out := sends_out (ios s p) + successes result (new_sends x y)\<rparr>"
  have "(quiet_step nb R Q)\<^sup>*\<^sup>* (ios s1 p) z" using steps by (simp add: s1_def z_def)
  from net_quiet_steps [OF c e this r1 f1] obtain w where
    w: "(net_step nb R Q RQ q0)\<^sup>*\<^sup>* s1 (s1\<lparr>world := w, ios := (ios s1)(p := z)\<rparr>)"
    and fw: "FindSession i t (core w) = Some (Some p)" by blast
  have s2: "s1\<lparr>world := w, ios := (ios s1)(p := z)\<rparr> = s\<lparr>world := w, ios := (ios s)(p := z)\<rparr>"
    by (cases s) (simp add: s1_def)
  have run: "(net_step nb R Q RQ q0)\<^sup>*\<^sup>* s (s\<lparr>world := w, ios := (ios s)(p := z)\<rparr>)"
    using st w unfolding s2 by (rule converse_rtranclp_into_rtranclp)
  have "net_inv contents valid (s\<lparr>world := w, ios := (ios s)(p := z)\<rparr>)"
    by (rule net_reach_inv [OF c e reach_rtranclp [OF r run]])
  from net_session_state [OF this] fw have "sess w p = Some y" by (simp add: z_def)
  moreover have "storeQueue y = []" using ty by (simp add: actor.defs)
  ultimately show ?thesis using y run fw by (intro exI [of _ y] exI [of _ w] exI [of _ z]) (simp add: z_def)
qed

text \<open>A player connects and a ping is put in its mailbox.\<close>

type_synonym player_net = "(player_handler, u8 list \<times> nat, (u8 list \<times> nat) list, u8 list \<times> u8 list) net_sys"

definition arena :: "player_handler server" where
  "arena = \<lparr>numOfLogicThread = 1, numOfUser = 0, sessionMap = [[]], nonNetworkActorMap = [[]],
     releaseThreadsQueue = [[]], releaseEvents = [False], serverIsStop = False, objs = Map.empty, mediators = Map.empty, steadyClock = (\<lambda>_. 0), lifecycle = []\<rparr>"

definition arena0 :: player_net where
  "arena0 = \<lparr>world = \<lparr>core = arena, sess = Map.empty, keys = Map.empty, registered = [], close_posts = 0\<rparr>,
     gen = 0, entered = {}, ios = (\<lambda>_. new_io (client IoFailed) (Session_ctor (new_actor 0 0) 0 [] ([], [])))\<rparr>"

abbreviation arena_step :: "player_net \<Rightarrow> player_net \<Rightarrow> bool" where
  "arena_step \<equiv> net_step list_io list_ring list_lfq list_lfq []"

lemma reach_pinged:
  "\<exists>s x. reach net_init arena_step s \<and> FindSession 1 0 (core (world s)) = Some (Some 3) \<and> sess (world s) 3 = Some x \<and>
     \<not> isStop x \<and> consumerQueue x = [] \<and> storeQueue x = [Bound HandlePing []] \<and> enqueued (ios s 3) = []"
proof -
  let ?hs = "[(packet_code PING, (HandlePing, []))]"
  let ?x0 = "Session_ctor ((new_actor 1 0)\<lparr>messageFactories := ?hs\<rparr>) 9 [] ([], [])"
  have "net_init arena0" by (simp add: net_init_def arena0_def arena_def reg_init_def)
  then have r: "reach net_init arena_step arena0" by (rule reach_init)
  obtain w x where w: "enter_session list_ring OnActorCreatedHandler (client IoPending) 9 3 ?x0 (world arena0) = Some w"
    "sess w 3 = Some x"
    and f: "FindSession 1 0 (core w) = Some (Some 3)" and x: "\<not> isStop x" "consumerQueue x = []"
    by (simp add: arena0_def arena_def accept_defs client_def Session_ctor_def new_actor_def
      list_ring_def actor.defs FindSession_def umap_emplace_def umap_find_def)
  have a: "Actor_ctor (numOfLogicThread (core (world arena0))) (gen arena0) = Some (new_actor 1 0, 1)"
    by (simp add: Actor_ctor_def GenerateActorId_def GetTargetThreadId_def arena0_def arena_def)
  define s1 where "s1 = \<lparr>world = w, gen = 1,
      entered = (if port_handle (client IoPending) = - 1 then entered arena0 else insert 3 (entered arena0)),
      ios = (ios arena0)(3 := new_io (client IoPending) x)\<rparr>"
  have "arena_step arena0 s1"
    unfolding s1_def by (rule net_step.accept [OF _ _ a w]) (simp_all add: arena0_def arena_def)
  with r have r1: "reach net_init arena_step s1" by (rule reach_step)
  define y where "y = x\<lparr>storeQueue := [Bound HandlePing []], consumerQueue := []\<rparr>"
  obtain w1 where w1: "store_session 3 x y (world s1) = Some w1" by (simp add: store_session_def y_def Let_def)
  define s2 where "s2 = s1\<lparr>world := w1, ios := (ios s1)(3 := (ios s1 3)\<lparr>ses := y\<rparr>)\<rparr>"
  have f1: "FindSession 1 0 (core (world s1)) = Some (Some 3)" and x1: "sess (world s1) 3 = Some x"
    using f w(2) by (simp_all add: s1_def)
  have "arena_step s1 s2" unfolding s2_def by (rule net_step.mailbox [OF f1 x1 y_def w1])
  with r1 have "reach net_init arena_step s2" by (rule reach_step)
  moreover have "FindSession 1 0 (core (world s2)) = Some (Some 3)"
    using store_session_facts(3) [OF w1] f1 by (simp add: s2_def FindSession_def split: if_splits)
  moreover have "sess (world s2) 3 = Some y" using store_session_facts(1) [OF w1] by (simp add: s2_def)
  moreover have "\<not> isStop y" "consumerQueue y = []" "storeQueue y = [Bound HandlePing []]" "enqueued (ios s2 3) = []"
    using x by (simp_all add: y_def s2_def s1_def new_io_def)
  ultimately show ?thesis by blast
qed

theorem timer_call_is_server_run_witness:
  "\<exists>(s :: player_net) t buf. reach net_init arena_step s \<and> arena_step\<^sup>*\<^sup>* s t \<and>
     enqueued (ios s 3) = [] \<and> enqueued (ios t 3) = [buf]"
proof -
  obtain s :: player_net and x where s: "reach net_init arena_step s" "FindSession 1 0 (core (world s)) = Some (Some 3)"
    "sess (world s) 3 = Some x" "\<not> isStop x" "consumerQueue x = []" "storeQueue x = [Bound HandlePing []]"
    "enqueued (ios s 3) = []" using reach_pinged by blast
  obtain buf where b: "BuildPacketBuffer list_io (Some ([], 0)) (server_packet Pong) = Some buf"
    by (simp add: BuildPacketBuffer_def Let_def)
  obtain w z where run: "arena_step\<^sup>*\<^sup>* s (s\<lparr>world := w, ios := (ios s)(3 := z)\<rparr>)"
    and z: "enqueued z = enqueued (ios s 3) @ replicate (pings (storeQueue x)) buf"
    using timer_call_is_server_run [OF list_lfq_contract _ _ b s(1-5), where result = IoPending] by blast
  have "enqueued (ios (s\<lparr>world := w, ios := (ios s)(3 := z)\<rparr>) 3) = [buf]" using z s(6,7) by simp
  with s(1,7) run show ?thesis by blast
qed

end
