(* ===== verification/ClientIO.thy ===== *)
theory ClientIO
  imports RecvFrames
begin

text \<open>
  The network side of the test client (\<open>TestClient/SimpleClient.h\<close>, \<open>SimpleClient.cpp\<close>): connecting, the
  receive and send threads, the cutting of the received bytes into packets.

  The ring buffer and the network buffer are those of the server (arguments with contracts). The results of
  socket calls are arguments. A function returns \<open>None\<close> where the behaviour is undefined.
\<close>

section \<open>State\<close>

record 'r client_ring = "'r ring_ops" +
  rb_Enqueue :: "u8 list \<Rightarrow> 'r \<Rightarrow> int \<times> 'r"

record ('b, 'r) simple_client =
  needStop :: bool
  isConnected :: bool
  recvBufferQueue :: "'b list"
  sendBufferQueue :: "'b option list"
  recvRingBuffer :: 'r
  sendSemaphore :: nat
  sent :: "'b list"
  freed :: "'b list"
  socketClosed :: bool
  disconnects :: nat
  connects :: nat

section \<open>Starting\<close>

record client_options =
  targetIp :: "u16 list"
  targetPort :: u16
  clientHeaderCode :: u8
  clientXorCode :: u8

record client_parser =
  ip_option :: "u16 list \<Rightarrow> u16 list option"
  port_option :: "u16 list \<Rightarrow> u16 option"
  code_option :: "u16 list \<Rightarrow> u8 option"
  key_option :: "u16 list \<Rightarrow> u8 option"

text \<open>
  A file that cannot be opened is \<open>None\<close>: \<open>ftell(nullptr)\<close> is undefined. \<open>fread_s\<close> calls the invalid parameter
  handler when the data do not fit the buffer of \<open>BUFFER_MAX\<close> bytes it is told of.
\<close>

definition ReadOptionFile ::
  "nat \<Rightarrow> client_parser \<Rightarrow> u16 list option \<Rightarrow> client_options \<Rightarrow> (bool \<times> client_options) option" where
  "ReadOptionFile BUFFER_MAX P optionFile c =
     (case optionFile of
        None \<Rightarrow> None
      | Some file \<Rightarrow>
          (if 2 * length file > BUFFER_MAX then None
           else let buff = file @ [0] in
             Some (case ip_option P buff of
                     None \<Rightarrow> (False, c)
                   | Some ip \<Rightarrow>
                       (case port_option P buff of
                          None \<Rightarrow> (False, c\<lparr>targetIp := ip\<rparr>)
                        | Some p \<Rightarrow>
                            (case code_option P buff of
                               None \<Rightarrow> (False, c\<lparr>targetIp := ip, targetPort := p\<rparr>)
                             | Some h \<Rightarrow>
                                 (case key_option P buff of
                                    None \<Rightarrow> (False, c\<lparr>targetIp := ip, targetPort := p, clientHeaderCode := h\<rparr>)
                                  | Some k \<Rightarrow> (True, c\<lparr>targetIp := ip, targetPort := p, clientHeaderCode := h,
                                                        clientXorCode := k\<rparr>)))))))"

text \<open>\<open>connect\<close> is tried \<open>RECONNECT_TRY_COUNT\<close> times; the result counts the sleeps.\<close>

definition RECONNECT_TRY_COUNT :: nat where
  "RECONNECT_TRY_COUNT = 5"

fun connect_loop :: "(nat \<Rightarrow> bool) \<Rightarrow> nat \<Rightarrow> nat \<Rightarrow> bool \<times> nat" where
  "connect_loop ok i 0 = (False, 0)"
| "connect_loop ok i (Suc n) =
     (if \<not> ok i then (case connect_loop ok (Suc i) n of (c, sleeps) \<Rightarrow> (c, Suc sleeps)) else (True, 0))"

definition ConnectToServer :: "(nat \<Rightarrow> bool) \<Rightarrow> bool" where
  "ConnectToServer ok = fst (connect_loop ok 0 RECONNECT_TRY_COUNT)"

definition TryConnectToServer :: "bool \<Rightarrow> bool \<Rightarrow> (nat \<Rightarrow> bool) \<Rightarrow> ('b, 'r) simple_client \<Rightarrow> bool \<times> ('b, 'r) simple_client" where
  "TryConnectToServer startup_ok socket_ok ok s =
     (if \<not> startup_ok then (False, s)
      else if \<not> socket_ok then (False, s)
      else if \<not> ConnectToServer ok then (False, s\<lparr>socketClosed := True\<rparr>)
      else (True, s))"

definition Connected :: "('b, 'r) simple_client \<Rightarrow> ('b, 'r) simple_client" where
  "Connected s = s\<lparr>isConnected := True, connects := Suc (connects s)\<rparr>"

text \<open>\<open>Start\<close>, after \<open>ReadOptionFile\<close>; the two network threads run from then on.\<close>

definition Start ::
  "bool \<Rightarrow> bool \<Rightarrow> bool \<Rightarrow> (nat \<Rightarrow> bool) \<Rightarrow> ('b, 'r) simple_client \<Rightarrow> bool \<times> ('b, 'r) simple_client" where
  "Start options_ok startup_ok socket_ok ok s =
     (if \<not> options_ok then (False, s)
      else let s1 = s\<lparr>sendSemaphore := 0\<rparr>; (connected, s2) = TryConnectToServer startup_ok socket_ok ok s1
           in if \<not> connected then (False, s2) else (True, Connected s2))"

text \<open>\<open>WaitStopAllThreads\<close> up to and after the joins.\<close>

definition request_stop :: "('b, 'r) simple_client \<Rightarrow> ('b, 'r) simple_client" where
  "request_stop s = s\<lparr>needStop := True, sendSemaphore := Suc (sendSemaphore s)\<rparr>"

definition after_joins :: "('b, 'r) simple_client \<Rightarrow> ('b, 'r) simple_client" where
  "after_joins s = s\<lparr>isConnected := False, disconnects := Suc (disconnects s)\<rparr>"

section \<open>Receiving\<close>

text \<open>
  \<open>MakePacketsFromRingBuffer\<close>: the result is its return value and the client. The capacity of
  \<open>m_pSerializeBuffer\<close> is not defined in the repository: \<open>nb_Append\<close> stands for a copy for which there is
  room. The code itself compares the announced size with \<open>dfDEFAULTSIZE\<close> only while the frame is
  incomplete.
\<close>

partial_function (option) make_packets ::
  "('b, 'y) NetBuffer_io_scheme \<Rightarrow> ('r, 'x) ring_ops_scheme \<Rightarrow> int \<Rightarrow> ('b, 'r) simple_client
     \<Rightarrow> (bool \<times> ('b, 'r) simple_client) option" where
  "make_packets nb R restSize s =
     (if restSize > int (nb_HEADER_SIZE nb)
      then (let b = nb_SetRead nb 0 (nb_PutHeader nb (rb_Peek R (nb_HEADER_SIZE nb) (recvRingBuffer s)) (nb_Fresh nb));
                len = payload_length nb b
            in if restSize < int len + int (nb_HEADER_SIZE nb)
               then Some (len \<le> nb_DEFAULTSIZE nb, s\<lparr>freed := freed s @ [b]\<rparr>)
               else (let (bytes, r) = rb_Dequeue R len (rb_RemoveData R (nb_HEADER_SIZE nb) (recvRingBuffer s));
                         s1 = s\<lparr>recvRingBuffer := r\<rparr>;
                         (ok, b1) = nb_Decode nb (nb_Append nb bytes b)
                     in if \<not> ok then Some (False, s1\<lparr>freed := freed s1 @ [b1]\<rparr>)
                        else make_packets nb R (restSize - (int (length bytes) + int (nb_HEADER_SIZE nb)))
                               (s1\<lparr>recvBufferQueue := queue_push b1 (recvBufferQueue s1)\<rparr>)))
      else Some (True, s))"

definition MakePacketsFromRingBuffer ::
  "('b, 'y) NetBuffer_io_scheme \<Rightarrow> ('r, 'x) ring_ops_scheme \<Rightarrow> ('b, 'r) simple_client
     \<Rightarrow> (bool \<times> ('b, 'r) simple_client) option" where
  "MakePacketsFromRingBuffer nb R s = make_packets nb R (rb_GetUseSize R (recvRingBuffer s)) s"

text \<open>
  \<open>DoRecv\<close>. The parameter \<open>char* recvBuffer\<close> has size 8, so \<open>recv\<close> gives at most 8 bytes although the array behind it
  has 4096.
\<close>

datatype recv_outcome = Received "u8 list" | ConnectionClosed | RecvError

definition sizeof_recvBuffer :: nat where
  "sizeof_recvBuffer = 8"

definition close_client :: "('b, 'r) simple_client \<Rightarrow> ('b, 'r) simple_client" where
  "close_client s = s\<lparr>socketClosed := True, needStop := True\<rparr>"

definition client_DoRecv ::
  "('b, 'y) NetBuffer_io_scheme \<Rightarrow> 'r client_ring \<Rightarrow> recv_outcome \<Rightarrow> ('b, 'r) simple_client
     \<Rightarrow> ('b, 'r) simple_client option" where
  "client_DoRecv nb R out s =
     (case out of
        Received bs \<Rightarrow>
          (if rb_GetFreeSize R (recvRingBuffer s) < int (length bs) then Some (s\<lparr>needStop := True\<rparr>)
           else (case MakePacketsFromRingBuffer nb R (s\<lparr>recvRingBuffer := snd (rb_Enqueue R bs (recvRingBuffer s))\<rparr>) of
                   None \<Rightarrow> None
                 | Some (True, s1) \<Rightarrow> Some s1
                 | Some (False, s1) \<Rightarrow> Some (close_client s1)))
      | _ \<Rightarrow> Some (close_client s))"

fun RunRecvThread ::
  "('b, 'y) NetBuffer_io_scheme \<Rightarrow> 'r client_ring \<Rightarrow> recv_outcome list \<Rightarrow> ('b, 'r) simple_client
     \<Rightarrow> ('b, 'r) simple_client option" where
  "RunRecvThread nb R [] s = Some s"
| "RunRecvThread nb R (out # outs) s =
     (if needStop s then Some s
      else case client_DoRecv nb R out s of None \<Rightarrow> None | Some s1 \<Rightarrow> RunRecvThread nb R outs s1)"

definition GetRecvBufferSize :: "('b, 'r) simple_client \<Rightarrow> nat" where
  "GetRecvBufferSize s = length (recvBufferQueue s)"

definition GetRecvBuffer :: "('b, 'r) simple_client \<Rightarrow> ('b \<times> ('b, 'r) simple_client) option" where
  "GetRecvBuffer s =
     (case queue_pop (recvBufferQueue s) of
        None \<Rightarrow> None
      | Some (b, q) \<Rightarrow> Some (b, s\<lparr>recvBufferQueue := q\<rparr>))"

section \<open>Sending\<close>

definition client_SendPacket ::
  "('b, 'y) NetBuffer_io_scheme \<Rightarrow> 'b option \<Rightarrow> ('b, 'r) simple_client \<Rightarrow> ('b, 'r) simple_client" where
  "client_SendPacket nb packetBuffer s =
     (case packetBuffer of
        None \<Rightarrow> s
      | Some b \<Rightarrow>
          (let b1 = (if nb_IsEncoded nb b then b else nb_Encode nb (nb_SealForSend nb b))
           in s\<lparr>sendBufferQueue := queue_push (Some b1) (sendBufferQueue s), sendSemaphore := Suc (sendSemaphore s)\<rparr>))"

text \<open>
  \<open>DoSend\<close>: the outcomes of the calls of \<open>send\<close> are an argument; a short send counts as a success.
\<close>

fun send_loop ::
  "('b, 'y) NetBuffer_io_scheme \<Rightarrow> (nat \<Rightarrow> bool) \<Rightarrow> nat \<Rightarrow> ('b, 'r) simple_client \<Rightarrow> ('b, 'r) simple_client option" where
  "send_loop nb ok 0 s = Some s"
| "send_loop nb ok (Suc n) s =
     (case queue_pop (sendBufferQueue s) of
        None \<Rightarrow> None
      | Some (None, q) \<Rightarrow> Some (s\<lparr>sendBufferQueue := q\<rparr>)
      | Some (Some b, q) \<Rightarrow>
          (let b1 = nb_SetRead nb 0 b; s1 = s\<lparr>sendBufferQueue := q, freed := freed s @ [b1]\<rparr>
           in if \<not> ok (length (sent s)) then Some (s1\<lparr>needStop := True\<rparr>)
              else send_loop nb ok n (s1\<lparr>sent := sent s @ [b1]\<rparr>)))"

definition client_DoSend ::
  "('b, 'y) NetBuffer_io_scheme \<Rightarrow> (nat \<Rightarrow> bool) \<Rightarrow> ('b, 'r) simple_client \<Rightarrow> ('b, 'r) simple_client option" where
  "client_DoSend nb ok s =
     (let restSize = length (sendBufferQueue s)
      in if restSize = 0 then Some s else send_loop nb ok restSize s)"

text \<open>One turn of \<open>RunSendThread\<close>; \<open>None\<close> in the first component while the semaphore is 0.\<close>

definition send_turn ::
  "('b, 'y) NetBuffer_io_scheme \<Rightarrow> (nat \<Rightarrow> bool) \<Rightarrow> ('b, 'r) simple_client \<Rightarrow> ('b, 'r) simple_client option option" where
  "send_turn nb ok s =
     (if sendSemaphore s = 0 then None
      else Some (client_DoSend nb ok (s\<lparr>sendSemaphore := sendSemaphore s - 1\<rparr>)))"

section \<open>A reference for the cutting into packets\<close>

function split_frames :: "nat \<Rightarrow> (u8 list \<Rightarrow> nat) \<Rightarrow> u8 list \<Rightarrow> frame list \<times> u8 list" where
  "split_frames H plen bs =
     (if H = 0 \<or> length bs \<le> H then ([], bs)
      else if length bs < H + plen (take H bs) then ([], bs)
      else let n = plen (take H bs); (fs, rest) = split_frames H plen (drop (H + n) bs)
           in ((take H bs, take n (drop H bs)) # fs, rest))"
  by pat_completeness auto

termination
  by (relation "measure (\<lambda>(_, _, bs). length bs)") auto

declare split_frames.simps [simp del]

definition announced :: "('b, 'y) NetBuffer_io_scheme \<Rightarrow> u8 list \<Rightarrow> nat" where
  "announced nb hdr = payload_length nb (header_buffer nb hdr)"

definition decode_frame :: "('b, 'y) NetBuffer_io_scheme \<Rightarrow> frame \<Rightarrow> bool \<times> 'b" where
  "decode_frame nb f = nb_Decode nb (nb_Append nb (snd f) (header_buffer nb (fst f)))"

text \<open>The buffers of the frames up to the first that does not decode.\<close>

fun decode_frames :: "('b, 'y) NetBuffer_io_scheme \<Rightarrow> frame list \<Rightarrow> 'b list \<times> bool" where
  "decode_frames nb [] = ([], True)"
| "decode_frames nb (f # fs) =
     (if fst (decode_frame nb f)
      then (snd (decode_frame nb f) # fst (decode_frames nb fs), snd (decode_frames nb fs))
      else ([], False))"

text \<open>What is left in the ring buffer may grow into a packet.\<close>

definition rest_ok :: "('b, 'y) NetBuffer_io_scheme \<Rightarrow> u8 list \<Rightarrow> bool" where
  "rest_ok nb rest \<longleftrightarrow> length rest \<le> nb_HEADER_SIZE nb \<or>
     announced nb (take (nb_HEADER_SIZE nb) rest) \<le> nb_DEFAULTSIZE nb"

lemma make_packets_frames:
  assumes R: "ring_contract R bytes" and H: "0 < nb_HEADER_SIZE nb"
  shows "bytes (recvRingBuffer s) = bs \<Longrightarrow>
    \<exists>s'. make_packets nb R (int (length bs)) s =
        Some (snd (decode_frames nb (fst (split_frames (nb_HEADER_SIZE nb) (announced nb) bs))) \<and>
              rest_ok nb (snd (split_frames (nb_HEADER_SIZE nb) (announced nb) bs)), s') \<and>
      recvBufferQueue s' =
        recvBufferQueue s @ fst (decode_frames nb (fst (split_frames (nb_HEADER_SIZE nb) (announced nb) bs))) \<and>
      (snd (decode_frames nb (fst (split_frames (nb_HEADER_SIZE nb) (announced nb) bs))) \<longrightarrow>
        bytes (recvRingBuffer s') = snd (split_frames (nb_HEADER_SIZE nb) (announced nb) bs)) \<and>
      needStop s' = needStop s \<and> sendBufferQueue s' = sendBufferQueue s"
proof (induction "nb_HEADER_SIZE nb" "announced nb" bs arbitrary: s rule: split_frames.induct)
  case (1 bs)
  let ?H = "nb_HEADER_SIZE nb" and ?n = "announced nb (take (nb_HEADER_SIZE nb) bs)"
  let ?b = "header_buffer nb (take ?H bs)"
  have peek: "rb_Peek R ?H (recvRingBuffer s) = take ?H bs" using R 1(2) by (simp add: ring_contract_def)
  note unf = make_packets.simps [of nb R "int (length bs)" s] split_frames.simps [of ?H "announced nb" bs]
  consider "length bs \<le> ?H" | "?H < length bs" "length bs < ?H + ?n" | "?H < length bs" "?H + ?n \<le> length bs"
    by linarith
  then show ?case
  proof cases
    case 1
    then show ?thesis using \<open>bytes (recvRingBuffer s) = bs\<close> by (simp add: unf rest_ok_def)
  next
    case 2
    then show ?thesis using \<open>bytes (recvRingBuffer s) = bs\<close> H peek
      by (simp add: unf rest_ok_def header_buffer_def [symmetric] announced_def [symmetric] Let_def)
  next
    case 3
    let ?r = "rb_RemoveData R ?H (recvRingBuffer s)"
    let ?f = "(take ?H bs, take ?n (drop ?H bs))"
    have d: "fst (rb_Dequeue R ?n ?r) = take ?n (drop ?H bs)" "bytes (snd (rb_Dequeue R ?n ?r)) = drop (?H + ?n) bs"
      using R 1(2) by (simp_all add: ring_contract_def add.commute)
    let ?s1 = "s\<lparr>recvRingBuffer := snd (rb_Dequeue R ?n ?r)\<rparr>"
    obtain ok b1 where dec: "decode_frame nb ?f = (ok, b1)" by fastforce
    show ?thesis
    proof (cases ok)
      case False
      then show ?thesis using 3 H peek d dec
        by (simp add: unf header_buffer_def [symmetric] announced_def [symmetric] decode_frame_def Let_def
            case_prod_beta)
    next
      case True
      let ?s2 = "?s1\<lparr>recvBufferQueue := recvBufferQueue s @ [b1]\<rparr>"
      have l: "int (length bs) - (int ?n + int ?H) = int (length (drop (?H + ?n) bs))" using 3 by simp
      from 3 H have c: "\<not> (?H = 0 \<or> length bs \<le> ?H)" "\<not> length bs < ?H + ?n" by linarith+
      have "make_packets nb R (int (length bs)) s = make_packets nb R (int (length (drop (?H + ?n) bs))) ?s2"
        using 3 H peek d dec True l
        by (simp add: unf(1) header_buffer_def [symmetric] announced_def [symmetric] decode_frame_def Let_def
            case_prod_beta queue_push_def)
      then show ?thesis
        using 1(1) [OF c refl, of ?s2] d(2) dec True c
        by (simp add: unf(2) Let_def case_prod_beta)
    qed
  qed
qed

text \<open>
  C23. \<open>MakePacketsFromRingBuffer\<close> agrees with the reference cutting. It returns for every content of the
  ring buffer; the packets it queues are the decoded frames of the reference, in order, up to the first that
  does not decode; it returns true exactly when all of them decode and the incomplete rest announces no more than the
  size of a buffer; and then exactly that rest stays in the ring buffer.
\<close>

theorem MakePacketsFromRingBuffer_eq_reference:
  assumes "ring_contract R bytes" and "0 < nb_HEADER_SIZE nb"
    and "split_frames (nb_HEADER_SIZE nb) (announced nb) (bytes (recvRingBuffer s)) = (fs, rest)"
    and "decode_frames nb fs = (bufs, all_ok)"
  shows "\<exists>s'. MakePacketsFromRingBuffer nb R s = Some (all_ok \<and> rest_ok nb rest, s') \<and>
     recvBufferQueue s' = recvBufferQueue s @ bufs \<and> (all_ok \<longrightarrow> bytes (recvRingBuffer s') = rest)"
proof -
  have "rb_GetUseSize R (recvRingBuffer s) = int (length (bytes (recvRingBuffer s)))"
    using assms(1) by (simp add: ring_contract_def)
  with make_packets_frames [OF assms(1,2) refl, of s] assms(3,4) show ?thesis
    by (auto simp: MakePacketsFromRingBuffer_def)
qed

section \<open>Fragmentation\<close>

text \<open>A frame whose header announces its payload, which fits a buffer and decodes.\<close>

definition good_frame :: "('b, 'y) NetBuffer_io_scheme \<Rightarrow> frame \<Rightarrow> bool" where
  "good_frame nb f \<longleftrightarrow> length (fst f) = nb_HEADER_SIZE nb \<and> snd f \<noteq> [] \<and>
     announced nb (fst f) = length (snd f) \<and> length (snd f) \<le> nb_DEFAULTSIZE nb \<and> fst (decode_frame nb f)"

lemma decode_good_frames:
  "list_all (good_frame nb) fs \<Longrightarrow> decode_frames nb fs = (map (\<lambda>f. snd (decode_frame nb f)) fs, True)"
  by (induction fs) (auto simp: good_frame_def)

text \<open>
  Cutting any prefix \<open>p\<close> of a stream of good frames gives the first of them, and a rest that is the beginning
  of the next.
\<close>

definition unfinished :: "('b, 'y) NetBuffer_io_scheme \<Rightarrow> u8 list \<Rightarrow> bool" where
  "unfinished nb r \<longleftrightarrow> length r \<le> nb_HEADER_SIZE nb \<or>
     length r < nb_HEADER_SIZE nb + announced nb (take (nb_HEADER_SIZE nb) r) \<and>
     announced nb (take (nb_HEADER_SIZE nb) r) \<le> nb_DEFAULTSIZE nb"

lemma unfinished_facts:
  "unfinished nb r \<Longrightarrow> rest_ok nb r" "unfinished nb r \<Longrightarrow> length r \<le> nb_HEADER_SIZE nb + nb_DEFAULTSIZE nb"
  by (auto simp: unfinished_def rest_ok_def)

lemma unfinished_no_frame:
  assumes "unfinished nb (concat (map frame_bytes fs) @ tail)" and "list_all (good_frame nb) fs"
  shows "fs = []"
  using assms by (cases fs) (auto simp: unfinished_def good_frame_def frame_bytes_def)

lemma split_stream:
  assumes H: "0 < nb_HEADER_SIZE nb" and tail: "length tail \<le> nb_HEADER_SIZE nb"
  shows "list_all (good_frame nb) fs \<Longrightarrow> p @ q = concat (map frame_bytes fs) @ tail \<Longrightarrow>
    \<exists>k r. split_frames (nb_HEADER_SIZE nb) (announced nb) p = (take k fs, r) \<and>
      r @ q = concat (map frame_bytes (drop k fs)) @ tail \<and> unfinished nb r"
proof (induction fs arbitrary: p)
  case Nil
  then have "length p \<le> nb_HEADER_SIZE nb" using tail by (metis append.left_neutral concat.simps(1)
        le_add1 le_trans length_append list.map(1))
  with Nil show ?case
    by (intro exI [of _ 0] exI [of _ p]) (simp add: split_frames.simps [of _ _ p] unfinished_def)
next
  case (Cons f fs)
  let ?H = "nb_HEADER_SIZE nb" and ?l = "length (snd f)"
  have f: "length (fst f) = ?H" "announced nb (fst f) = ?l" "?l \<le> nb_DEFAULTSIZE nb"
    using Cons.prems(1) by (auto simp: good_frame_def)
  have s: "p @ q = fst f @ snd f @ concat (map frame_bytes fs) @ tail"
    using Cons.prems(2) by (simp add: frame_bytes_def [of f])
  have hdr: "take ?H p = fst f" if "?H \<le> length p" using that s f(1)
    by (metis append_eq_append_conv_if append_take_drop_id)
  consider "length p \<le> ?H" | "?H < length p" "length p < ?H + ?l" | "?H < length p" "?H + ?l \<le> length p"
    by linarith
  then show ?case
  proof cases
    case 1
    then show ?thesis using Cons.prems(2)
      by (intro exI [of _ 0] exI [of _ p]) (simp add: split_frames.simps [of _ _ p] unfinished_def)
  next
    case 2
    then show ?thesis using Cons.prems(2) hdr f
      by (intro exI [of _ 0] exI [of _ p]) (simp add: split_frames.simps [of _ _ p] unfinished_def)
  next
    case 3
    define p' where "p' = drop (?H + ?l) p"
    have p: "p = fst f @ snd f @ p'" and q: "p' @ q = concat (map frame_bytes fs) @ tail"
    proof -
      have "take (?H + ?l) (p @ q) = fst f @ snd f" using s f(1) by simp
      then have t: "take (?H + ?l) p = fst f @ snd f" using 3 by simp
      then show p: "p = fst f @ snd f @ p'" unfolding p'_def by (metis append_assoc append_take_drop_id)
      show "p' @ q = concat (map frame_bytes fs) @ tail" using s p by simp
    qed
    obtain k r where k: "split_frames ?H (announced nb) p' = (take k fs, r)"
      "r @ q = concat (map frame_bytes (drop k fs)) @ tail" "unfinished nb r"
      using Cons.IH [OF _ q] Cons.prems(1) by auto
    have "split_frames ?H (announced nb) p = (f # take k fs, r)"
      using 3 H f k(1) unfolding p
      by (simp add: split_frames.simps [of _ _ "fst f @ snd f @ p'"] Let_def)
    with k(2,3) show ?thesis by (intro exI [of _ "Suc k"] exI [of _ r]) simp
  qed
qed

text \<open>A ring buffer with room for \<open>cap\<close> bytes.\<close>

definition ring_room :: "'r client_ring \<Rightarrow> ('r \<Rightarrow> u8 list) \<Rightarrow> nat \<Rightarrow> bool" where
  "ring_room R bytes cap \<longleftrightarrow>
     (\<forall>r bs. rb_GetFreeSize R r = int cap - int (length (bytes r)) \<and>
        (length (bytes r) + length bs \<le> cap \<longrightarrow> bytes (snd (rb_Enqueue R bs r)) = bytes r @ bs))"

lemma client_DoRecv_chunk:
  assumes R: "ring_contract R bytes" and room: "ring_room R bytes cap" and H: "0 < nb_HEADER_SIZE nb"
    and tail: "length tail \<le> nb_HEADER_SIZE nb" and fs: "list_all (good_frame nb) fs"
    and stream: "(bytes (recvRingBuffer s) @ c) @ q = concat (map frame_bytes fs) @ tail"
    and fit: "length (bytes (recvRingBuffer s)) + length c \<le> cap"
  shows "\<exists>k s'. client_DoRecv nb R (Received c) s = Some s' \<and> needStop s' = needStop s \<and>
     recvBufferQueue s' = recvBufferQueue s @ map (\<lambda>f. snd (decode_frame nb f)) (take k fs) \<and>
     bytes (recvRingBuffer s') @ q = concat (map frame_bytes (drop k fs)) @ tail \<and>
     unfinished nb (bytes (recvRingBuffer s')) \<and> sendBufferQueue s' = sendBufferQueue s"
proof -
  let ?s1 = "s\<lparr>recvRingBuffer := snd (rb_Enqueue R c (recvRingBuffer s))\<rparr>"
  have b1: "bytes (recvRingBuffer ?s1) = bytes (recvRingBuffer s) @ c"
    and free: "\<not> rb_GetFreeSize R (recvRingBuffer s) < int (length c)"
    using room fit by (simp_all add: ring_room_def)
  obtain k r where k: "split_frames (nb_HEADER_SIZE nb) (announced nb) (bytes (recvRingBuffer s) @ c) = (take k fs, r)"
    "r @ q = concat (map frame_bytes (drop k fs)) @ tail" "unfinished nb r"
    using split_stream [OF H tail fs stream] by blast
  have g: "list_all (good_frame nb) (take k fs)" using fs by (metis append_take_drop_id list_all_append)
  have u: "rb_GetUseSize R (recvRingBuffer ?s1) = int (length (bytes (recvRingBuffer s) @ c))"
    using R b1 by (simp add: ring_contract_def)
  from make_packets_frames [OF R H b1] k g obtain s' where
    "make_packets nb R (int (length (bytes (recvRingBuffer s) @ c))) ?s1 = Some (True, s')"
    "recvBufferQueue s' = recvBufferQueue s @ map (\<lambda>f. snd (decode_frame nb f)) (take k fs)"
    "bytes (recvRingBuffer s') = r" "needStop s' = needStop s" "sendBufferQueue s' = sendBufferQueue s"
    by (auto simp: decode_good_frames unfinished_facts(1))
  then show ?thesis using k free u
    by (intro exI [of _ k] exI [of _ s']) (simp add: client_DoRecv_def MakePacketsFromRingBuffer_def)
qed

text \<open>The receive thread along any pieces of such a stream.\<close>

lemma RunRecvThread_stream:
  assumes R: "ring_contract R bytes" and room: "ring_room R bytes cap" and H: "0 < nb_HEADER_SIZE nb"
    and cap: "nb_HEADER_SIZE nb + nb_DEFAULTSIZE nb + sizeof_recvBuffer \<le> cap"
    and tail: "length tail \<le> nb_HEADER_SIZE nb"
  shows "bytes (recvRingBuffer s) @ concat pieces = concat (map frame_bytes fs) @ tail \<Longrightarrow>
    unfinished nb (bytes (recvRingBuffer s)) \<Longrightarrow> \<not> needStop s \<Longrightarrow> list_all (good_frame nb) fs \<Longrightarrow>
    \<forall>c \<in> set pieces. length c \<le> sizeof_recvBuffer \<Longrightarrow>
    \<exists>s'. RunRecvThread nb R (map Received pieces) s = Some s' \<and> \<not> needStop s' \<and>
      recvBufferQueue s' = recvBufferQueue s @ map (\<lambda>f. snd (decode_frame nb f)) fs \<and>
      bytes (recvRingBuffer s') = tail \<and> sendBufferQueue s' = sendBufferQueue s"
proof (induction pieces arbitrary: s fs)
  case Nil
  then have "fs = []" using unfinished_no_frame by fastforce
  with Nil show ?case by simp
next
  case (Cons c pieces)
  have st: "(bytes (recvRingBuffer s) @ c) @ concat pieces = concat (map frame_bytes fs) @ tail"
    using Cons.prems(1) by simp
  have fit: "length (bytes (recvRingBuffer s)) + length c \<le> cap"
    using unfinished_facts(2) [OF Cons.prems(2)] Cons.prems(5) cap by fastforce
  obtain k s1 where s1: "client_DoRecv nb R (Received c) s = Some s1" "needStop s1 = needStop s"
    "recvBufferQueue s1 = recvBufferQueue s @ map (\<lambda>f. snd (decode_frame nb f)) (take k fs)"
    "bytes (recvRingBuffer s1) @ concat pieces = concat (map frame_bytes (drop k fs)) @ tail"
    "unfinished nb (bytes (recvRingBuffer s1))" "sendBufferQueue s1 = sendBufferQueue s"
    using client_DoRecv_chunk [OF R room H tail Cons.prems(4) st fit] by blast
  have g: "list_all (good_frame nb) (drop k fs)"
    using Cons.prems(4) by (metis append_take_drop_id list_all_append)
  obtain s' where s': "RunRecvThread nb R (map Received pieces) s1 = Some s'" "\<not> needStop s'"
    "recvBufferQueue s' = recvBufferQueue s1 @ map (\<lambda>f. snd (decode_frame nb f)) (drop k fs)"
    "bytes (recvRingBuffer s') = tail" "sendBufferQueue s' = sendBufferQueue s1"
    using Cons.IH [OF s1(4,5) _ g] s1(2) Cons.prems(3,5) by auto
  have "map (\<lambda>f. snd (decode_frame nb f)) (take k fs) @ map (\<lambda>f. snd (decode_frame nb f)) (drop k fs) =
      map (\<lambda>f. snd (decode_frame nb f)) fs" by (metis append_take_drop_id map_append)
  with s1 s' Cons.prems(3) show ?case by simp
qed

text \<open>
  C24. The client receives whole packets however they are cut. When the bytes of a stream of good frames
  arrive in any pieces of at most the size \<open>DoRecv\<close> passes to \<open>recv\<close>, and the ring buffer has room for one packet and one
  piece, the receive thread queues exactly the decoded packets, in order, keeps what follows the last of them,
  and does not stop.
\<close>

theorem client_receives_any_pieces:
  assumes "ring_contract R bytes" and "ring_room R bytes cap" and "0 < nb_HEADER_SIZE nb"
    and "nb_HEADER_SIZE nb + nb_DEFAULTSIZE nb + sizeof_recvBuffer \<le> cap"
    and "list_all (good_frame nb) fs" and "length tail \<le> nb_HEADER_SIZE nb"
    and "bytes (recvRingBuffer s) = []" and "\<not> needStop s"
    and "concat pieces = concat (map frame_bytes fs) @ tail" and "\<forall>c \<in> set pieces. length c \<le> sizeof_recvBuffer"
  shows "\<exists>s'. RunRecvThread nb R (map Received pieces) s = Some s' \<and> \<not> needStop s' \<and>
     recvBufferQueue s' = recvBufferQueue s @ map (\<lambda>f. snd (decode_frame nb f)) fs \<and>
     bytes (recvRingBuffer s') = tail"
  using RunRecvThread_stream [OF assms(1,2,3,4,6), of s pieces fs] assms(5,7-10)
  by (auto simp: unfinished_def)

text \<open>Two packets in pieces of 8, 8, 3 and 2 bytes, with three bytes of a third packet behind them.\<close>

definition list_client_ring :: "(u8 list \<times> u8 list) client_ring" where
  "list_client_ring = ring_ops.extend list_ring
     \<lparr>rb_Enqueue = (\<lambda>bs r. (int (length bs), (fst r @ bs, snd r)))\<rparr>"

lemma list_client_ring_ok: "ring_contract list_client_ring fst" "ring_room list_client_ring fst 1000"
  by (simp_all add: ring_contract_def ring_room_def list_client_ring_def list_ring_def ring_ops.extend_def)

definition fresh_client :: "(u8 list \<times> nat, u8 list \<times> u8 list) simple_client" where
  "fresh_client = \<lparr>needStop = False, isConnected = True, recvBufferQueue = [], sendBufferQueue = [],
     recvRingBuffer = ([], []), sendSemaphore = 0, sent = [], freed = [], socketClosed = False, disconnects = 0,
     connects = 1\<rparr>"

lemma pong_good: "good_frame strict_io pong_frame"
  by (simp add: good_frame_def announced_def decode_frame_def frame_eval)

lemma strict_io_sizes: "nb_HEADER_SIZE strict_io = 5" "nb_DEFAULTSIZE strict_io = 100"
  by (simp_all add: frame_eval)

definition four_pieces :: "u8 list list" where
  "four_pieces = [[0, 4, 0, 0, 0, 2, 0, 0], [0, 0, 4, 0, 0, 0, 2, 0], [0, 0, 0], [4, 0]]"

lemma four_pieces_stream: "concat four_pieces = concat (map frame_bytes [pong_frame, pong_frame]) @ [0, 4, 0]"
  by (simp add: four_pieces_def frame_bytes_def pong_frame_def)

theorem client_receives_any_pieces_witness:
  "\<exists>s'. RunRecvThread strict_io list_client_ring (map Received four_pieces) fresh_client = Some s' \<and>
     length (recvBufferQueue s') = 2 \<and> fst (recvRingBuffer s') = [0, 4, 0]"
proof -
  have pieces: "\<forall>c \<in> set four_pieces. length c \<le> sizeof_recvBuffer"
    by (simp add: four_pieces_def sizeof_recvBuffer_def)
  have fits: "nb_HEADER_SIZE strict_io + nb_DEFAULTSIZE strict_io + sizeof_recvBuffer \<le> 1000"
    and H: "0 < nb_HEADER_SIZE strict_io" and t: "length [0, 4, 0 :: u8] \<le> nb_HEADER_SIZE strict_io"
    by (simp_all add: strict_io_sizes sizeof_recvBuffer_def)
  have g: "list_all (good_frame strict_io) [pong_frame, pong_frame]" by (simp add: pong_good)
  have c: "fst (recvRingBuffer fresh_client) = []" "\<not> needStop fresh_client" "recvBufferQueue fresh_client = []"
    by (simp_all add: fresh_client_def)
  show ?thesis
    using client_receives_any_pieces [OF list_client_ring_ok H fits g t c(1,2) four_pieces_stream pieces] c(3) by auto
qed

theorem MakePacketsFromRingBuffer_eq_reference_witness:
  "\<exists>s'. MakePacketsFromRingBuffer strict_io list_client_ring
       (fresh_client\<lparr>recvRingBuffer := (frame_bytes pong_frame @ [0, 4, 0, 0, 0, 2], [])\<rparr>) = Some (True, s') \<and>
     length (recvBufferQueue s') = 1 \<and> fst (recvRingBuffer s') = [0, 4, 0, 0, 0, 2]"
proof -
  let ?s = "fresh_client\<lparr>recvRingBuffer := (frame_bytes pong_frame @ [0, 4, 0, 0, 0, 2], [])\<rparr>"
  have a: "announced strict_io [0, 4, 0, 0, 0] = 4" by (simp add: announced_def frame_eval)
  have sp: "split_frames (nb_HEADER_SIZE strict_io) (announced strict_io) (fst (recvRingBuffer ?s)) =
      ([pong_frame], [0, 4, 0, 0, 0, 2])"
    by (simp add: strict_io_sizes frame_bytes_def pong_frame_def split_frames.simps a Let_def)
  have d: "decode_frames strict_io [pong_frame] = ([snd (decode_frame strict_io pong_frame)], True)"
    using pong_good by (simp add: good_frame_def)
  have H: "0 < nb_HEADER_SIZE strict_io" by (simp add: strict_io_sizes)
  have r: "rest_ok strict_io [0, 4, 0, 0, 0, 2]" by (simp add: rest_ok_def strict_io_sizes a)
  show ?thesis
    using MakePacketsFromRingBuffer_eq_reference [OF list_client_ring_ok(1) H sp d] r by (auto simp: fresh_client_def)
qed

section \<open>Sending\<close>

text \<open>
  \<open>DoSend\<close> sends the packets that were queued when it began, in order, up to the first failing call, and frees
  each packet it takes exactly once; a failure sets \<open>needStop\<close> and leaves the later packets in the queue.
\<close>

lemma send_loop_exact:
  assumes "sendBufferQueue s = map Some bs @ q"
  shows "\<exists>s' n. send_loop nb ok (length bs) s = Some s' \<and> n \<le> length bs \<and>
     (\<forall>i < n. ok (length (sent s) + i)) \<and> (n < length bs \<longrightarrow> \<not> ok (length (sent s) + n)) \<and>
     sent s' = sent s @ map (nb_SetRead nb 0) (take n bs) \<and>
     freed s' = freed s @ map (nb_SetRead nb 0) (take (Suc n) bs) \<and>
     sendBufferQueue s' = map Some (drop (Suc n) bs) @ q \<and>
     needStop s' = (needStop s \<or> n < length bs)"
  using assms
proof (induction bs arbitrary: s)
  case Nil
  then show ?case by (intro exI [of _ s] exI [of _ 0]) simp
next
  case (Cons b bs)
  let ?b = "nb_SetRead nb 0 b"
  let ?s1 = "s\<lparr>sendBufferQueue := map Some bs @ q, freed := freed s @ [?b]\<rparr>"
  show ?case
  proof (cases "ok (length (sent s))")
    case False
    then show ?thesis using Cons.prems
      by (intro exI [of _ "?s1\<lparr>needStop := True\<rparr>"] exI [of _ 0]) (simp add: queue_pop_def Let_def)
  next
    case True
    obtain s' n where IH: "send_loop nb ok (length bs) (?s1\<lparr>sent := sent s @ [?b]\<rparr>) = Some s'" "n \<le> length bs"
      "\<forall>i < n. ok (Suc (length (sent s)) + i)" "n < length bs \<longrightarrow> \<not> ok (Suc (length (sent s)) + n)"
      "sent s' = (sent s @ [?b]) @ map (nb_SetRead nb 0) (take n bs)"
      "freed s' = (freed s @ [?b]) @ map (nb_SetRead nb 0) (take (Suc n) bs)"
      "sendBufferQueue s' = map Some (drop (Suc n) bs) @ q" "needStop s' = (needStop s \<or> n < length bs)"
      using Cons.IH [of "?s1\<lparr>sent := sent s @ [?b]\<rparr>"] by auto
    have "ok (length (sent s) + i)" if "i < Suc n" for i using that True IH(3) by (cases i) auto
    then show ?thesis using True Cons.prems IH
      by (intro exI [of _ s'] exI [of _ "Suc n"]) (simp add: queue_pop_def Let_def)
  qed
qed

lemma client_DoSend_all:
  assumes "sendBufferQueue s = map Some bs" and "\<And>i. ok i"
  shows "\<exists>s'. client_DoSend nb ok s = Some s' \<and> sent s' = sent s @ map (nb_SetRead nb 0) bs \<and>
     sendBufferQueue s' = [] \<and> needStop s' = needStop s"
proof (cases "bs = []")
  case True
  then show ?thesis using assms by (simp add: client_DoSend_def)
next
  case False
  obtain s' n where s': "send_loop nb ok (length bs) s = Some s'" "n \<le> length bs"
    "n < length bs \<longrightarrow> \<not> ok (length (sent s) + n)" "sent s' = sent s @ map (nb_SetRead nb 0) (take n bs)"
    "sendBufferQueue s' = map Some (drop (Suc n) bs)" "needStop s' = (needStop s \<or> n < length bs)"
    using send_loop_exact [of s bs "[]" nb ok] assms(1) by auto
  then have "n = length bs" using assms(2) by auto
  with s' False show ?thesis using assms(1) by (simp add: client_DoSend_def Let_def)
qed

section \<open>Connecting\<close>

lemma connect_loop_exact:
  "fst (connect_loop ok i n) \<longleftrightarrow> (\<exists>j < n. ok (i + j))" and "snd (connect_loop ok i n) \<le> n"
proof (induction n arbitrary: i)
  case 0
  { case 1 show ?case by simp }
  { case 2 show ?case by simp }
next
  case (Suc n)
  { case 1
    have "(\<exists>j < Suc n. ok (i + j)) \<longleftrightarrow> ok i \<or> (\<exists>j < n. ok (Suc i + j))"
      using less_Suc_eq_0_disj by auto
    then show ?case using Suc.IH(1) [of "Suc i"] by (auto split: prod.splits) }
  { case 2 show ?case using Suc.IH(2) [of "Suc i"] by (auto split: prod.splits) }
qed

lemma ConnectToServer_tries: "ConnectToServer ok \<longleftrightarrow> (\<exists>j < 5. ok j)"
  using connect_loop_exact(1) [of ok 0 5] by (simp add: ConnectToServer_def RECONNECT_TRY_COUNT_def)

text \<open>A start that fails does not set \<open>needStop\<close>, which the logic thread, already started by then, waits for.\<close>

lemma failed_Start_keeps_running:
  assumes "Start options_ok startup_ok socket_ok ok s = (False, s')"
  shows "needStop s' = needStop s"
  using assms by (auto simp: Start_def TryConnectToServer_def Let_def split: if_splits)

end
