(* ===== verification/ClientLogic.thy ===== *)
theory ClientLogic
  imports ClientIO Protocol
begin

text \<open>
  The test client's own logic (\<open>TestClient/\<close>: \<open>Client\<close>, \<open>ClientLogicHandler\<close>, \<open>ClientLogicProcess\<close>, \<open>Actor\<close>,
  \<open>Player\<close>, \<open>ActorManager\<close>, \<open>ActorCreator\<close>, \<open>main\<close>). Actors are objects at addresses; log lines of errors are recorded.
\<close>

section \<open>Actors\<close>

datatype client_event =
    CreatedCall nat
  | DestroyedCall nat
  | UnknownActorType ACTOR_TYPE
  | CreateFailed u64 ACTOR_TYPE
  | UnknownPacket u32

record actors =
  actorIdOf :: "nat \<rightharpoonup> u64"
  actorMap :: "(u64, nat) umap"
  next_addr :: nat
  events :: "client_event list"

definition note_event :: "client_event \<Rightarrow> actors \<Rightarrow> actors" where
  "note_event e s = s\<lparr>events := events s @ [e]\<rparr>"

definition client_FindActor :: "actors \<Rightarrow> u64 \<Rightarrow> nat option" where
  "client_FindActor s i = umap_find (actorMap s) i"

text \<open>\<open>None\<close> is \<open>nullptr\<close>; reading an object that does not exist leaves the manager as it is here.\<close>

definition manager_AddActor :: "nat option \<Rightarrow> actors \<Rightarrow> actors" where
  "manager_AddActor pa s =
     (case pa of
        None \<Rightarrow> s
      | Some p \<Rightarrow>
          (case actorIdOf s p of
             None \<Rightarrow> s
           | Some i \<Rightarrow> note_event (CreatedCall p) (s\<lparr>actorMap := umap_assign i p (actorMap s)\<rparr>)))"

definition manager_RemoveActor :: "u64 \<Rightarrow> actors \<Rightarrow> actors" where
  "manager_RemoveActor i s =
     (case umap_find (actorMap s) i of
        None \<Rightarrow> s
      | Some p \<Rightarrow> note_event (DestroyedCall p) (s\<lparr>actorMap := umap_erase i (actorMap s)\<rparr>))"

definition ClearAllActors :: "actors \<Rightarrow> actors" where
  "ClearAllActors s = s\<lparr>actorMap := []\<rparr>"

definition RegisterActor :: "nat option \<Rightarrow> actors \<Rightarrow> actors" where
  "RegisterActor pa s = manager_AddActor pa s"

definition UnregisterActor :: "u64 \<Rightarrow> actors \<Rightarrow> actors" where
  "UnregisterActor i s = manager_RemoveActor i s"

text \<open>\<open>Actor::Create<Player>(id)\<close>: a new object with this id, registered at once.\<close>

definition Create_Player :: "u64 \<Rightarrow> actors \<Rightarrow> nat \<times> actors" where
  "Create_Player i s =
     (let p = next_addr s; s1 = s\<lparr>actorIdOf := (actorIdOf s)(p \<mapsto> i), next_addr := Suc p\<rparr>
      in (p, RegisterActor (Some p) s1))"

text \<open>\<open>ActorCreator::CreateActor\<close> passes the actor type to the constructor, not the actor id.\<close>

definition CreateActor :: "u64 \<Rightarrow> ACTOR_TYPE \<Rightarrow> actors \<Rightarrow> nat option \<times> actors" where
  "CreateActor inActorId inActorType s =
     (if inActorType = PLAYER then (case Create_Player (ucast inActorType) s of (p, s1) \<Rightarrow> (Some p, s1))
      else (None, note_event (UnknownActorType inActorType) s))"

section \<open>The client\<close>

record 'b NetBuffer_client = "'b NetBuffer_io" +
  nb_read_u64 :: "'b \<Rightarrow> u64 \<times> 'b"
  nb_read_u16 :: "'b \<Rightarrow> u16 \<times> 'b"

record ('b, 'r) client =
  net :: "('b, 'r) simple_client"
  world :: actors

text \<open>
  \<open>Client::SendPacket\<close>. The bytes after the packet id are copied from \<open>&packet + sizeof(char*)\<close>, eight objects
  of the type \<open>IPacket\<close> (8 bytes each) beyond the start of the packet; reading outside the packet is undefined. The
  allocated buffer is not tested for null.
\<close>

definition client_packet_bytes :: "protocol_packet \<Rightarrow> u8 list option" where
  "client_packet_bytes p =
     (if GetPacketSize p = 0 then Some []
      else if 8 * 8 + GetPacketSize p \<le> sizeof_packet p
      then Some (take (nat (GetPacketSize p)) (drop (8 * 8 - 8) (members p)))
      else None)"

definition Client_SendPacket ::
  "('b, 'y) NetBuffer_io_scheme \<Rightarrow> 'b option \<Rightarrow> protocol_packet \<Rightarrow> ('b, 'r) simple_client
     \<Rightarrow> ('b, 'r) simple_client option" where
  "Client_SendPacket nb alloc p s =
     (case alloc of
        None \<Rightarrow> None
      | Some b \<Rightarrow>
          (case client_packet_bytes p of
             None \<Rightarrow> None
           | Some bs \<Rightarrow>
               Some (client_SendPacket nb
                 (Some (nb_Append nb bs (nb_WriteU32 nb (packet_code (protocol_id p)) b))) s)))"

definition Client_Pong ::
  "('b, 'y) NetBuffer_io_scheme \<Rightarrow> 'b option \<Rightarrow> ('b, 'r) client \<Rightarrow> ('b, 'r) client option" where
  "Client_Pong nb alloc c = map_option (\<lambda>n. c\<lparr>net := n\<rparr>) (Client_SendPacket nb alloc Ping (net c))"

definition Client_AddActor :: "('b, 'y) NetBuffer_client_scheme \<Rightarrow> 'b \<Rightarrow> actors \<Rightarrow> actors" where
  "Client_AddActor nb b s =
     (let (i, b1) = nb_read_u64 nb b; (t, b2) = nb_read_u16 nb b1; (pa, s1) = CreateActor i t s
      in if pa = None then note_event (CreateFailed i t) s1 else manager_AddActor pa s1)"

definition Client_RemoveActor :: "('b, 'y) NetBuffer_client_scheme \<Rightarrow> 'b \<Rightarrow> actors \<Rightarrow> actors" where
  "Client_RemoveActor nb b s = (let (i, b1) = nb_read_u64 nb b in manager_RemoveActor i s)"

text \<open>The case of \<open>DISAPPEAR_ACTOR\<close> falls through to the default case.\<close>

definition ProcessLogic ::
  "('b, 'y) NetBuffer_client_scheme \<Rightarrow> 'b option \<Rightarrow> 'b \<Rightarrow> ('b, 'r) client \<Rightarrow> ('b, 'r) client option" where
  "ProcessLogic nb alloc b c =
     (let (packetId, b1) = nb_read_u32 nb b;
          unknown = (\<lambda>c. c\<lparr>world := note_event (UnknownPacket packetId) (world c)\<rparr>)
      in if packetId = packet_code PONG then Client_Pong nb alloc c
         else if packetId = packet_code APPEAR_ACTOR then Some (c\<lparr>world := Client_AddActor nb b1 (world c)\<rparr>)
         else if packetId = packet_code DISAPPEAR_ACTOR
         then Some (unknown (c\<lparr>world := Client_RemoveActor nb b1 (world c)\<rparr>))
         else Some (unknown c))"

text \<open>One turn of \<open>RunLogicThread\<close>; buffers for replies come from \<open>alloc\<close>.\<close>

fun logic_loop ::
  "('b, 'y) NetBuffer_client_scheme \<Rightarrow> (nat \<Rightarrow> 'b option) \<Rightarrow> nat \<Rightarrow> ('b, 'r) client \<Rightarrow> ('b, 'r) client option" where
  "logic_loop nb alloc 0 c = Some c"
| "logic_loop nb alloc (Suc n) c =
     (case GetRecvBuffer (net c) of
        None \<Rightarrow> None
      | Some (b, s) \<Rightarrow>
          (case ProcessLogic nb (alloc n) b (c\<lparr>net := s\<rparr>) of
             None \<Rightarrow> None
           | Some c1 \<Rightarrow> logic_loop nb alloc n (c1\<lparr>net := (net c1)\<lparr>freed := freed (net c1) @ [b]\<rparr>\<rparr>)))"

definition logic_turn ::
  "('b, 'y) NetBuffer_client_scheme \<Rightarrow> (nat \<Rightarrow> 'b option) \<Rightarrow> ('b, 'r) client \<Rightarrow> ('b, 'r) client option" where
  "logic_turn nb alloc c = logic_loop nb alloc (GetRecvBufferSize (net c)) c"

fun client_RunLogicThread ::
  "('b, 'y) NetBuffer_client_scheme \<Rightarrow> (nat \<Rightarrow> nat \<Rightarrow> 'b option) \<Rightarrow> nat \<Rightarrow> ('b, 'r) client
     \<Rightarrow> (bool \<times> ('b, 'r) client) option" where
  "client_RunLogicThread nb alloc 0 c = Some (False, c)"
| "client_RunLogicThread nb alloc (Suc n) c =
     (if needStop (net c) then Some (True, c)
      else case logic_turn nb (alloc n) c of None \<Rightarrow> None | Some c1 \<Rightarrow> client_RunLogicThread nb alloc n c1)"

section \<open>The actor manager as a keyed store\<close>

definition actors_ok :: "actors \<Rightarrow> bool" where
  "actors_ok s \<longleftrightarrow> umap_ok (actorMap s) \<and> (\<forall>i p. umap_find (actorMap s) i = Some p \<longrightarrow> actorIdOf s p = Some i) \<and>
     (\<forall>p. actorIdOf s p \<noteq> None \<longrightarrow> p < next_addr s)"

interpretation manager: assign_store client_FindActor manager_RemoveActor "\<lambda>s. umap_ok (actorMap s)"
  "\<lambda>i p s. note_event (CreatedCall p) (s\<lparr>actorMap := umap_assign i p (actorMap s)\<rparr>)"
  by unfold_locales (auto simp: client_FindActor_def manager_RemoveActor_def note_event_def store_simps fun_eq_iff
      split: option.splits)

section \<open>Facts\<close>

lemmas actor_defs = manager_AddActor_def manager_RemoveActor_def RegisterActor_def Create_Player_def
  CreateActor_def note_event_def

lemma actors_ok_note [simp]: "actors_ok (note_event e s) = actors_ok s"
  by (simp add: actors_ok_def note_event_def)

lemma actors_ok_add: "actors_ok s \<Longrightarrow> actors_ok (manager_AddActor pa s)"
  by (auto simp: actors_ok_def manager_AddActor_def note_event_def store_simps split: option.splits)

lemma actors_ok_remove: "actors_ok s \<Longrightarrow> actors_ok (manager_RemoveActor i s)"
  by (auto simp: actors_ok_def manager_RemoveActor_def note_event_def store_simps split: option.splits)

lemma actors_ok_new:
  assumes "actors_ok s"
  shows "actors_ok (s\<lparr>actorIdOf := (actorIdOf s)(next_addr s \<mapsto> i), next_addr := Suc (next_addr s)\<rparr>)"
proof -
  have "actorIdOf s (next_addr s) = None" using assms by (fastforce simp: actors_ok_def)
  then show ?thesis using assms by (fastforce simp: actors_ok_def less_Suc_eq)
qed

lemma actors_ok_create: "actors_ok s \<Longrightarrow> actors_ok (snd (CreateActor i t s))"
  by (simp add: CreateActor_def Create_Player_def RegisterActor_def Let_def actors_ok_add actors_ok_new)

lemma actors_ok_ProcessLogic:
  assumes "actors_ok (world c)" and "ProcessLogic nb alloc b c = Some c'"
  shows "actors_ok (world c')"
proof -
  have add: "actors_ok (Client_AddActor nb b1 (world c))" for b1
    using actors_ok_create [OF assms(1)]
    by (auto simp: Client_AddActor_def Let_def case_prod_beta actors_ok_add)
  have remove: "actors_ok (Client_RemoveActor nb b1 (world c))" for b1
    using actors_ok_remove [OF assms(1)] by (simp add: Client_RemoveActor_def case_prod_beta)
  show ?thesis using assms add remove
    by (auto simp: ProcessLogic_def Client_Pong_def Let_def case_prod_beta split: if_splits)
qed

lemma actors_ok_logic_loop:
  "logic_loop nb alloc n c = Some c' \<Longrightarrow> actors_ok (world c) \<Longrightarrow> actors_ok (world c')"
proof (induction n arbitrary: c)
  case 0
  then show ?case by simp
next
  case (Suc n)
  then obtain b s c1 where "ProcessLogic nb (alloc n) b (c\<lparr>net := s\<rparr>) = Some c1"
    and r: "logic_loop nb alloc n (c1\<lparr>net := (net c1)\<lparr>freed := freed (net c1) @ [b]\<rparr>\<rparr>) = Some c'"
    by (auto split: option.splits prod.splits)
  with Suc.prems(2) have "actors_ok (world c1)" using actors_ok_ProcessLogic [of "c\<lparr>net := s\<rparr>"] by simp
  with Suc.IH [OF r] show ?case by simp
qed

text \<open>
  C25. The client's actor map stays well formed. Whatever packets the logic thread handles in a turn, afterwards
  each id is registered at most once, every registered object exists, and it is registered under its own id.
\<close>

theorem client_map_well_formed:
  assumes "actors_ok (world c)" and "logic_turn nb alloc c = Some c'"
  shows "umap_ok (actorMap (world c')) \<and>
    (\<forall>i p. client_FindActor (world c') i = Some p \<longrightarrow> actorIdOf (world c') p = Some i)"
  using actors_ok_logic_loop [of nb alloc _ c c'] assms
  by (simp add: logic_turn_def actors_ok_def client_FindActor_def)

text \<open>
  An actor that appears is not the one the server named. The client creates a player whose id is the numeric value
  of the actor type, registers it twice (\<open>OnActorCreated\<close> runs twice), and leaves the lookup of the id the server sent as
  it was, so that the removal the server asks for later removes nothing.
\<close>

theorem appearing_actor_gets_type_as_id:
  assumes "nb_read_u64 nb b = (i, b1)" and "nb_read_u16 nb b1 = (PLAYER, b2)" and "i \<noteq> 1"
    and "client_FindActor s i = None"
  shows "client_FindActor (Client_AddActor nb b s) 1 = Some (next_addr s) \<and>
    actorIdOf (Client_AddActor nb b s) (next_addr s) = Some 1 \<and>
    events (Client_AddActor nb b s) = events s @ [CreatedCall (next_addr s), CreatedCall (next_addr s)] \<and>
    manager_RemoveActor i (Client_AddActor nb b s) = Client_AddActor nb b s"
  using assms
  by (simp add: Client_AddActor_def actor_defs PLAYER_def client_FindActor_def store_simps Let_def)

text \<open>A packet with members cannot be sent by the client: the copy reads outside the packet object.\<close>

lemma Client_SendPacket_members:
  "Client_SendPacket nb (Some b) (AppearActor i t) s = None"
  "\<exists>s'. Client_SendPacket nb (Some b) Ping s = Some s' \<and> length (sendBufferQueue s') = Suc (length (sendBufferQueue s))"
  by (simp_all add: Client_SendPacket_def client_packet_bytes_def GetPacketSize_def sizeof_packet_def
      client_SendPacket_def queue_push_def)

text \<open>A disappearing actor is removed and then reported as an unknown packet.\<close>

lemma disappear_reported_unknown:
  assumes "nb_read_u32 nb b = (packet_code DISAPPEAR_ACTOR, b1)"
  shows "\<exists>c'. ProcessLogic nb alloc b c = Some c' \<and> last (events (world c')) = UnknownPacket 4"
  using assms by (simp add: ProcessLogic_def note_event_def Let_def)

text \<open>
  A client whose start fails does not end. \<open>StartClient\<close> starts the logic thread before it connects; when the
  start fails nothing sets \<open>needStop\<close>, and the logic thread, which the client object joins when it is
  destroyed, goes round its loop for ever.
\<close>

theorem failed_start_leaves_logic_thread:
  assumes "Start options_ok startup_ok socket_ok ok (net c) = (False, s')" and "\<not> needStop (net c)"
    and "recvBufferQueue (net c) = []"
  shows "client_RunLogicThread nb alloc n (c\<lparr>net := s'\<rparr>) = Some (False, c\<lparr>net := s'\<rparr>)"
proof -
  have n: "\<not> needStop s'" using failed_Start_keeps_running [OF assms(1)] assms(2) by simp
  have "recvBufferQueue s' = []"
    using assms(1,3) by (auto simp: Start_def TryConnectToServer_def Let_def split: if_splits)
  then have "logic_turn nb a (c\<lparr>net := s'\<rparr>) = Some (c\<lparr>net := s'\<rparr>)" for a
    by (simp add: logic_turn_def GetRecvBufferSize_def)
  with n show ?thesis by (induction n) simp_all
qed

section \<open>Examples\<close>

text \<open>Byte lists with a read position as buffers.\<close>

definition list_client_io :: "(u8 list \<times> nat) NetBuffer_client" where
  "list_client_io = NetBuffer_io.extend list_io
     \<lparr>nb_read_u64 = (\<lambda>b. (of_nat (le_nat (take 8 (drop (snd b) (fst b)))), (fst b, snd b + 8))),
      nb_read_u16 = (\<lambda>b. (of_nat (le_nat (take 2 (drop (snd b) (fst b)))), (fst b, snd b + 2)))\<rparr>"

lemma list_client_io_reads:
  "nb_read_u64 list_client_io b = (of_nat (le_nat (take 8 (drop (snd b) (fst b)))), (fst b, snd b + 8))"
  "nb_read_u16 list_client_io b = (of_nat (le_nat (take 2 (drop (snd b) (fst b)))), (fst b, snd b + 2))"
  by (simp_all add: list_client_io_def NetBuffer_io.defs)

definition no_actors :: actors where
  "no_actors = \<lparr>actorIdOf = Map.empty, actorMap = [], next_addr = 0, events = []\<rparr>"

lemma no_actors_ok: "actors_ok no_actors"
  by (simp add: actors_ok_def no_actors_def)

text \<open>The server says that player 42 appears.\<close>

definition appear42 :: "u8 list \<times> nat" where
  "appear42 = (members (AppearActor 42 PLAYER), 0)"

lemma appear42_reads:
  "nb_read_u64 list_client_io appear42 = (42, (members (AppearActor 42 PLAYER), 8))"
  "nb_read_u16 list_client_io (members (AppearActor 42 PLAYER), 8) = (PLAYER, (members (AppearActor 42 PLAYER), 10))"
  using AppearActor_members [of 42 PLAYER] by (simp_all add: list_client_io_reads appear42_def PLAYER_def)

theorem appearing_actor_gets_type_as_id_witness:
  "client_FindActor (Client_AddActor list_client_io appear42 no_actors) 1 = Some 0"
  using appearing_actor_gets_type_as_id [OF appear42_reads, of no_actors]
  by (simp add: no_actors_def client_FindActor_def)

definition client0 :: "(u8 list \<times> nat, u8 list \<times> u8 list) client" where
  "client0 = \<lparr>net = fresh_client, world = no_actors\<rparr>"

theorem failed_start_leaves_logic_thread_witness:
  "\<exists>s'. Start True True True (\<lambda>_. False) fresh_client = (False, s') \<and>
     client_RunLogicThread list_client_io (\<lambda>_ _. None) 1000 (client0\<lparr>net := s'\<rparr>) = Some (False, client0\<lparr>net := s'\<rparr>)"
proof -
  obtain s' where s': "Start True True True (\<lambda>_. False) (net client0) = (False, s')"
    using ConnectToServer_tries [of "\<lambda>_. False"]
    by (simp add: Start_def TryConnectToServer_def Let_def)
  have "\<not> needStop (net client0)" "recvBufferQueue (net client0) = []" "net client0 = fresh_client"
    by (simp_all add: client0_def fresh_client_def)
  with failed_start_leaves_logic_thread [OF s'] s' show ?thesis by auto
qed

text \<open>One received packet: \<open>APPEAR_ACTOR\<close> for player 42.\<close>

definition appearing_client :: "(u8 list \<times> nat, u8 list \<times> u8 list) client" where
  "appearing_client = client0\<lparr>net := fresh_client\<lparr>recvBufferQueue :=
     [(le_bytes 4 3 @ members (AppearActor 42 PLAYER), 0)]\<rparr>\<rparr>"

theorem client_map_well_formed_witness:
  "\<exists>c'. logic_turn list_client_io (\<lambda>_. None) appearing_client = Some c' \<and> umap_ok (actorMap (world c'))"
proof -
  have "actors_ok (world appearing_client)" by (simp add: appearing_client_def client0_def no_actors_ok)
  moreover have "nb_read_u32 list_client_io (le_bytes 4 3 @ members (AppearActor 42 PLAYER), 0) =
      (3, (le_bytes 4 3 @ members (AppearActor 42 PLAYER), 4))"
    by (simp add: list_client_io_def NetBuffer_io.defs list_io_def NetBuffer_ops.defs list_nb_def)
  then have "\<exists>c'. logic_turn list_client_io (\<lambda>_. None) appearing_client = Some c'"
    by (simp add: logic_turn_def GetRecvBufferSize_def appearing_client_def GetRecvBuffer_def queue_pop_def
        ProcessLogic_def Let_def)
  ultimately show ?thesis using client_map_well_formed [of appearing_client list_client_io "\<lambda>_. None"] by blast
qed

section \<open>Starting and stopping the client\<close>

text \<open>
  \<open>StartClient\<close> and \<open>StopClient\<close>, with the states of the three threads; \<open>logic_running\<close> holds from
  \<open>StartClient\<close> on, before the connection is tried.
\<close>

record ('b, 'r) client_process =
  cl :: "('b, 'r) client"
  logic_running :: bool
  net_running :: bool

definition StartClient ::
  "bool \<Rightarrow> bool \<Rightarrow> bool \<Rightarrow> (nat \<Rightarrow> bool) \<Rightarrow> ('b, 'r) client_process \<Rightarrow> bool \<times> ('b, 'r) client_process" where
  "StartClient options_ok startup_ok socket_ok ok s =
     (let s1 = s\<lparr>logic_running := True\<rparr>; (r, n) = Start options_ok startup_ok socket_ok ok (net (cl s1))
      in (r, s1\<lparr>cl := (cl s1)\<lparr>net := n\<rparr>, net_running := r\<rparr>))"

text \<open>
  \<open>StopClient\<close>, its effect when the joins return and the threads do nothing in between; the theory \<open>ClientStop\<close> says
  when they return.
\<close>

definition StopClient :: "('b, 'r) client_process \<Rightarrow> ('b, 'r) client_process" where
  "StopClient s =
     (let s1 = s\<lparr>cl := (cl s)\<lparr>net := request_stop (net (cl s))\<rparr>\<rparr>;
          s2 = s1\<lparr>net_running := False, cl := (cl s1)\<lparr>net := after_joins (net (cl s1))\<rparr>\<rparr>
      in s2\<lparr>logic_running := False\<rparr>)"

text \<open>
  The test of the exit key: \<open>VK_RETURN\<close> (13) masks the key state. \<open>GetAsyncKeyState\<close> sets the top bit while the key
  is down and the lowest bit when it was pressed since the last call, and no other.
\<close>

definition VK_RETURN :: u16 where
  "VK_RETURN = 13"

definition exit_key :: "u16 \<Rightarrow> bool" where
  "exit_key state \<longleftrightarrow> and state VK_RETURN \<noteq> 0"

text \<open>\<open>main\<close>, along the states of the key it samples; \<open>None\<close> when the loop goes on.\<close>

fun client_keys :: "u16 list \<Rightarrow> ('b, 'r) client_process \<Rightarrow> ('b, 'r) client_process option" where
  "client_keys [] s = None"
| "client_keys (k # ks) s = (if exit_key k then Some (StopClient s) else client_keys ks s)"

text \<open>The test does not see that the key is down; a key held since an earlier sample does not end the client.\<close>

lemma exit_key_states: "exit_key 0x8001" "exit_key 1" "\<not> exit_key 0x8000" "\<not> exit_key 0"
  by (simp_all add: exit_key_def VK_RETURN_def)

lemma held_key_ignored: "set ks \<subseteq> {0, 0x8000} \<Longrightarrow> client_keys ks s = None"
  by (induction ks) (auto simp: exit_key_states)

definition client_main ::
  "('b, 'y) NetBuffer_io_scheme \<Rightarrow> 'b \<Rightarrow> bool \<Rightarrow> bool \<Rightarrow> bool \<Rightarrow> (nat \<Rightarrow> bool) \<Rightarrow> u16 list
     \<Rightarrow> ('b, 'r) client_process \<Rightarrow> (int \<times> ('b, 'r) client_process) option" where
  "client_main nb b options_ok startup_ok socket_ok ok ks s =
     (let (r, s1) = StartClient options_ok startup_ok socket_ok ok s
      in if \<not> r then Some (- 1, s1)
         else case Client_SendPacket nb (Some b) Ping (net (cl s1)) of
                None \<Rightarrow> None
              | Some n \<Rightarrow> map_option (\<lambda>s2. (0, s2)) (client_keys ks (s1\<lparr>cl := (cl s1)\<lparr>net := n\<rparr>\<rparr>)))"

lemma client_keys_stops: "client_keys ks s = Some s' \<Longrightarrow> \<exists>z. s' = StopClient z"
  by (induction ks) (auto split: if_splits)

lemma client_main_stops:
  assumes "client_main nb b o1 o2 o3 ok ks s = Some (0, s')"
  shows "needStop (net (cl s'))" "\<not> logic_running s'" "\<not> net_running s'"
proof -
  from assms obtain x where "client_keys ks x = Some s'"
    by (auto simp: client_main_def Let_def split: prod.splits if_splits option.splits)
  then obtain z where "s' = StopClient z" using client_keys_stops by blast
  then show "needStop (net (cl s'))" "\<not> logic_running s'" "\<not> net_running s'"
    by (simp_all add: StopClient_def request_stop_def after_joins_def Let_def)
qed

lemma client_main_failed:
  assumes "client_main nb b o1 o2 o3 ok ks s = Some (- 1, s')" and "\<not> needStop (net (cl s))"
  shows "logic_running s'" "\<not> needStop (net (cl s'))"
  using assms failed_Start_keeps_running [of o1 o2 o3 ok "net (cl s)"]
  by (auto simp: client_main_def StartClient_def Let_def split: prod.splits if_splits option.splits)

end
