(* ===== verification/ClientStop.thy ===== *)
theory ClientStop
  imports ClientLogic
begin

text \<open>
  The end of the test client: the receive, send and logic threads and the main thread of
  \<open>SimpleClient::WaitStopAllThreads\<close> and \<open>Client::StopClient\<close>, each with the place it has reached, taking turns in
  any order. The operations are those of \<open>ClientIO\<close> and \<open>ClientLogic\<close>.

  \<open>recv\<close> is a blocking call: a thread inside it goes on only with an outcome from the network. Whether and when one
  comes is up to the server, so these steps (\<open>wire_step\<close>) are kept apart from the steps the client takes by
  itself (\<open>own_step\<close>).
\<close>

section \<open>Threads\<close>

datatype recv_place = RecvTest | InRecv | RecvEnded
datatype send_place = SendTest | SendWait | SendEnded
datatype logic_place = LogicTest | LogicTurn | LogicEnded
datatype main_place = MainLoop | JoinRecv | JoinSend | JoinLogic | Stopped

record ('b, 'r) client_threads =
  clt :: "('b, 'r) client"
  recv_at :: recv_place
  send_at :: send_place
  logic_at :: logic_place
  main_at :: main_place

definition set_net :: "('b, 'r) simple_client \<Rightarrow> ('b, 'r) client_threads \<Rightarrow> ('b, 'r) client_threads" where
  "set_net s x = x\<lparr>clt := (clt x)\<lparr>net := s\<rparr>\<rparr>"

lemma set_net_simps [simp]:
  "net (clt (set_net s x)) = s" "recv_at (set_net s x) = recv_at x" "send_at (set_net s x) = send_at x"
  "logic_at (set_net s x) = logic_at x" "main_at (set_net s x) = main_at x"
  by (simp_all add: set_net_def)

text \<open>After \<open>StartClient\<close> has returned true.\<close>

definition client_started :: "('b, 'r) client \<Rightarrow> ('b, 'r) client_threads" where
  "client_started c = \<lparr>clt = c, recv_at = RecvTest, send_at = SendTest, logic_at = LogicTest, main_at = MainLoop\<rparr>"

text \<open>
  The loops of \<open>RunRecvThread\<close>, \<open>RunSendThread\<close> and \<open>RunLogicThread\<close>, whose test of \<open>needStop\<close> and body are
  separate steps, and \<open>StopClient\<close>. The handle of the semaphore is closed with the step that leaves \<open>JoinSend\<close>.
\<close>

inductive own_step ::
  "('b, 'y) NetBuffer_client_scheme \<Rightarrow> ('b, 'r) client_threads \<Rightarrow> ('b, 'r) client_threads \<Rightarrow> bool"
  for nb :: "('b, 'y) NetBuffer_client_scheme" where
  recv_enters: "recv_at x = RecvTest \<Longrightarrow> \<not> needStop (net (clt x)) \<Longrightarrow> own_step nb x (x\<lparr>recv_at := InRecv\<rparr>)"
| recv_leaves: "recv_at x = RecvTest \<Longrightarrow> needStop (net (clt x)) \<Longrightarrow> own_step nb x (x\<lparr>recv_at := RecvEnded\<rparr>)"
| send_enters: "send_at x = SendTest \<Longrightarrow> \<not> needStop (net (clt x)) \<Longrightarrow> own_step nb x (x\<lparr>send_at := SendWait\<rparr>)"
| send_works: "send_at x = SendWait \<Longrightarrow> send_turn nb ok (net (clt x)) = Some (Some s) \<Longrightarrow>
    own_step nb x (set_net s x\<lparr>send_at := SendTest\<rparr>)"
| send_leaves: "send_at x = SendTest \<Longrightarrow> needStop (net (clt x)) \<Longrightarrow> own_step nb x (x\<lparr>send_at := SendEnded\<rparr>)"
| logic_enters: "logic_at x = LogicTest \<Longrightarrow> \<not> needStop (net (clt x)) \<Longrightarrow> own_step nb x (x\<lparr>logic_at := LogicTurn\<rparr>)"
| logic_works: "logic_at x = LogicTurn \<Longrightarrow> logic_turn nb (\<lambda>i. Some (alloc i)) (clt x) = Some c \<Longrightarrow>
    own_step nb x (x\<lparr>clt := c, logic_at := LogicTest\<rparr>)"
| logic_leaves: "logic_at x = LogicTest \<Longrightarrow> needStop (net (clt x)) \<Longrightarrow> own_step nb x (x\<lparr>logic_at := LogicEnded\<rparr>)"
| stop_requested: "main_at x = MainLoop \<Longrightarrow>
    own_step nb x (set_net (request_stop (net (clt x))) x\<lparr>main_at := JoinRecv\<rparr>)"
| recv_joined: "main_at x = JoinRecv \<Longrightarrow> recv_at x = RecvEnded \<Longrightarrow> own_step nb x (x\<lparr>main_at := JoinSend\<rparr>)"
| send_joined: "main_at x = JoinSend \<Longrightarrow> send_at x = SendEnded \<Longrightarrow>
    own_step nb x (set_net (after_joins (net (clt x))) x\<lparr>main_at := JoinLogic\<rparr>)"
| logic_joined: "main_at x = JoinLogic \<Longrightarrow> logic_at x = LogicEnded \<Longrightarrow> own_step nb x (x\<lparr>main_at := Stopped\<rparr>)"

inductive wire_step ::
  "('b, 'y) NetBuffer_client_scheme \<Rightarrow> 'r client_ring \<Rightarrow> ('b, 'r) client_threads \<Rightarrow> ('b, 'r) client_threads \<Rightarrow> bool"
  for nb :: "('b, 'y) NetBuffer_client_scheme" and R :: "'r client_ring" where
  recv_returns: "recv_at x = InRecv \<Longrightarrow> client_DoRecv nb R out (net (clt x)) = Some s \<Longrightarrow>
    wire_step nb R x (set_net s x\<lparr>recv_at := RecvTest\<rparr>)"

definition client_step ::
  "('b, 'y) NetBuffer_client_scheme \<Rightarrow> 'r client_ring \<Rightarrow> ('b, 'r) client_threads \<Rightarrow> ('b, 'r) client_threads \<Rightarrow> bool" where
  "client_step nb R x y \<longleftrightarrow> own_step nb x y \<or> wire_step nb R x y"

section \<open>What the operations keep\<close>

lemma make_packets_keeps:
  assumes "make_packets nb R n s = Some r"
  shows "needStop (snd r) = needStop s \<and> sendSemaphore (snd r) = sendSemaphore s"
proof (rule make_packets.raw_induct [where P = "\<lambda>nb R n s r. needStop (snd r) = needStop s \<and>
      sendSemaphore (snd r) = sendSemaphore s", OF _ assms], goal_cases)
  case (1 f nb R n s r)
  from 1(2) show ?case by (auto simp: Let_def split: if_splits prod.splits dest!: 1(1))
qed

lemma client_DoRecv_keeps:
  "client_DoRecv nb R out s = Some s' \<Longrightarrow> (needStop s \<longrightarrow> needStop s') \<and> sendSemaphore s' = sendSemaphore s"
  using make_packets_keeps
  by (fastforce simp: client_DoRecv_def MakePacketsFromRingBuffer_def close_client_def
      split: recv_outcome.splits if_splits option.splits prod.splits bool.splits)

lemma send_loop_total:
  "n \<le> length (sendBufferQueue s) \<Longrightarrow> \<exists>s'. send_loop nb ok n s = Some s' \<and> (needStop s \<longrightarrow> needStop s') \<and>
     socketClosed s' = socketClosed s"
proof (induction n arbitrary: s)
  case 0
  then show ?case by simp
next
  case (Suc n)
  then obtain pb q where q: "sendBufferQueue s = pb # q" by (cases "sendBufferQueue s") auto
  show ?case
  proof (cases pb)
    case None
    then show ?thesis using q by (simp add: queue_pop_def)
  next
    case (Some b)
    let ?s = "s\<lparr>sendBufferQueue := q, freed := freed s @ [nb_SetRead nb 0 b],
      sent := sent s @ [nb_SetRead nb 0 b]\<rparr>"
    have "n \<le> length (sendBufferQueue ?s)" using Suc.prems q by simp
    from Suc.IH [OF this] show ?thesis using q Some by (auto simp: queue_pop_def Let_def)
  qed
qed

text \<open>The send thread goes on as soon as the semaphore is positive: \<open>DoSend\<close> finds every packet it counted.\<close>

lemma send_turn_total:
  assumes "0 < sendSemaphore s"
  shows "\<exists>s'. send_turn nb ok s = Some (Some s')"
proof -
  let ?s = "s\<lparr>sendSemaphore := sendSemaphore s - 1\<rparr>"
  have "\<exists>s'. client_DoSend nb ok ?s = Some s'"
    using send_loop_total [of "length (sendBufferQueue ?s)" ?s nb ok] by (auto simp: client_DoSend_def Let_def)
  then show ?thesis using assms by (auto simp: send_turn_def)
qed

lemma send_turn_keeps:
  assumes "send_turn nb ok s = Some (Some s')"
  shows "(needStop s \<longrightarrow> needStop s') \<and> socketClosed s' = socketClosed s"
proof -
  let ?s = "s\<lparr>sendSemaphore := sendSemaphore s - 1\<rparr>"
  from assms have "client_DoSend nb ok ?s = Some s'" by (auto simp: send_turn_def split: if_splits)
  then show ?thesis
    using send_loop_total [of "length (sendBufferQueue ?s)" ?s nb ok]
    by (auto simp: client_DoSend_def Let_def split: if_splits)
qed

lemma ProcessLogic_total:
  "\<exists>c'. ProcessLogic nb (Some a) b c = Some c' \<and> recvBufferQueue (net c') = recvBufferQueue (net c) \<and>
     needStop (net c') = needStop (net c) \<and> socketClosed (net c') = socketClosed (net c) \<and>
     sendSemaphore (net c) \<le> sendSemaphore (net c')"
  by (auto simp: ProcessLogic_def Client_Pong_def Client_SendPacket_def client_packet_bytes_def GetPacketSize_def
      sizeof_packet_def client_SendPacket_def Let_def split: prod.splits)

text \<open>The logic thread handles all the packets it counted, when buffers for its replies can be allocated.\<close>

lemma logic_loop_total:
  "n \<le> length (recvBufferQueue (net c)) \<Longrightarrow>
     \<exists>c'. logic_loop nb (\<lambda>i. Some (alloc i)) n c = Some c' \<and> needStop (net c') = needStop (net c) \<and>
       socketClosed (net c') = socketClosed (net c) \<and> sendSemaphore (net c) \<le> sendSemaphore (net c')"
proof (induction n arbitrary: c)
  case 0
  then show ?case by simp
next
  case (Suc n)
  then obtain b q where q: "recvBufferQueue (net c) = b # q" by (cases "recvBufferQueue (net c)") auto
  let ?c = "c\<lparr>net := (net c)\<lparr>recvBufferQueue := q\<rparr>\<rparr>"
  obtain c1 where c1: "ProcessLogic nb (Some (alloc n)) b ?c = Some c1" "recvBufferQueue (net c1) = q"
    "needStop (net c1) = needStop (net c)" "socketClosed (net c1) = socketClosed (net c)"
    "sendSemaphore (net c) \<le> sendSemaphore (net c1)"
    using ProcessLogic_total [of nb "alloc n" b ?c] by auto
  let ?c1 = "c1\<lparr>net := (net c1)\<lparr>freed := freed (net c1) @ [b]\<rparr>\<rparr>"
  have "n \<le> length (recvBufferQueue (net ?c1))" using Suc.prems q c1(2) by simp
  from Suc.IH [OF this] show ?case using q c1 by (auto simp: GetRecvBuffer_def queue_pop_def)
qed

lemma logic_turn_total:
  "\<exists>c'. logic_turn nb (\<lambda>i. Some (alloc i)) c = Some c' \<and> needStop (net c') = needStop (net c) \<and>
     socketClosed (net c') = socketClosed (net c) \<and> sendSemaphore (net c) \<le> sendSemaphore (net c')"
  using logic_loop_total [of "GetRecvBufferSize (net c)" c] by (simp add: logic_turn_def GetRecvBufferSize_def)

lemma logic_turn_keeps:
  "logic_turn nb (\<lambda>i. Some (alloc i)) c = Some c' \<Longrightarrow> needStop (net c') = needStop (net c) \<and>
     socketClosed (net c') = socketClosed (net c) \<and> sendSemaphore (net c) \<le> sendSemaphore (net c')"
  using logic_turn_total [of nb alloc c] by simp

section \<open>The invariant of the end\<close>

text \<open>
  Once the stop is requested the threads are told to end, a waiting send thread has a semaphore to take, and each
  join that returned has seen its thread end.
\<close>

definition stop_inv :: "('b, 'r) client_threads \<Rightarrow> bool" where
  "stop_inv x \<longleftrightarrow>
     (main_at x \<noteq> MainLoop \<longrightarrow> needStop (net (clt x)) \<and> (send_at x = SendWait \<longrightarrow> 0 < sendSemaphore (net (clt x)))) \<and>
     (main_at x \<in> {JoinSend, JoinLogic, Stopped} \<longrightarrow> recv_at x = RecvEnded) \<and>
     (main_at x \<in> {JoinLogic, Stopped} \<longrightarrow> send_at x = SendEnded) \<and>
     (main_at x = Stopped \<longrightarrow> logic_at x = LogicEnded)"

lemma stop_inv_own: "own_step nb x y \<Longrightarrow> stop_inv x \<Longrightarrow> stop_inv y"
proof (induction rule: own_step.induct)
  case (send_works x ok s)
  then show ?case using send_turn_keeps [OF send_works(2)] by (simp add: stop_inv_def)
next
  case (logic_works x alloc c)
  then show ?case using logic_turn_keeps [OF logic_works(2)]
    by (simp add: stop_inv_def) (metis less_le_trans)
qed (simp_all add: stop_inv_def request_stop_def after_joins_def)

lemma stop_inv_wire: "wire_step nb R x y \<Longrightarrow> stop_inv x \<Longrightarrow> stop_inv y"
proof (induction rule: wire_step.induct)
  case (recv_returns x out s)
  then show ?case using client_DoRecv_keeps [OF recv_returns(2)] by (auto simp: stop_inv_def)
qed

interpretation client_end: inductive_invariant "\<lambda>x. \<exists>c. x = client_started c" "client_step nb R" stop_inv
  for nb :: "('b, 'y) NetBuffer_client_scheme" and R :: "'r client_ring"
proof unfold_locales
  show "stop_inv x" if "\<exists>c. x = client_started c" for x :: "('b, 'r) client_threads"
    using that by (elim exE) (simp add: client_started_def stop_inv_def)
  show "stop_inv y" if "client_step nb R x y" "stop_inv x" for x y :: "('b, 'r) client_threads"
    using that stop_inv_own stop_inv_wire unfolding client_step_def by metis
qed

section \<open>How many steps are left\<close>

fun recv_left :: "recv_place \<Rightarrow> nat" where
  "recv_left RecvTest = 1"
| "recv_left InRecv = 2"
| "recv_left RecvEnded = 0"

fun send_left :: "send_place \<Rightarrow> nat" where
  "send_left SendTest = 1"
| "send_left SendWait = 2"
| "send_left SendEnded = 0"

fun logic_left :: "logic_place \<Rightarrow> nat" where
  "logic_left LogicTest = 1"
| "logic_left LogicTurn = 2"
| "logic_left LogicEnded = 0"

fun main_left :: "main_place \<Rightarrow> nat" where
  "main_left MainLoop = 4"
| "main_left JoinRecv = 3"
| "main_left JoinSend = 2"
| "main_left JoinLogic = 1"
| "main_left Stopped = 0"

definition steps_left :: "('b, 'r) client_threads \<Rightarrow> nat" where
  "steps_left x = recv_left (recv_at x) + send_left (send_at x) + logic_left (logic_at x) + main_left (main_at x)"

lemma lefts_le: "recv_left a + send_left b + logic_left c \<le> 6" "m \<noteq> MainLoop \<Longrightarrow> main_left m \<le> 3"
  by (cases a; cases b; cases c; simp) (cases m; simp)

lemma steps_left_own:
  "own_step nb x y \<Longrightarrow> main_at x \<noteq> MainLoop \<Longrightarrow> needStop (net (clt x)) \<Longrightarrow>
     Suc (steps_left y) = steps_left x \<and> main_at y \<noteq> MainLoop"
  by (induction rule: own_step.induct) (auto simp: steps_left_def)

lemma steps_left_wire:
  "wire_step nb R x y \<Longrightarrow> Suc (steps_left y) = steps_left x \<and> main_at y = main_at x"
  by (induction rule: wire_step.induct) (auto simp: steps_left_def)

lemma steps_left_run:
  "(client_step nb R ^^ n) x y \<Longrightarrow> stop_inv x \<Longrightarrow> main_at x \<noteq> MainLoop \<Longrightarrow>
     n + steps_left y = steps_left x \<and> stop_inv y \<and> main_at y \<noteq> MainLoop"
proof (induction n arbitrary: y)
  case 0
  then show ?case by simp
next
  case (Suc n)
  then obtain z where z: "(client_step nb R ^^ n) x z" and s: "client_step nb R z y" by auto
  note IH = Suc.IH [OF z Suc.prems(2,3)]
  then have "needStop (net (clt z))" by (simp add: stop_inv_def)
  with IH s steps_left_own [of nb z y] steps_left_wire [of nb R z y] client_end.step_inv [OF s]
  show ?case by (auto simp: client_step_def)
qed

text \<open>No thread waits for another for ever, the receive thread inside \<open>recv\<close> apart.\<close>

lemma own_step_enabled:
  assumes "stop_inv x" and "main_at x \<noteq> MainLoop" and "\<forall>y. \<not> own_step nb x y"
  shows "main_at x = Stopped \<or>
    main_at x = JoinRecv \<and> recv_at x = InRecv \<and> send_at x = SendEnded \<and> logic_at x = LogicEnded"
proof -
  have n: "needStop (net (clt x))" and sem: "send_at x = SendWait \<Longrightarrow> 0 < sendSemaphore (net (clt x))"
    using assms(1,2) by (auto simp: stop_inv_def)
  have recv: "recv_at x \<noteq> RecvTest" using assms(3) n recv_leaves [of x nb] by blast
  have send: "send_at x = SendEnded"
  proof (cases "send_at x")
    case SendTest
    then show ?thesis using assms(3) n send_leaves [of x nb] by blast
  next
    case SendWait
    then show ?thesis using send_turn_total [OF sem, of nb "\<lambda>_. True"] assms(3) send_works [OF SendWait] by blast
  qed simp
  have logic: "logic_at x = LogicEnded"
  proof (cases "logic_at x")
    case LogicTest
    then show ?thesis using assms(3) n logic_leaves [of x nb] by blast
  next
    case LogicTurn
    then show ?thesis using logic_turn_total [of nb "\<lambda>_. nb_Fresh nb" "clt x"] assms(3)
        logic_works [OF LogicTurn, of nb "\<lambda>_. nb_Fresh nb"] by blast
  qed simp
  show ?thesis
  proof (cases "main_at x")
    case JoinRecv
    then show ?thesis using recv send logic assms(3) recv_joined [of x nb] by (cases "recv_at x") auto
  next
    case JoinSend
    then show ?thesis using send assms(3) send_joined [of x nb] by blast
  next
    case JoinLogic
    then show ?thesis using logic assms(3) logic_joined [of x nb] by blast
  qed (use assms(2) in simp_all)
qed

lemma own_run_to_end:
  "stop_inv x \<Longrightarrow> main_at x \<noteq> MainLoop \<Longrightarrow> \<exists>y. (own_step nb)\<^sup>*\<^sup>* x y \<and> (\<forall>z. \<not> own_step nb y z)"
proof (induction "steps_left x" arbitrary: x rule: less_induct)
  case less
  show ?case
  proof (cases "\<exists>y. own_step nb x y")
    case False
    then show ?thesis by blast
  next
    case True
    then obtain y where s: "own_step nb x y" by blast
    have "needStop (net (clt x))" using less.prems by (simp add: stop_inv_def)
    with steps_left_own [OF s less.prems(2)] have "steps_left y < steps_left x" "main_at y \<noteq> MainLoop" by simp_all
    with less.hyps stop_inv_own [OF s less.prems(1)] obtain z where
      "(own_step nb)\<^sup>*\<^sup>* y z" "\<forall>z'. \<not> own_step nb z z'" by blast
    then show ?thesis using s by (meson converse_rtranclp_into_rtranclp)
  qed
qed

section \<open>The outcome of a stop\<close>

abbreviation client_reach ::
  "('b, 'y) NetBuffer_client_scheme \<Rightarrow> 'r client_ring \<Rightarrow> ('b, 'r) client_threads \<Rightarrow> bool" where
  "client_reach nb R \<equiv> reach (\<lambda>x. \<exists>c. x = client_started c) (client_step nb R)"

text \<open>
  C39. A requested stop ends, or it waits for the server. From the call of \<open>StopClient\<close> on, in whatever order the
  threads and the network go on, at most nine steps are taken. Where none of the client's threads can go on
  any more, either \<open>StopClient\<close> has returned and the three threads have ended, or the main thread
  waits at the join of the receive thread, which is the only one left and is inside \<open>recv\<close>. So neither the send
  thread at its semaphore nor the logic thread ever holds up the stop.
\<close>

theorem client_stop_outcome:
  assumes "client_reach nb R x" and "main_at x \<noteq> MainLoop" and "(client_step nb R ^^ n) x y"
  shows "n \<le> 9 \<and> ((\<forall>z. \<not> own_step nb y z) \<longrightarrow>
    send_at y = SendEnded \<and> logic_at y = LogicEnded \<and>
    (main_at y = Stopped \<and> recv_at y = RecvEnded \<or> main_at y = JoinRecv \<and> recv_at y = InRecv))"
proof -
  have i: "stop_inv x" using assms(1) by (rule client_end.reach_inv)
  note run = steps_left_run [OF assms(3) i assms(2)]
  have "steps_left x \<le> 9"
    using lefts_le(1) [of "recv_at x" "send_at x" "logic_at x"] lefts_le(2) [OF assms(2)] by (simp add: steps_left_def)
  with run have "n \<le> 9" by simp
  moreover have "main_at y = Stopped \<Longrightarrow> recv_at y = RecvEnded \<and> send_at y = SendEnded \<and> logic_at y = LogicEnded"
    using run by (simp add: stop_inv_def)
  ultimately show ?thesis using own_step_enabled [of y nb] run by blast
qed

lemma in_recv_kept:
  assumes "(own_step nb)\<^sup>*\<^sup>* x y" and "recv_at x = InRecv" and "main_at x \<in> {MainLoop, JoinRecv}"
  shows "recv_at y = InRecv \<and> main_at y \<in> {MainLoop, JoinRecv} \<and>
    socketClosed (net (clt y)) = socketClosed (net (clt x))"
  using assms(1)
proof (induction rule: rtranclp_induct)
  case base
  then show ?case using assms by simp
next
  case (step y z)
  from step(2) step.IH show ?case
  proof (induction rule: own_step.induct)
    case (send_works w ok s)
    then show ?case using send_turn_keeps [OF send_works(2)] by simp
  next
    case (logic_works w alloc c)
    then show ?case using logic_turn_keeps [OF logic_works(2)] by simp
  qed (simp_all add: request_stop_def after_joins_def)
qed

text \<open>
  C40. The stop cannot end before the server acts. \<open>WaitStopAllThreads\<close> does not close the socket. Once the receive
  thread is inside \<open>recv\<close>, nothing the client does by itself takes it out: the main thread does not get past the
  join of the receive thread, and the socket stays as it is; and from every such state the client comes to a point
  where it stands still, with the main thread at that join.
\<close>

theorem client_stop_waits_for_server:
  assumes "client_reach nb R x" and "recv_at x = InRecv" and "main_at x \<in> {MainLoop, JoinRecv}"
  shows "(\<forall>y. (own_step nb)\<^sup>*\<^sup>* x y \<longrightarrow> main_at y \<in> {MainLoop, JoinRecv} \<and> recv_at y = InRecv \<and>
      socketClosed (net (clt y)) = socketClosed (net (clt x))) \<and>
    (\<exists>y. (own_step nb)\<^sup>*\<^sup>* x y \<and> main_at y = JoinRecv \<and> (\<forall>z. \<not> own_step nb y z))"
proof (intro conjI)
  show "\<forall>y. (own_step nb)\<^sup>*\<^sup>* x y \<longrightarrow> main_at y \<in> {MainLoop, JoinRecv} \<and> recv_at y = InRecv \<and>
      socketClosed (net (clt y)) = socketClosed (net (clt x))"
    using in_recv_kept assms(2,3) by blast
  have i: "stop_inv x" using assms(1) by (rule client_end.reach_inv)
  obtain w where w: "(own_step nb)\<^sup>*\<^sup>* x w" "main_at w = JoinRecv" "stop_inv w"
  proof (cases "main_at x = MainLoop")
    case True
    let ?w = "set_net (request_stop (net (clt x))) x\<lparr>main_at := JoinRecv\<rparr>"
    have "own_step nb x ?w" by (rule stop_requested [OF True])
    then show ?thesis using that [of ?w] stop_inv_own [of nb x ?w] i by (simp add: r_into_rtranclp)
  next
    case False
    then show ?thesis using that [of x] assms(3) i by simp
  qed
  obtain y where y: "(own_step nb)\<^sup>*\<^sup>* w y" "\<forall>z. \<not> own_step nb y z"
    using own_run_to_end [OF w(3)] w(2) by auto
  have "main_at y \<noteq> MainLoop"
  proof
    assume "main_at y = MainLoop"
    then have "own_step nb y (set_net (request_stop (net (clt y))) y\<lparr>main_at := JoinRecv\<rparr>)" by (rule stop_requested)
    with y(2) show False by blast
  qed
  moreover have r: "(own_step nb)\<^sup>*\<^sup>* x y" using w(1) y(1) by (rule rtranclp_trans)
  ultimately show "\<exists>y. (own_step nb)\<^sup>*\<^sup>* x y \<and> main_at y = JoinRecv \<and> (\<forall>z. \<not> own_step nb y z)"
    using in_recv_kept [OF r assms(2,3)] y(2) by blast
qed

section \<open>A packet after the handle is closed\<close>

text \<open>
  \<open>WaitStopAllThreads\<close> closes the handle of the semaphore before \<open>StopClient\<close> joins the logic thread. A logic thread
  that is in its turn at that moment and answers a packet \<open>PONG\<close> still queues its answer, for a send thread that has
  ended, and releases the closed handle.
\<close>

lemma logic_sends_after_close:
  assumes "main_at x = JoinLogic" and "logic_at x = LogicTurn" and "recvBufferQueue (net (clt x)) = [b]"
    and "nb_read_u32 nb b = (packet_code PONG, b1)"
  shows "\<exists>y. own_step nb x y \<and> main_at y = JoinLogic \<and>
    sendSemaphore (net (clt y)) = Suc (sendSemaphore (net (clt x))) \<and>
    length (sendBufferQueue (net (clt y))) = Suc (length (sendBufferQueue (net (clt x))))"
proof -
  obtain c where c: "logic_turn nb (\<lambda>_. Some (nb_Fresh nb)) (clt x) = Some c"
    "sendSemaphore (net c) = Suc (sendSemaphore (net (clt x)))"
    "length (sendBufferQueue (net c)) = Suc (length (sendBufferQueue (net (clt x))))"
    using assms(3,4)
    by (simp add: logic_turn_def GetRecvBufferSize_def GetRecvBuffer_def queue_pop_def ProcessLogic_def
        Client_Pong_def Client_SendPacket_def client_packet_bytes_def GetPacketSize_def client_SendPacket_def
        queue_push_def Let_def sizeof_packet_def)
  from logic_works [OF assms(2) c(1)] c(2,3) assms(1) show ?thesis
    by (intro exI [of _ "x\<lparr>clt := c, logic_at := LogicTest\<rparr>"]) simp
qed

text \<open>Such a state is reached: the stop comes while the logic thread is in its turn.\<close>

lemma logic_turn_after_joins:
  fixes c :: "('b, 'r) client" and R :: "'r client_ring"
  assumes "\<not> needStop (net c)"
  shows "\<exists>x. client_reach nb R x \<and> main_at x = JoinLogic \<and> logic_at x = LogicTurn \<and>
    recvBufferQueue (net (clt x)) = recvBufferQueue (net c)"
proof -
  let ?s = "request_stop (net c)"
  let ?x0 = "client_started c"
  let ?x1 = "?x0\<lparr>logic_at := LogicTurn\<rparr>"
  let ?x2 = "set_net ?s ?x1\<lparr>main_at := JoinRecv\<rparr>"
  let ?x3 = "?x2\<lparr>recv_at := RecvEnded\<rparr>"
  let ?x4 = "?x3\<lparr>main_at := JoinSend\<rparr>"
  let ?x5 = "?x4\<lparr>send_at := SendEnded\<rparr>"
  let ?x6 = "set_net (after_joins ?s) ?x5\<lparr>main_at := JoinLogic\<rparr>"
  note st = client_started_def request_stop_def set_net_def
  have s0: "client_reach nb R ?x0" by (rule reach_init) blast
  have s1: "client_step nb R ?x0 ?x1"
    unfolding client_step_def using assms by (intro disjI1 logic_enters) (simp_all add: st)
  have "own_step nb ?x1 (set_net (request_stop (net (clt ?x1))) ?x1\<lparr>main_at := JoinRecv\<rparr>)"
    by (rule stop_requested) (simp add: st)
  then have s2: "client_step nb R ?x1 ?x2" unfolding client_step_def by (simp add: client_started_def)
  have s3: "client_step nb R ?x2 ?x3"
    unfolding client_step_def by (intro disjI1 recv_leaves) (simp_all add: st)
  have s4: "client_step nb R ?x3 ?x4"
    unfolding client_step_def by (intro disjI1 recv_joined) simp_all
  have s5: "client_step nb R ?x4 ?x5"
    unfolding client_step_def by (intro disjI1 send_leaves) (simp_all add: st)
  have "own_step nb ?x5 (set_net (after_joins (net (clt ?x5))) ?x5\<lparr>main_at := JoinLogic\<rparr>)"
    by (rule send_joined) simp_all
  then have s6: "client_step nb R ?x5 ?x6" unfolding client_step_def by (simp add: set_net_def)
  have "client_reach nb R ?x6"
    using reach_step [OF reach_step [OF reach_step [OF reach_step [OF reach_step [OF reach_step
      [OF s0 s1] s2] s3] s4] s5] s6] .
  then show ?thesis by (intro exI [of _ ?x6]) (simp add: st after_joins_def)
qed

section \<open>Examples\<close>

text \<open>The receive thread is inside \<open>recv\<close> when the stop is requested; then the server closes the connection.\<close>

definition blocked_client :: "(u8 list \<times> nat, u8 list \<times> u8 list) client_threads" where
  "blocked_client = client_started client0\<lparr>recv_at := InRecv\<rparr>"

definition stopping_client :: "(u8 list \<times> nat, u8 list \<times> u8 list) client_threads" where
  "stopping_client = set_net (request_stop (net client0)) blocked_client\<lparr>main_at := JoinRecv\<rparr>"

lemma blocked_client_reached: "client_reach list_client_io list_client_ring blocked_client"
proof (rule reach_step)
  show "client_reach list_client_io list_client_ring (client_started client0)" by (rule reach_init) blast
  show "client_step list_client_io list_client_ring (client_started client0) blocked_client"
    unfolding client_step_def blocked_client_def
    by (intro disjI1 recv_enters) (simp_all add: client_started_def client0_def fresh_client_def)
qed

lemma stopping_client_reached: "client_reach list_client_io list_client_ring stopping_client"
proof (rule reach_step [OF blocked_client_reached])
  have "own_step list_client_io blocked_client
      (set_net (request_stop (net (clt blocked_client))) blocked_client\<lparr>main_at := JoinRecv\<rparr>)"
    by (rule stop_requested) (simp add: blocked_client_def client_started_def)
  then show "client_step list_client_io list_client_ring blocked_client stopping_client"
    unfolding client_step_def stopping_client_def by (simp add: blocked_client_def client_started_def)
qed

theorem client_stop_waits_for_server_witness:
  "\<exists>y. (own_step list_client_io)\<^sup>*\<^sup>* blocked_client y \<and> main_at y = JoinRecv \<and> (\<forall>z. \<not> own_step list_client_io y z)"
  using client_stop_waits_for_server [OF blocked_client_reached]
  by (simp add: blocked_client_def client_started_def)

theorem client_stop_outcome_witness:
  "\<exists>y. client_step list_client_io list_client_ring stopping_client y \<and> recv_at y = RecvTest \<and>
     ((\<forall>z. \<not> own_step list_client_io y z) \<longrightarrow> main_at y = Stopped)"
proof -
  let ?s = "close_client (net (clt stopping_client))"
  let ?y = "set_net ?s stopping_client\<lparr>recv_at := RecvTest\<rparr>"
  have "wire_step list_client_io list_client_ring stopping_client ?y"
    by (rule recv_returns [where out = ConnectionClosed])
      (simp_all add: stopping_client_def blocked_client_def client_DoRecv_def)
  then have s: "client_step list_client_io list_client_ring stopping_client ?y" by (simp add: client_step_def)
  moreover have "main_at stopping_client \<noteq> MainLoop" by (simp add: stopping_client_def)
  ultimately show ?thesis
    using client_stop_outcome [OF stopping_client_reached, of 1 ?y] by (intro exI [of _ ?y]) auto
qed

end
