(* ===== verification/PingPong.thy ===== *)
theory PingPong
  imports Contents ClientLogic
begin

text \<open>
  Server and client together: one round of the exchange the client's \<open>main\<close> starts. The bytes a buffer puts on the wire and
  what the other side makes of them belong to the \<open>NetBuffer\<close> class of the submodule; \<open>codec\<close> states that a packet survives
  the way through \<open>Encode\<close>, the wire and \<open>Decode\<close>.
\<close>

text \<open>The buffer made of \<open>a\<close> for the packet \<open>p\<close>, and the frame its wire bytes form.\<close>

definition codec ::
  "('b, 'y) NetBuffer_io_scheme \<Rightarrow> ('b \<Rightarrow> u8 list) \<Rightarrow> 'b \<Rightarrow> protocol_packet \<Rightarrow> 'b \<Rightarrow> frame \<Rightarrow> bool" where
  "codec nb wire a p b f \<longleftrightarrow>
     BuildPacketBuffer nb (Some a) (server_packet p) = Some b \<and> wire b = frame_bytes f \<and> good_frame nb f \<and>
     4 \<le> nb_GetUseSize nb (snd (decode_frame nb f)) \<and>
     fst (nb_read_u32 nb (snd (decode_frame nb f))) = packet_code (protocol_id p)"

lemma codec_frame_ok:
  assumes "codec nb wire a Ping b f" and "messageFactories s = [(packet_code PING, (HandlePing, []))]"
  shows "frame_ok nb s f (Bound HandlePing [])"
proof -
  let ?d = "decode_frame nb f"
  obtain i b' where r: "nb_read_u32 nb (snd ?d) = (i, b')" by fastforce
  with assms(1) have i: "i = 1" by (simp add: codec_def)
  have "fst (CreateMessageFromPacket nb s (snd ?d)) = Value (Bound HandlePing [])"
    using assms r i by (simp add: codec_def CreateMessageFromPacket_def FindFunctionObject_def umap_find_def
        message_factory_def Deserialize_def)
  then show ?thesis using assms(1)
    by (simp add: codec_def good_frame_def frame_ok_def announced_def decode_frame_def case_prod_beta)
qed

text \<open>What the client queues for a packet without members is the buffer the server would build for it.\<close>

lemma Client_SendPacket_builds:
  assumes "GetPacketSize p = 0" and "BuildPacketBuffer nb (Some a) (server_packet p) = Some b"
  shows "Client_SendPacket nb (Some a) p s = Some (s\<lparr>sendBufferQueue := sendBufferQueue s @ [Some b],
     sendSemaphore := Suc (sendSemaphore s)\<rparr>)"
proof -
  have "members p = []" using assms(1) by (simp add: GetPacketSize_def sizeof_packet_def)
  then show ?thesis using assms(2)
    by (simp add: Client_SendPacket_def client_packet_bytes_def assms(1) client_SendPacket_def queue_push_def
        BuildPacketBuffer_def server_packet_def Let_def)
qed

lemma Ping_size: "GetPacketSize Ping = 0"
  by (simp add: GetPacketSize_def sizeof_packet_def)

text \<open>A client with one received \<open>PONG\<close> answers with a \<open>PING\<close>.\<close>

lemma logic_turn_pong:
  assumes "recvBufferQueue (net c) = [d]" and "fst (nb_read_u32 nb d) = packet_code PONG"
    and "alloc 0 = Some a" and "BuildPacketBuffer nb (Some a) (server_packet Ping) = Some b"
  shows "\<exists>c'. logic_turn nb alloc c = Some c' \<and> sendBufferQueue (net c') = sendBufferQueue (net c) @ [Some b] \<and>
     recvBufferQueue (net c') = [] \<and> needStop (net c') = needStop (net c)"
proof -
  obtain b1 where "nb_read_u32 nb d = (packet_code PONG, b1)" using assms(2) by (metis prod.collapse)
  then show ?thesis
    using assms(1,3) Client_SendPacket_builds [OF Ping_size assms(4), where s = "(net c)\<lparr>recvBufferQueue := []\<rparr>"]
    by (simp add: logic_turn_def GetRecvBufferSize_def GetRecvBuffer_def queue_pop_def ProcessLogic_def
        Client_Pong_def Let_def)
qed

text \<open>
  C27. One round of ping and pong. An idle player receives the wire bytes of the client's \<open>PING\<close> buffer; its next \<open>OnTimer\<close>
  posts one send of exactly one buffer, that of a \<open>PONG\<close>, and no other send, and leaves the send queue and the mailbox
  empty; when the wire bytes of this buffer reach the client, in any pieces,
  the client's next turn queues exactly one buffer, the same \<open>PING\<close> as before, so that the exchange goes on.
\<close>

theorem ping_pong_round:
  assumes "ring_contract R bytes" and "lfq_contract Q contents valid"
    and "codec nb wire a Ping ping_buf f" and "codec nb wire a' Pong pong_buf g"
    and "valid (sendQueue s)" and "contents (sendQueue s) = []" and "ioMode s = IO_NONE_SENDING"
    and "\<not> isStop s" and "consumerQueue s = []" and "storeQueue s = []"
    and "messageFactories s = [(packet_code PING, (HandlePing, []))]"
    and "bytes (rb_MoveWritePos R n (ringBuffer s)) = wire ping_buf"
    and "ring_contract RC cbytes" and "ring_room RC cbytes cap" and "0 < nb_HEADER_SIZE nb"
    and "nb_HEADER_SIZE nb + nb_DEFAULTSIZE nb + sizeof_recvBuffer \<le> cap"
    and "cbytes (recvRingBuffer (net c)) = []" and "\<not> needStop (net c)"
    and "recvBufferQueue (net c) = []" and "sendBufferQueue (net c) = []"
    and "concat pieces = wire pong_buf" and "\<forall>x \<in> set pieces. length x \<le> sizeof_recvBuffer" and "alloc 0 = Some a"
  shows "\<exists>y z es c1 c2. OnRecvIoCompleted nb R recvResult s n = Some (recvResult \<noteq> IoFailed, y) \<and>
     player_OnTimer nb Q (Some a') result y = Some z \<and> io_log z = io_log y @ SendPosted [pong_buf] # es \<and>
     send_batches es = [] \<and> contents (sendQueue z) = [] \<and> storeQueue z = [] \<and> consumerQueue z = [] \<and>
     RunRecvThread nb RC (map Received pieces) (net c) = Some c1 \<and>
     logic_turn nb alloc (c\<lparr>net := c1\<rparr>) = Some c2 \<and> sendBufferQueue (net c2) = [Some ping_buf]"
proof -
  have ping: "bytes (rb_MoveWritePos R n (ringBuffer s)) = frame_bytes f"
    and pong: "BuildPacketBuffer nb (Some a') (server_packet Pong) = Some pong_buf"
    using assms(3,4,12) by (simp_all add: codec_def)
  obtain y z es where server: "OnRecvIoCompleted nb R recvResult s n = Some (recvResult \<noteq> IoFailed, y)"
    "player_OnTimer nb Q (Some a') result y = Some z" "io_log z = io_log y @ SendPosted [pong_buf] # es"
    "send_batches es = []" "contents (sendQueue z) = []" "storeQueue z = []" "consumerQueue z = []"
    using ping_is_answered [OF assms(1,2,5-10) codec_frame_ok [OF assms(3,11)] ping pong] by blast
  have g: "list_all (good_frame nb) [g]" "fst (nb_read_u32 nb (snd (decode_frame nb g))) = packet_code PONG"
    and st: "cbytes (recvRingBuffer (net c)) @ concat pieces = concat (map frame_bytes [g]) @ []"
    and un: "unfinished nb (cbytes (recvRingBuffer (net c)))"
    using assms(4,17,21) by (simp_all add: codec_def unfinished_def)
  obtain c1 where c1: "RunRecvThread nb RC (map Received pieces) (net c) = Some c1"
    "recvBufferQueue c1 = [snd (decode_frame nb g)]" "sendBufferQueue c1 = []"
    using RunRecvThread_stream [OF assms(13-16) _ st un assms(18) g(1) assms(22)] assms(19,20) by auto
  have b: "BuildPacketBuffer nb (Some a) (server_packet Ping) = Some ping_buf"
    using assms(3) by (simp add: codec_def)
  obtain c2 where "logic_turn nb alloc (c\<lparr>net := c1\<rparr>) = Some c2" "sendBufferQueue (net c2) = [Some ping_buf]"
    using logic_turn_pong [of "c\<lparr>net := c1\<rparr>" "snd (decode_frame nb g)" nb alloc a ping_buf] c1(2,3) g(2) assms(23) b
    by auto
  with server c1(1) show ?thesis by blast
qed

text \<open>The byte-list buffers, the player of the example above and a fresh client.\<close>

definition pong_bytes :: "u8 list \<times> nat" where
  "pong_bytes = ([0, 4, 0, 0, 0, 2, 0, 0, 0], 5)"

definition ping_bytes :: "u8 list \<times> nat" where
  "ping_bytes = ([0, 4, 0, 0, 0, 1, 0, 0, 0], 5)"

lemmas client_eval = list_client_io_def NetBuffer_io.defs NetBuffer_ops.defs list_io_def list_nb_def

lemma list_codec:
  "codec list_client_io fst ([], 0) Ping ping_bytes ping_frame"
  "codec list_client_io fst ([], 0) Pong pong_bytes pong_frame"
  by (simp_all add: codec_def BuildPacketBuffer_def server_packet_def good_frame_def announced_def decode_frame_def
      header_buffer_def payload_length_def frame_bytes_def ping_frame_def pong_frame_def ping_bytes_def pong_bytes_def
      client_eval Let_def)

theorem ping_pong_round_witness:
  "\<exists>y z es c1 c2. OnRecvIoCompleted list_client_io list_ring IoPending pinged_player 9 = Some (True, y) \<and>
     player_OnTimer list_client_io list_lfq (Some ([], 0)) IoPending y = Some z \<and>
     io_log z = io_log y @ SendPosted [pong_bytes] # es \<and> send_batches es = [] \<and> sendQueue z = [] \<and>
     RunRecvThread list_client_io list_client_ring (map Received [[0, 4, 0, 0, 0, 2], [0, 0, 0]]) fresh_client = Some c1 \<and>
     logic_turn list_client_io (\<lambda>_. Some ([], 0)) (client0\<lparr>net := c1\<rparr>) = Some c2 \<and>
     sendBufferQueue (net c2) = [Some ping_bytes]"
proof -
  have p: "sendQueue pinged_player = []" "ioMode pinged_player = IO_NONE_SENDING" "\<not> isStop pinged_player"
    "consumerQueue pinged_player = []" "storeQueue pinged_player = []"
    "messageFactories pinged_player = [(packet_code PING, (HandlePing, []))]"
    "fst (rb_MoveWritePos list_ring 9 (ringBuffer pinged_player)) = fst ping_bytes"
    by (simp_all add: pinged_player_eq Session_ctor_def actor.defs new_actor_def list_ring_def frame_bytes_def
        ping_frame_def ping_bytes_def)
  have c: "fst (recvRingBuffer (net client0)) = []" "\<not> needStop (net client0)" "recvBufferQueue (net client0) = []"
    "sendBufferQueue (net client0) = []" "net client0 = fresh_client"
    by (simp_all add: client0_def fresh_client_def)
  have H: "0 < nb_HEADER_SIZE list_client_io"
    "nb_HEADER_SIZE list_client_io + nb_DEFAULTSIZE list_client_io + sizeof_recvBuffer \<le> 1000"
    by (simp_all add: client_eval sizeof_recvBuffer_def)
  have w: "concat [[0, 4, 0, 0, 0, 2], [0, 0, 0]] = fst pong_bytes"
    "\<forall>x \<in> set [[0, 4, 0, 0, 0, 2], [0, 0, 0 :: u8]]. length x \<le> sizeof_recvBuffer"
    by (simp_all add: pong_bytes_def sizeof_recvBuffer_def)
  have "\<exists>y z es c1 c2. OnRecvIoCompleted list_client_io list_ring IoPending pinged_player 9 =
        Some (IoPending \<noteq> IoFailed, y) \<and>
      player_OnTimer list_client_io list_lfq (Some ([], 0)) IoPending y = Some z \<and>
      io_log z = io_log y @ SendPosted [pong_bytes] # es \<and>
      send_batches es = [] \<and> sendQueue z = [] \<and> storeQueue z = [] \<and> consumerQueue z = [] \<and>
      RunRecvThread list_client_io list_client_ring (map Received [[0, 4, 0, 0, 0, 2], [0, 0, 0]]) (net client0) = Some c1 \<and>
      logic_turn list_client_io (\<lambda>_. Some ([], 0)) (client0\<lparr>net := c1\<rparr>) = Some c2 \<and>
      sendBufferQueue (net c2) = [Some ping_bytes]"
    by (rule ping_pong_round [OF list_ring_contract list_lfq_contract list_codec _ _ p(2-7) list_client_ring_ok H
        c(1-4) w]) (simp_all add: p(1))
  then show ?thesis using c(5) by (elim exE conjE) (intro exI conjI; simp)
qed

end
