(* ===== verification/TestTools.thy ===== *)
theory TestTools
  imports LogicThreads SessionRuns
begin

text \<open>
  The test interface (\<open>ActorModelServer/TestSupport.h\<close>, \<open>TestSupport.cpp\<close>, \<open>Session::InjectPacketForTest\<close>, the
  \<open>ForTest\<close> functions of \<open>Actor.cpp\<close>) and the actor factory (\<open>ActorCreator.h\<close>).

  The two lists of raw pointers are lists of addresses; the timer functions are those of \<open>ServerRegistry\<close>.
\<close>

section \<open>Test interface\<close>

record test_interface =
  testSessionList :: "nat list"
  testNonNetworkActorList :: "nat list"

definition RegisterSession :: "nat option \<Rightarrow> test_interface \<Rightarrow> test_interface" where
  "RegisterSession session ti =
     (case session of None \<Rightarrow> ti | Some p \<Rightarrow> ti\<lparr>testSessionList := testSessionList ti @ [p]\<rparr>)"

definition UnregisterSession :: "nat option \<Rightarrow> test_interface \<Rightarrow> test_interface" where
  "UnregisterSession session ti =
     (case session of None \<Rightarrow> ti | Some p \<Rightarrow> ti\<lparr>testSessionList := remove1 p (testSessionList ti)\<rparr>)"

definition test_RegisterNonNetworkActor :: "nat option \<Rightarrow> test_interface \<Rightarrow> test_interface" where
  "test_RegisterNonNetworkActor actor ti =
     (case actor of None \<Rightarrow> ti
      | Some p \<Rightarrow> ti\<lparr>testNonNetworkActorList := testNonNetworkActorList ti @ [p]\<rparr>)"

definition test_UnregisterNonNetworkActor :: "nat option \<Rightarrow> test_interface \<Rightarrow> test_interface" where
  "test_UnregisterNonNetworkActor actor ti =
     (case actor of None \<Rightarrow> ti
      | Some p \<Rightarrow> ti\<lparr>testNonNetworkActorList := remove1 p (testNonNetworkActorList ti)\<rparr>)"

definition TearDown :: "test_interface \<Rightarrow> test_interface" where
  "TearDown ti = ti\<lparr>testSessionList := [], testNonNetworkActorList := []\<rparr>"

text \<open>\<open>PreTimerForTest\<close>, \<open>OnTimerForTest\<close> and \<open>PostTimerForTest\<close> differ in the function they call.\<close>

definition timers_for_test ::
  "(timer_phase \<Rightarrow> nat \<Rightarrow> 'h server \<Rightarrow> 'h server option) \<Rightarrow> timer_phase \<Rightarrow> test_interface \<Rightarrow> 'h server
     \<Rightarrow> 'h server option" where
  "timers_for_test hook ph ti srv =
     Option.bind (run_hooks (hook ph) (testSessionList ti) srv)
       (run_hooks (hook ph) (testNonNetworkActorList ti))"

definition Tick ::
  "(timer_phase \<Rightarrow> nat \<Rightarrow> 'h server \<Rightarrow> 'h server option) \<Rightarrow> test_interface \<Rightarrow> 'h server \<Rightarrow> 'h server option" where
  "Tick hook ti srv =
     Option.bind (timers_for_test hook PreTimer ti srv)
       (\<lambda>s1. Option.bind (timers_for_test hook OnTimerPhase ti s1) (timers_for_test hook PostTimer ti))"

definition InjectPacketForTest :: "('b, 'y) NetBuffer_io_scheme \<Rightarrow> 'b option \<Rightarrow> packet \<Rightarrow> 'b option" where
  "InjectPacketForTest nb alloc pkt = BuildPacketBuffer nb alloc pkt"

text \<open>
  The message is run at once and not queued; an exception is caught and logged. The buffer is not tested for null. The
  first component of the result is whether a handler ran without an exception.
\<close>

definition SendPacketForTest ::
  "('b, 'y) NetBuffer_io_scheme \<Rightarrow> 'b option \<Rightarrow> ('h, 'w) executor \<Rightarrow> packet \<Rightarrow> 'h actor \<times> 'w
     \<Rightarrow> (bool \<times> ('h actor \<times> 'w)) option" where
  "SendPacketForTest nb alloc exec pkt s =
     (case InjectPacketForTest nb alloc pkt of
        None \<Rightarrow> None
      | Some testBuffer \<Rightarrow>
          (case fst (CreateMessageFromPacket nb (fst s) testBuffer) of
             Fault \<Rightarrow> None
           | Nullopt \<Rightarrow> Some (False, s)
           | Value m \<Rightarrow> (let r = run_message exec m s in Some (is_Done r, final r))))"

section \<open>Actor factory\<close>

definition ActorCreator_Create ::
  "actor_kind \<Rightarrow> bool \<Rightarrow> nat \<Rightarrow> u64 \<Rightarrow> 'h server \<Rightarrow> (u64 \<times> 'h server) option" where
  "ActorCreator_Create k isTester p g srv =
     (case Actor_ctor (numOfLogicThread srv) g of
        None \<Rightarrow> None
      | Some (a, g') \<Rightarrow>
          (let srv1 = srv\<lparr>objs := (objs srv)(p \<mapsto> \<lparr>act = a, kind = k, isTesterActor = isTester\<rparr>)\<rparr>
           in if k \<noteq> SessionKind then map_option (Pair g') (RegisterNonNetworkActor p srv1)
              else Some (g', log_event (ActorCreated p) srv1)))"

section \<open>Facts\<close>

text \<open>Registering twice and unregistering once leaves one registration.\<close>

lemma test_register_twice:
  assumes "p \<notin> set (testSessionList ti)"
  shows "testSessionList (UnregisterSession (Some p) (RegisterSession (Some p) (RegisterSession (Some p) ti))) =
     testSessionList ti @ [p]"
  using assms by (simp add: RegisterSession_def UnregisterSession_def remove1_append)

lemma ActorCreator_Create_found:
  assumes "ActorCreator_Create k False p g srv = Some (g', srv')" and "k \<noteq> SessionKind"
    and "\<forall>m \<in> set (nonNetworkActorMap srv). umap_find m (g + 1) = None"
  shows "FindNonNetworkActor (g + 1) srv' = Some (Some p)" and "last (lifecycle srv') = ActorCreated p"
  using assms
  by (auto simp: ActorCreator_Create_def Actor_ctor_def GenerateActorId_def RegisterNonNetworkActor_def
      core_RegisterNonNetworkActor_def FindNonNetworkActor_def log_event_def new_actor_def in_range_def Let_def
      store_simps split: option.splits if_splits)

text \<open>Hooks that leave the registries of a server alone.\<close>

definition keeps_maps :: "(timer_phase \<Rightarrow> nat \<Rightarrow> 'h server \<Rightarrow> 'h server option) \<Rightarrow> bool" where
  "keeps_maps hook \<longleftrightarrow> (\<forall>ph p s s'. hook ph p s = Some s' \<longrightarrow>
     sessionMap s' = sessionMap s \<and> nonNetworkActorMap s' = nonNetworkActorMap s)"

lemma run_hooks_keeps:
  assumes "keeps_maps hook"
  shows "run_hooks (hook ph) ps s = Some s' \<Longrightarrow>
    sessionMap s' = sessionMap s \<and> nonNetworkActorMap s' = nonNetworkActorMap s"
proof (induction ps arbitrary: s)
  case Nil
  then show ?case by simp
next
  case (Cons p ps)
  then obtain s1 where "hook ph p s = Some s1" and r: "run_hooks (hook ph) ps s1 = Some s'"
    by (auto split: option.splits)
  with assms Cons.IH [OF r] show ?case by (auto simp: keeps_maps_def)
qed

lemma wake_phase_for_test:
  assumes k: "keeps_maps hook" and r: "in_range t (sessionMap srv)" "in_range t (nonNetworkActorMap srv)"
    and l: "map snd (sessionMap srv ! unat t) = testSessionList ti"
      "map snd (nonNetworkActorMap srv ! unat t) = testNonNetworkActorList ti"
  shows "wake_phase hook ph t srv = timers_for_test hook ph ti srv"
proof (cases "run_hooks (hook ph) (testSessionList ti) srv")
  case None
  then show ?thesis using r l by (simp add: wake_phase_def timers_for_test_def)
next
  case (Some s1)
  with run_hooks_keeps [OF k Some] show ?thesis using r l by (simp add: wake_phase_def timers_for_test_def)
qed

lemma timers_for_test_keeps:
  assumes "keeps_maps hook" and "timers_for_test hook ph ti s = Some s'"
  shows "sessionMap s' = sessionMap s" "nonNetworkActorMap s' = nonNetworkActorMap s"
  using assms(2) run_hooks_keeps [OF assms(1)] by (fastforce simp: timers_for_test_def bind_eq_Some_conv)+

text \<open>
  \<open>Tick\<close> is one turn of a logic thread. When the two test lists hold the actors of a thread in the order of
  its maps, and no timer function changes the maps, \<open>Tick\<close> and the timed turn of \<open>RunLogicThread\<close> are the same
  function of the server.
\<close>

theorem Tick_eq_logic_turn:
  assumes "keeps_maps hook" and "in_range t (sessionMap srv)" and "in_range t (nonNetworkActorMap srv)"
    and "map snd (sessionMap srv ! unat t) = testSessionList ti"
    and "map snd (nonNetworkActorMap srv ! unat t) = testNonNetworkActorList ti"
  shows "Tick hook ti srv = logic_iteration hook t True srv"
proof -
  have w: "wake_phase hook ph t s = timers_for_test hook ph ti s"
    if "sessionMap s = sessionMap srv" "nonNetworkActorMap s = nonNetworkActorMap srv" for ph s
    using that assms by (intro wake_phase_for_test) simp_all
  show ?thesis
  proof (cases "timers_for_test hook PreTimer ti srv")
    case None
    then show ?thesis
      by (simp add: Tick_def logic_iteration_def PreWakeLogicThread_def OnWakeLogicThread_def
          PostWakeLogicThread_def w)
  next
    case (Some s1)
    note k1 = timers_for_test_keeps [OF assms(1) Some]
    show ?thesis
    proof (cases "timers_for_test hook OnTimerPhase ti s1")
      case None
      with Some k1 show ?thesis
        by (simp add: Tick_def logic_iteration_def PreWakeLogicThread_def OnWakeLogicThread_def
            PostWakeLogicThread_def w)
    next
      case (Some s2)
      note k2 = timers_for_test_keeps [OF assms(1) Some]
      from Some \<open>timers_for_test hook PreTimer ti srv = Some s1\<close> k1 k2 show ?thesis
        by (simp add: Tick_def logic_iteration_def PreWakeLogicThread_def OnWakeLogicThread_def
            PostWakeLogicThread_def w)
    qed
  qed
qed

text \<open>Timer functions that only record the actor they are called for.\<close>

definition recording_hook :: "timer_phase \<Rightarrow> nat \<Rightarrow> nat server \<Rightarrow> nat server option" where
  "recording_hook ph p srv = Some (log_event (ActorCreated p) srv)"

theorem Tick_eq_logic_turn_witness:
  "Tick recording_hook \<lparr>testSessionList = [0], testNonNetworkActorList = [1]\<rparr> forward_server =
     logic_iteration recording_hook 0 True forward_server \<and>
   map_option lifecycle (Tick recording_hook \<lparr>testSessionList = [0], testNonNetworkActorList = [1]\<rparr> forward_server) =
     Some [ActorCreated 0, ActorCreated 1, ActorCreated 0, ActorCreated 1, ActorCreated 0, ActorCreated 1]"
proof
  show "Tick recording_hook \<lparr>testSessionList = [0], testNonNetworkActorList = [1]\<rparr> forward_server =
      logic_iteration recording_hook 0 True forward_server"
    by (rule Tick_eq_logic_turn)
      (simp_all add: keeps_maps_def recording_hook_def log_event_def forward_server_def in_range_def)
  show "map_option lifecycle (Tick recording_hook \<lparr>testSessionList = [0], testNonNetworkActorList = [1]\<rparr> forward_server) =
      Some [ActorCreated 0, ActorCreated 1, ActorCreated 0, ActorCreated 1, ActorCreated 0, ActorCreated 1]"
    by (simp add: Tick_def timers_for_test_def recording_hook_def log_event_def forward_server_def server0_def)
qed

end
