(* ===== verification/Spec2Isabelle.thy ===== *)
theory Spec2Isabelle
  imports Deserializer ActorCore ActorThreads Mediator MediatorRuns
    TickerModel ServerRegistry ServerRuns ReleaseThreads LogicThreads SessionIO SessionRuns
    RecvFrames SendRaces SessionTeardown ServerLocks ServerBoot NetThreads NetRuns LoggerModel LogFiles Protocol Contents TradeRuns PlayerRuns ClientIO ClientLogic ClientStop PingPong TestTools
begin

text \<open>
  A model of ActorModelServer, a C++ server framework in which every session and every game object
  is an actor with a mailbox, with its contents server, its test client and its logger.

  The program. A client connection is a \<open>Session\<close>, a server object without one a \<open>NonNetworkActor\<close>; both
  are an \<open>Actor\<close> with a unique id and the logic thread the id is assigned to. Actors communicate by
  messages (bound functions) in mailboxes; a logic thread calls the three timer functions of its actors
  every 33 milliseconds, and \<open>OnTimer\<close> of a session runs the messages of its mailbox. The accept thread creates
  sessions, IO threads take completions from a completion port and turn received bytes into messages or
  go on with sends, release threads erase sessions whose reference count has reached zero.
  \<open>MediatorBase\<close> coordinates transactions of several actors, \<open>Ticker\<close> fires periodic events.

  The theories, the sources they model (under \<open>src/ActorModelServer/\<close>) and what their lemmas show.

  \<^item> \<open>Prelude\<close>: machine integers as words, \<open>std::queue\<close>, \<open>std::unordered_map\<close> and \<open>std::map\<close> as lists,
    the interfaces \<open>fifo_queue\<close>, \<open>keyed_store\<close>, \<open>emplace_store\<close>, \<open>assign_store\<close> and
    \<open>inductive_invariant\<close>, reachable states. The interfaces are interpreted where a component provides
    them: the mailbox, the sector manager, the client's actor manager, the step relations.
  \<^item> \<open>Deserializer\<close> (namespace \<open>Deserializer\<close> of \<open>ActorModelServer/Actor.h\<close>): reading handler arguments
    equals a decoder of the wire format, inverts its encoder, and never reads outside the buffer.
  \<^item> \<open>ActorCore\<close>, \<open>ActorThreads\<close> (\<open>Actor.h\<close>, \<open>Actor.cpp\<close>): the message loop processes one batch in
    order; with any number of senders every message is delivered exactly once in sending order, and the
    two queues refine one FIFO queue; packet dispatch.
  \<^item> \<open>Mediator\<close>, \<open>MediatorRuns\<close> (\<open>MediatorBase.h\<close>, \<open>.cpp\<close>): in every run no transaction is both
    committed and aborted, a commit has all votes, an abort notifies exactly the prepared participants,
    and each operation is exactly one step of an abstract two-phase commit on the event it stands for
    (\<open>spec_step\<close>).
  \<^item> \<open>TickerModel\<close> (\<open>Ticker.h\<close>, \<open>.cpp\<close>, \<open>TimerEvent.h\<close>, \<open>.cpp\<close>): which events a turn fires, the spacing of
    firings, the wrapping of ids, and a stop that can wait for ever.
  \<^item> \<open>ServerRegistry\<close>, \<open>ServerRuns\<close>, \<open>LogicThreads\<close> (\<open>ServerCore.h\<close>, \<open>ServerCore.cpp\<close> from
    \<open>RunLogicThread\<close> on, \<open>NonNetworkActor\<close>, \<open>SessionTimer.cpp\<close>): the registries hold objects of the right
    class under their own ids, lookup is exact, the user count is the number of sessions; mailboxes of actors
    that are not sessions are never emptied, with the timer functions of the program's own classes
    (\<open>timer_hook\<close>: \<open>Session\<close>, \<open>NonNetworkActor\<close>, \<open>MediatorBase\<close>).
  \<^item> \<open>ReleaseThreads\<close> (\<open>RunReleaseThread\<close>): its lookup, erase, \<open>OnDisconnected\<close> and pop as separate steps, with the
    mutex of the queue held and with \<open>EraseAllSession\<close> after the stop event: a session is disconnected at most
    once and only when it can no longer be found. The runs in which a pass is one step are among them.
  \<^item> \<open>SessionIO\<close>, \<open>SessionRuns\<close>, \<open>RecvFrames\<close> (\<open>Session.h\<close>, \<open>Session.cpp\<close>, \<open>OnIoCompleted\<close> and what it calls in
    \<open>ServerCore.cpp\<close>): what is sent is what was queued, in order, the reference count is exact, buffers are freed
    once, received frames become messages in order. Each handler is one step: these are the runs in which
    the handlers of a session do not overlap; the next theory and \<open>SessionTeardown\<close> are about those that do.
  \<^item> \<open>SendRaces\<close> (\<open>Session::DoSend\<close>): the same function in steps of one shared access each, for any number of
    threads: sends exclude each other and keep the order of the packets, but a packet can be left behind.
  \<^item> \<open>ServerBoot\<close> (\<open>StartServer\<close>, \<open>StopServer\<close>, \<open>OptionParsing\<close>, \<open>InitNetwork\<close>, \<open>InitThreads\<close>): the main thread's
    functions give lists of actions, which run interleaved with the starts and ends of all threads.
  \<^item> \<open>NetThreads\<close> (\<open>RunAcceptThread\<close>, \<open>RunIoThread\<close>, \<open>CreateSession\<close>): the registries, the sessions and the
    completion keys together. It composes \<open>ServerRegistry\<close> and \<open>SessionIO\<close>: what a session logs as a request to
    the server is carried out on the registry.
  \<^item> \<open>NetRuns\<close> (\<open>RunAcceptThread\<close> to \<open>RunReleaseThread\<close>): all threads of \<open>ServerCore\<close> on one state. The registries do
    a run of their own; a session on which nothing is outstanding waits for its release; a client that
    closes an idle connection leaves no registered session, no open socket and no buffer behind. Operations are
    atomic and completions find the session of their key; \<open>NetThreads\<close> shows what happens to a key after that.
  \<^item> \<open>SessionTeardown\<close> (\<open>OnRecvIoCompleted\<close>, \<open>OnSendIoCompleted\<close>, \<open>OnDisconnected\<close>): a session's last operations
    in steps of one shared access each: receiving is safe, a send started after the last reference was given
    back is not.
  \<^item> \<open>ServerLocks\<close> (every mutex of the server): which locks each operation takes and in which order, for any number of
    threads: no deadlock as long as the virtual functions (timer functions, \<open>Fire\<close>, \<open>OnActorCreated\<close>,
    \<open>OnActorDestroyed\<close>) keep the order, and a player's handler that does not.
  \<^item> \<open>LoggerModel\<close>, \<open>LogFiles\<close> (\<open>Logger/\<close>): the queue and the worker of the logger, the JSON lines; there is one file for
    each hour, and file names and time stamps sort like times.
  \<^item> \<open>Protocol\<close> (\<open>Common/\<close>, \<open>PacketManager\<close>), \<open>Contents\<close> (\<open>ContentsServer/\<close>): players, trades, sectors. It composes
    receiving, the mailbox and sending (a ping is answered), and the mediator with the registry (a trade).
  \<^item> \<open>TradeRuns\<close> (\<open>ContentsServer/MediatorImpl.cpp\<close> with \<open>MediatorBase\<close> and the registries): trades over time. None
    succeeds, each expires at the first timer call after its 30 seconds.
  \<^item> \<open>PlayerRuns\<close> (a player's \<open>Session\<close> with its handlers): whatever is received, sent and completed, each ping that
    arrives is answered by one pong at the next timer call, and nothing else is sent; the timer call is a run
    of the server of \<open>NetRuns\<close>.
  \<^item> \<open>ClientIO\<close>, \<open>ClientLogic\<close> (\<open>TestClient/\<close>): the client cuts the received bytes like a reference and
    independently of how they arrive; its actor map; start and stop.
  \<^item> \<open>ClientStop\<close> (\<open>WaitStopAllThreads\<close>, \<open>StopClient\<close> and the thread loops of \<open>TestClient/\<close>): the client's threads in any
    order. A requested stop ends in a few steps or waits for the server inside \<open>recv\<close>, with the socket open.
  \<^item> \<open>PingPong\<close>: one round of the exchange between the contents server and the test client.
  \<^item> \<open>TestTools\<close> (\<open>TestSupport.h\<close>, \<open>.cpp\<close>, \<open>ActorCreator.h\<close>): a test tick is a turn of a logic thread.

  Correspondence. A class is a record of its members, an \<open>enum class\<close> a datatype, an integer member a word of
  its width where it can wrap and an integer where the code cannot overflow it. An operation is a function from the
  state to the state and the returned value. An exception or an undefined behaviour is a value: a sum, an
  outcome, or \<open>None\<close>, which is also the value of a loop that does not end; that a function returns is then
  proved as such. Objects that are shared by pointer are at addresses of a store. A run with several threads is a
  path of an inductive step relation, one locked region or atomic access to a step; an unordered container
  may be reordered between steps.

  Bounds and fuel. Loops over lists are structural recursions. The loops whose end depends on third-party
  operations are \<open>partial_function (option)\<close>, so that no bound is chosen. The thread loops are followed along the
  list of their inputs (results of waits, accepted sockets, completions, keys), of any length.

  Parameters. \<open>NetBuffer\<close>, \<open>CRingbuffer\<close>, \<open>CLockFreeQueue\<close>, \<open>CListBaseQueue\<close> and \<open>CParser\<close> are classes of
  git submodules that the repository does not contain: records of their operations are arguments, and what the code relies
  on is a named contract (\<open>lfq_contract\<close>, \<open>ring_contract\<close>, \<open>ring_room\<close>), shown to hold of lists in the witnesses.
  The capacity of a \<open>NetBuffer\<close> is not known here: appending to one stands for a copy that fits.
  Results of the operating system are arguments.

  Not modelled. Console output and sleeping; the memory pools of the submodule, except for which completion keys
  are live; the resizing of the vectors of \<open>ServerCore\<close> while threads already run on them, a data race outside
  any semantics; weak memory orders (steps are sequentially consistent).
\<close>

end
